(* ===== verification/Prelude.thy ===== *)
theory Prelude
  imports Main "HOL-Library.Word"
begin

text \<open>
  Shared vocabulary of the development: the machine types of the C++ sources, the faults an
  operation can end in, the result type and its sequencing, and the lemmas on words, lists and
  results that the component theories share.

  A C++ member \<open>name_\<close> is the record field with the trailing underscore dropped (Isabelle reserves
  such names) and a short prefix of its class in front.
\<close>

named_theorems res_simps \<open>unfolding of result sequencing\<close>
named_theorems inv_intros \<open>every operation keeps the invariant of its component\<close>

subsection \<open>Machine types\<close>

type_synonym size_t = "64 word"
type_synonym uint32 = "32 word"
type_synonym uint16 = "16 word"
type_synonym bytes = "char list"
type_synonym fd = int
type_synonym errno = int

text \<open>The Linux error numbers the sources compare \<open>errno\<close> with.\<close>

definition EINTR :: errno where "EINTR = 4"
definition EAGAIN :: errno where "EAGAIN = 11"
definition EWOULDBLOCK :: errno where "EWOULDBLOCK = 11"
definition EEXIST :: errno where "EEXIST = 17"
definition ENFILE :: errno where "ENFILE = 23"
definition EMFILE :: errno where "EMFILE = 24"
definition EINPROGRESS :: errno where "EINPROGRESS = 115"

lemmas errno_defs =
  EINTR_def EAGAIN_def EWOULDBLOCK_def EEXIST_def ENFILE_def EMFILE_def EINPROGRESS_def

subsection \<open>Faults and results\<close>

text \<open>
  What stops an operation short of its return: a failed \<open>assert\<close> (the build type defaults to
  Debug, where assertions are active), an access outside an object, a thrown
  \<open>std::length_error\<close>, \<open>std::invalid_argument\<close> or \<open>std::out_of_range\<close>, an integer division by
  zero, a call through an empty \<open>std::function\<close>, a failed allocation, or the use of an object after its deletion.
\<close>

datatype fault =
    AssertFail
  | OutOfBounds
  | LengthError
  | InvalidArgument
  | OutOfRange
  | DivByZero
  | UseAfterFree
  | BadFunctionCall
  | BadAlloc
  | Terminate

type_synonym 'a res = "fault + 'a"

fun bind_res :: "'a res \<Rightarrow> ('a \<Rightarrow> 'b res) \<Rightarrow> 'b res" where
  "bind_res (Inl e) f = Inl e"
| "bind_res (Inr x) f = f x"

definition cassert :: "bool \<Rightarrow> unit res" where
  "cassert b = (if b then Inr () else Inl AssertFail)"

lemma bind_res_Inr_iff [res_simps]:
  "bind_res m f = Inr y \<longleftrightarrow> (\<exists>x. m = Inr x \<and> f x = Inr y)"
  by (cases m) auto

lemma bind_res_Inl_iff [res_simps]:
  "bind_res m f = Inl e \<longleftrightarrow> m = Inl e \<or> (\<exists>x. m = Inr x \<and> f x = Inl e)"
  by (cases m) auto

lemma cassert_Inr_iff [res_simps]: "cassert b = Inr u \<longleftrightarrow> b"
  by (auto simp: cassert_def)

lemma cassert_True [simp]: "cassert True = Inr ()"
  by (simp add: cassert_def)

lemma cassert_False [simp]: "cassert False = Inl AssertFail"
  by (simp add: cassert_def)

lemma bind_res_right [simp]: "bind_res m Inr = m"
  by (cases m) auto

lemma bind_res_assoc: "bind_res (bind_res m f) g = bind_res m (\<lambda>x. bind_res (f x) g)"
  by (cases m) auto

text \<open>A loop over a list that stops at the first fault.\<close>

fun fold_res :: "('a \<Rightarrow> 's \<Rightarrow> 's res) \<Rightarrow> 'a list \<Rightarrow> 's \<Rightarrow> 's res" where
  "fold_res f [] s = Inr s"
| "fold_res f (x # xs) s = bind_res (f x s) (fold_res f xs)"

lemma fold_res_append:
  "fold_res f (xs @ ys) s = bind_res (fold_res f xs s) (fold_res f ys)"
proof (induction xs arbitrary: s)
  case Nil
  then show ?case by simp
next
  case (Cons x xs)
  then show ?case by (cases "f x s") simp_all
qed

lemma fold_res_invariant:
  assumes "fold_res f xs s = Inr t" and "P s"
    and "\<And>x s t. x \<in> set xs \<Longrightarrow> P s \<Longrightarrow> f x s = Inr t \<Longrightarrow> P t"
  shows "P t"
  using assms
proof (induction xs arbitrary: s)
  case Nil
  then show ?case by simp
next
  case (Cons x xs)
  then obtain u where u: "f x s = Inr u" "fold_res f xs u = Inr t"
    by (auto simp: res_simps)
  have "P u" using Cons.prems u by auto
  with u(2) show ?case by (rule Cons.IH) (use Cons.prems in auto)
qed

text \<open>
  Total-correctness triples: \<open>post E r P\<close> says that \<open>r\<close> is a value satisfying \<open>P\<close> or one of the
  faults of \<open>E\<close>. With \<open>E = {}\<close> the operation cannot fault at all.
\<close>

definition post :: "fault set \<Rightarrow> 'a res \<Rightarrow> ('a \<Rightarrow> bool) \<Rightarrow> bool" where
  "post E r P = (case r of Inl e \<Rightarrow> e \<in> E | Inr x \<Rightarrow> P x)"

lemma post_Inr [simp]: "post E (Inr x) P = P x"
  by (simp add: post_def)

lemma post_Inl [simp]: "post E (Inl e) P = (e \<in> E)"
  by (simp add: post_def)

lemma post_bind: "post E m Q \<Longrightarrow> (\<And>x. m = Inr x \<Longrightarrow> Q x \<Longrightarrow> post E (f x) P) \<Longrightarrow> post E (bind_res m f) P"
  by (cases m) auto

lemma post_mono: "post E r Q \<Longrightarrow> (\<And>x. r = Inr x \<Longrightarrow> Q x \<Longrightarrow> P x) \<Longrightarrow> post E r P"
  by (cases r) auto

lemma postD: "post E r P \<Longrightarrow> r = Inr x \<Longrightarrow> P x"
  by simp

lemma post_empty: "post {} r P \<longleftrightarrow> (\<exists>x. r = Inr x \<and> P x)"
  by (cases r) auto

text \<open>A loop: \<open>I rest s\<close> is the invariant when \<open>rest\<close> is still to be done.\<close>

lemma post_fold_res:
  assumes "I xs s" and "\<And>x rest s. I (x # rest) s \<Longrightarrow> post E (f x s) (I rest)"
  shows "post E (fold_res f xs s) (I [])"
  using assms(1)
proof (induction xs arbitrary: s)
  case Nil
  then show ?case by simp
next
  case (Cons x xs)
  from assms(2) [OF Cons.prems] Cons.IH show ?case by (auto intro: post_bind)
qed

subsection \<open>Words\<close>

text \<open>
  Unsigned arithmetic on \<open>size_t\<close> read as natural numbers: exact where no wrap-around happens.
\<close>

lemma unat_plus_exact:
  "unat a + unat b < 2 ^ 64 \<Longrightarrow> unat (a + b) = unat a + unat b" for a b :: size_t
  by (simp add: unat_word_ariths)

lemma unat_minus_exact:
  "unat b \<le> unat a \<Longrightarrow> unat (a - b) = unat a - unat b" for a b :: size_t
  by (simp add: unat_sub word_le_nat_alt)

lemma unat_of_nat_exact:
  "n < 2 ^ 64 \<Longrightarrow> unat (of_nat n :: size_t) = n"
  by (simp add: unat_of_nat take_bit_nat_eq_self)

lemma unat_size_t_lt: "unat a < 2 ^ 64" for a :: size_t
  using unsigned_less [of a] by simp

subsection \<open>Lists\<close>

lemma take_length_append_drop:
  "n \<le> length xs \<Longrightarrow> take n xs @ drop n xs = xs"
  by simp

lemma list_split3:
  "i \<le> j \<Longrightarrow> j \<le> length xs \<Longrightarrow>
    xs = take i xs @ take (j - i) (drop i xs) @ drop j xs"
  by (metis append_take_drop_id drop_drop le_add_diff_inverse2)

lemma rotate_nth_first: "xs \<noteq> [] \<Longrightarrow> i < length xs \<Longrightarrow> hd (rotate i xs) = xs ! i"
  by (simp add: hd_rotate_conv_nth)

end
