(* ===== verification/Interfaces.thy ===== *)
theory Interfaces
  imports Prelude
begin

text \<open>
  The contracts between components, each a locale: the operations a client calls and the laws its
  provider promises. What a client needs of the contract is proved here once, under the laws alone;
  the provider's theory interprets the locale on the code's model.

  \<open>byte_queue\<close>: the buffer as its connection uses it (provider: \<open>Buffer\<close>).
  \<open>round_robin\<close>: the rotation shared by the worker pool and the load balancer (providers:
  \<open>ThreadPool\<close> and \<open>LoadBalancer\<close>).
\<close>

subsection \<open>Byte queues\<close>

text \<open>
  A history of a queue: bytes put in, and bytes skipped after they were looked at. \<open>queue_run\<close>
  collects the bytes skipped, in order.
\<close>

datatype queue_op = Put bytes | Skip size_t

fun queue_run :: "(bytes \<Rightarrow> 'q \<Rightarrow> 'q res) \<Rightarrow> (size_t \<Rightarrow> 'q \<Rightarrow> 'q) \<Rightarrow> ('q \<Rightarrow> bytes)
    \<Rightarrow> queue_op list \<Rightarrow> 'q \<Rightarrow> (bytes \<times> 'q) res" where
  "queue_run put skip bytes [] q = Inr ([], q)"
| "queue_run put skip bytes (Put s # ops) q =
     bind_res (put s q) (\<lambda>q'. queue_run put skip bytes ops q')"
| "queue_run put skip bytes (Skip n # ops) q =
     bind_res (queue_run put skip bytes ops (skip n q)) (\<lambda>(out, q').
     Inr (take (unat n) (bytes q) @ out, q'))"

fun ops_input :: "queue_op list \<Rightarrow> bytes" where
  "ops_input [] = []"
| "ops_input (Put s # ops) = s @ ops_input ops"
| "ops_input (Skip n # ops) = ops_input ops"

locale byte_queue =
  fixes ok :: "'q \<Rightarrow> bool" and bytes :: "'q \<Rightarrow> char list" and space :: "'q \<Rightarrow> nat"
    and put :: "char list \<Rightarrow> 'q \<Rightarrow> 'q res" and skip :: "size_t \<Rightarrow> 'q \<Rightarrow> 'q"
  assumes put_law: "ok q \<Longrightarrow> length s \<le> space q \<Longrightarrow>
      \<exists>q'. put s q = Inr q' \<and> ok q' \<and> bytes q' = bytes q @ s \<and> space q - length s \<le> space q'"
    and skip_ok: "ok q \<Longrightarrow> ok (skip n q)"
    and skip_bytes: "ok q \<Longrightarrow> bytes (skip n q) = drop (unat n) (bytes q)"
    and skip_space: "ok q \<Longrightarrow> space q \<le> space (skip n q)"
begin

lemma put_cases:
  assumes "ok q" and "length s \<le> space q"
  obtains q' where "put s q = Inr q'" "ok q'" "bytes q' = bytes q @ s"
    "space q - length s \<le> space q'"
  using put_law [OF assms] by blast

text \<open>
  First in, first out, and never a fault: what was skipped followed by what is left is what was
  there followed by what was put.
\<close>

lemma run_fifo:
  assumes "ok q" and "length (ops_input ops) \<le> space q"
  shows "\<exists>out q'. queue_run put skip bytes ops q = Inr (out, q') \<and> ok q' \<and>
    out @ bytes q' = bytes q @ ops_input ops"
  using assms
proof (induction ops arbitrary: q)
  case Nil
  then show ?case by simp
next
  case (Cons x ops)
  show ?case
  proof (cases x)
    case (Put s)
    have "length s \<le> space q" using Cons.prems(2) Put by simp
    with Cons.prems(1) obtain q' where q': "put s q = Inr q'" "ok q'" "bytes q' = bytes q @ s"
      "space q - length s \<le> space q'" by (rule put_cases)
    have "length (ops_input ops) \<le> space q'" using Cons.prems(2) Put q'(4) by simp
    from Cons.IH [OF q'(2) this] Put q' show ?thesis by auto
  next
    case (Skip n)
    have "length (ops_input ops) \<le> space (skip n q)"
      using Cons.prems Skip skip_space [of q n] by simp
    from Cons.IH [OF skip_ok [OF Cons.prems(1)] this] obtain out q' where
      "queue_run put skip bytes ops (skip n q) = Inr (out, q')" "ok q'"
      "out @ bytes q' = drop (unat n) (bytes q) @ ops_input ops"
      using skip_bytes [OF Cons.prems(1)] by auto
    with Skip show ?thesis by simp
  qed
qed

end

subsection \<open>Round robin\<close>

text \<open>
  \<open>pick_many n\<close> asks \<open>n\<close> times in a row. The contract: the items do not change, the answer is the
  item under the cursor and the cursor moves on cyclically.
\<close>

fun pick_many :: "('s \<Rightarrow> ('a \<times> 's) option) \<Rightarrow> nat \<Rightarrow> 's \<Rightarrow> ('a list \<times> 's) option" where
  "pick_many pick 0 s = Some ([], s)"
| "pick_many pick (Suc n) s =
     (case pick s of None \<Rightarrow> None
      | Some (a, s') \<Rightarrow>
          (case pick_many pick n s' of None \<Rightarrow> None | Some (as, t) \<Rightarrow> Some (a # as, t)))"

locale round_robin =
  fixes ok :: "'s \<Rightarrow> bool" and items :: "'s \<Rightarrow> 'a list" and cursor :: "'s \<Rightarrow> nat"
    and pick :: "'s \<Rightarrow> ('a \<times> 's) option"
  assumes pick_law: "ok s \<Longrightarrow> items s \<noteq> [] \<Longrightarrow>
      \<exists>s'. pick s = Some (items s ! (cursor s mod length (items s)), s') \<and> ok s' \<and>
        items s' = items s \<and>
        cursor s' mod length (items s) = Suc (cursor s) mod length (items s)"
begin

lemma pick_many_nth:
  assumes "ok s" and "items s \<noteq> []"
  shows "\<exists>s'. pick_many pick n s =
      Some (map (\<lambda>i. items s ! ((cursor s + i) mod length (items s))) [0..<n], s') \<and>
      ok s' \<and> items s' = items s \<and>
      cursor s' mod length (items s) = (cursor s + n) mod length (items s)"
  using assms
proof (induction n arbitrary: s)
  case 0
  then show ?case by simp
next
  case (Suc n)
  let ?l = "length (items s)"
  from pick_law [OF Suc.prems] obtain t where t:
    "pick s = Some (items s ! (cursor s mod ?l), t)" "ok t" "items t = items s"
    "cursor t mod ?l = Suc (cursor s) mod ?l" by blast
  have sh: "(cursor t + i) mod ?l = (cursor s + Suc i) mod ?l" for i
    using mod_add_cong [OF t(4), of i i] by simp
  from Suc.IH [OF t(2)] Suc.prems(2) t(3) obtain u where u:
    "pick_many pick n t =
       Some (map (\<lambda>i. items s ! ((cursor t + i) mod ?l)) [0..<n], u)"
    "ok u" "items u = items s" "cursor u mod ?l = (cursor t + n) mod ?l" by auto
  have "map (\<lambda>i. items s ! ((cursor s + i) mod ?l)) [0..<Suc n] =
      items s ! (cursor s mod ?l) # map (\<lambda>i. items s ! ((cursor t + i) mod ?l)) [0..<n]"
    unfolding sh by (simp add: upt_conv_Cons map_Suc_upt [symmetric] del: upt_Suc)
  with t(1) u sh [of n] show ?case by simp
qed

text \<open>A full round serves the list of items rotated to the cursor: every item exactly once.\<close>

lemma full_round:
  assumes "ok s" and "items s \<noteq> []"
  shows "\<exists>s'. pick_many pick (length (items s)) s = Some (rotate (cursor s) (items s), s') \<and>
    items s' = items s \<and>
    cursor s' mod length (items s) = cursor s mod length (items s)"
proof -
  have "map (\<lambda>i. items s ! ((cursor s + i) mod length (items s))) [0..<length (items s)] =
      rotate (cursor s) (items s)"
    by (rule nth_equalityI) (simp_all add: nth_rotate add.commute)
  with pick_many_nth [OF assms, of "length (items s)"] show ?thesis by auto
qed

end

end
