(* ===== verification/Buffer.thy ===== *)
theory Buffer
  imports Interfaces
begin

text \<open>
  The byte buffer of a connection (src/net/buffer.h, src/net/buffer.cpp): a \<open>vector<char>\<close> with a
  reader and a writer index, eight bytes kept free in front for a prepended header.

  The indices are 64-bit words, so every sum and difference of the code wraps here as it does in
  C++. A pointer into the vector is its offset from \<open>begin()\<close>. Copies are bounds-checked: leaving
  the vector is the fault \<open>OutOfBounds\<close>. The lemmas show that under the class invariant no
  assertion fails, nothing is read or written out of bounds, and the buffer is a queue of bytes.
\<close>

subsection \<open>State\<close>

record buffer =
  storage :: bytes
  readerIndex :: size_t
  writerIndex :: size_t

definition cacheHeapPrepend :: size_t where "cacheHeapPrepend = 8"

definition initialSize_default :: size_t where "initialSize_default = 1024"

text \<open>\<open>std::vector<char>::max_size()\<close> on a 64-bit target, and the size of \<open>extrabuf\<close>.\<close>

definition vector_max_size :: nat where "vector_max_size = 2 ^ 63 - 1"

definition extrabuf_size :: size_t where "extrabuf_size = 65536"

definition vsize :: "bytes \<Rightarrow> size_t" where "vsize xs = of_nat (length xs)"

subsection \<open>What the standard library does\<close>

text \<open>
  \<open>std::copy\<close> inside one vector: element by element, front to back, as the standard says. Copying
  data from outside is one splice. \<open>vector::resize\<close> throws above \<open>max_size\<close>, keeps a prefix and
  fills with zero bytes.
\<close>

fun copy_within :: "bytes \<Rightarrow> nat \<Rightarrow> nat \<Rightarrow> nat \<Rightarrow> bytes res" where
  "copy_within xs first 0 dst = Inr xs"
| "copy_within xs first (Suc n) dst =
     (if first < length xs \<and> dst < length xs
      then copy_within (xs[dst := xs ! first]) (Suc first) n (Suc dst)
      else Inl OutOfBounds)"

definition copy_into :: "bytes \<Rightarrow> bytes \<Rightarrow> nat \<Rightarrow> bytes res" where
  "copy_into xs data dst =
     (if dst + length data \<le> length xs
      then Inr (take dst xs @ data @ drop (dst + length data) xs)
      else Inl OutOfBounds)"

definition read_range :: "bytes \<Rightarrow> nat \<Rightarrow> nat \<Rightarrow> bytes res" where
  "read_range xs first n =
     (if first + n \<le> length xs then Inr (take n (drop first xs)) else Inl OutOfBounds)"

definition vector_resize :: "size_t \<Rightarrow> bytes \<Rightarrow> bytes res" where
  "vector_resize n xs =
     (if unat n > vector_max_size then Inl LengthError
      else Inr (take (unat n) xs @ replicate (unat n - length xs) (CHR 0x00)))"

subsection \<open>Queries\<close>

definition readableBytes :: "buffer \<Rightarrow> size_t" where
  "readableBytes b = writerIndex b - readerIndex b"

definition writableBytes :: "buffer \<Rightarrow> size_t" where
  "writableBytes b = vsize (storage b) - writerIndex b"

definition prependableBytes :: "buffer \<Rightarrow> size_t" where
  "prependableBytes b = readerIndex b"

definition peek :: "buffer \<Rightarrow> size_t" where "peek b = readerIndex b"

definition beginwrite :: "buffer \<Rightarrow> size_t" where "beginwrite b = writerIndex b"

definition peekAsString :: "size_t \<Rightarrow> buffer \<Rightarrow> bytes res" where
  "peekAsString len b = read_range (storage b) (unat (peek b)) (unat len)"

subsection \<open>Construction and consumption\<close>

definition new_buffer :: "size_t \<Rightarrow> buffer res" where
  "new_buffer initialSize =
     (let n = cacheHeapPrepend + initialSize in
      if unat n > vector_max_size then Inl LengthError
      else
        (let b = \<lparr>storage = replicate (unat n) (CHR 0x00),
                  readerIndex = cacheHeapPrepend, writerIndex = cacheHeapPrepend\<rparr> in
         bind_res (cassert (readableBytes b = 0)) (\<lambda>_.
         bind_res (cassert (writableBytes b = initialSize)) (\<lambda>_.
         bind_res (cassert (prependableBytes b = cacheHeapPrepend)) (\<lambda>_. Inr b)))))"

definition retrieveAll :: "buffer \<Rightarrow> buffer" where
  "retrieveAll b = b\<lparr>readerIndex := cacheHeapPrepend, writerIndex := cacheHeapPrepend\<rparr>"

definition retrieve :: "size_t \<Rightarrow> buffer \<Rightarrow> buffer" where
  "retrieve len b =
     (if len < readableBytes b then b\<lparr>readerIndex := readerIndex b + len\<rparr>
      else retrieveAll b)"

definition retrieveUntil :: "size_t \<Rightarrow> buffer \<Rightarrow> buffer res" where
  "retrieveUntil endp b =
     bind_res (cassert (peek b \<le> endp)) (\<lambda>_.
     bind_res (cassert (endp \<le> beginwrite b)) (\<lambda>_.
     Inr (retrieve (endp - peek b) b)))"

definition retrieveAsString :: "size_t \<Rightarrow> buffer \<Rightarrow> (bytes \<times> buffer) res" where
  "retrieveAsString len b =
     bind_res (read_range (storage b) (unat (peek b)) (unat len)) (\<lambda>result.
     Inr (result, retrieve len b))"

definition retrieveAllAsString :: "buffer \<Rightarrow> (bytes \<times> buffer) res" where
  "retrieveAllAsString b = retrieveAsString (readableBytes b) b"

subsection \<open>Growth and insertion\<close>

definition makeSpace :: "size_t \<Rightarrow> buffer \<Rightarrow> buffer res" where
  "makeSpace len b =
     (if writableBytes b + prependableBytes b < len + cacheHeapPrepend then
        bind_res (vector_resize (writerIndex b + len) (storage b)) (\<lambda>s.
        Inr (b\<lparr>storage := s\<rparr>))
      else
        (let readable = readableBytes b in
         bind_res (copy_within (storage b) (unat (readerIndex b)) (unat readable)
                     (unat cacheHeapPrepend)) (\<lambda>s.
         (let b' = b\<lparr>storage := s, readerIndex := cacheHeapPrepend,
                     writerIndex := cacheHeapPrepend + readable\<rparr> in
          bind_res (cassert (readable = readableBytes b')) (\<lambda>_. Inr b')))))"

definition ensureWriteableBytes :: "size_t \<Rightarrow> buffer \<Rightarrow> buffer res" where
  "ensureWriteableBytes len b =
     bind_res (if writableBytes b < len then makeSpace len b else Inr b) (\<lambda>b'.
     bind_res (cassert (len \<le> writableBytes b')) (\<lambda>_. Inr b'))"

definition append_raw :: "bytes \<Rightarrow> size_t \<Rightarrow> buffer \<Rightarrow> buffer res" where
  "append_raw data len b =
     bind_res (ensureWriteableBytes len b) (\<lambda>b'.
     bind_res (read_range data 0 (unat len)) (\<lambda>src.
     bind_res (copy_into (storage b') src (unat (beginwrite b'))) (\<lambda>s.
     Inr (b'\<lparr>storage := s, writerIndex := writerIndex b' + len\<rparr>))))"

definition append_string :: "bytes \<Rightarrow> buffer \<Rightarrow> buffer res" where
  "append_string str b = append_raw str (of_nat (length str)) b"

definition prepend :: "bytes \<Rightarrow> size_t \<Rightarrow> buffer \<Rightarrow> buffer res" where
  "prepend data len b =
     bind_res (cassert (len \<le> prependableBytes b)) (\<lambda>_.
     bind_res (read_range data 0 (unat len)) (\<lambda>src.
     bind_res (copy_into (storage b) src (unat (readerIndex b - len))) (\<lambda>s.
     Inr (b\<lparr>storage := s, readerIndex := readerIndex b - len\<rparr>))))"

text \<open>
  \<open>readFd\<close> asks the kernel with \<open>::readv\<close>, the parameter \<open>readv\<close>: given the descriptor and the
  lengths of the two vectors it returns an error number or the bytes received, which fill the free
  part of the vector first and the stack buffer \<open>extrabuf\<close> next. The result holds the return
  value, \<open>*savedErrno\<close>, the buffer and the kernel's new state.
\<close>

definition iov_lengths :: "buffer \<Rightarrow> size_t list" where
  "iov_lengths b =
     (if writableBytes b < extrabuf_size then [writableBytes b, extrabuf_size]
      else [writableBytes b])"

definition readFd ::
  "(fd \<Rightarrow> size_t list \<Rightarrow> 'k \<Rightarrow> (errno + bytes) \<times> 'k) \<Rightarrow> fd \<Rightarrow> errno \<Rightarrow> buffer \<Rightarrow> 'k
    \<Rightarrow> (int \<times> errno \<times> buffer \<times> 'k) res" where
  "readFd readv f savedErrno b k =
     (let writable = writableBytes b
      in case readv f (iov_lengths b) k of
           (Inl e, k') \<Rightarrow> Inr (-1, e, b, k')
         | (Inr data, k') \<Rightarrow>
             bind_res (copy_into (storage b) (take (unat writable) data) (unat (beginwrite b))) (\<lambda>s.
             if length data \<le> unat writable
             then Inr (int (length data), savedErrno,
                       b\<lparr>storage := s, writerIndex := writerIndex b + of_nat (length data)\<rparr>, k')
             else
               (let extrabuf = take (unat extrabuf_size) (drop (unat writable) data);
                    b' = b\<lparr>storage := s, writerIndex := vsize s\<rparr>
                in bind_res (append_raw extrabuf (of_nat (length data) - writable) b') (\<lambda>b''.
                   Inr (int (length data), savedErrno, b'', k')))))"

subsection \<open>Invariant and abstraction\<close>

text \<open>
  The class invariant: reader before writer before the end of a vector of at most \<open>max_size\<close>
  bytes, the writer never inside the prepend area. The abstraction of a buffer is the bytes between the
  two indices.
\<close>

definition buffer_inv :: "buffer \<Rightarrow> bool" where
  "buffer_inv b \<longleftrightarrow> unat (readerIndex b) \<le> unat (writerIndex b) \<and>
     unat (writerIndex b) \<le> length (storage b) \<and> 8 \<le> unat (writerIndex b) \<and>
     length (storage b) \<le> vector_max_size"

definition content :: "buffer \<Rightarrow> bytes" where
  "content b = take (unat (readableBytes b)) (drop (unat (readerIndex b)) (storage b))"

text \<open>How many bytes can still be appended before the vector would pass \<open>max_size\<close>.\<close>

definition room :: "buffer \<Rightarrow> nat" where
  "room b = vector_max_size - unat (writerIndex b)"

lemma buffer_nat:
  assumes "buffer_inv b"
  shows "unat (readableBytes b) = unat (writerIndex b) - unat (readerIndex b)"
    and "unat (vsize (storage b)) = length (storage b)"
    and "unat (writableBytes b) = length (storage b) - unat (writerIndex b)"
    and "length (content b) = unat (readableBytes b)"
    and "unat (prependableBytes b) = unat (readerIndex b)"
proof -
  show r: "unat (readableBytes b) = unat (writerIndex b) - unat (readerIndex b)"
    using assms by (simp add: readableBytes_def buffer_inv_def unat_minus_exact)
  show v: "unat (vsize (storage b)) = length (storage b)"
    unfolding vsize_def
    by (rule unat_of_nat_exact) (use assms in \<open>simp add: buffer_inv_def vector_max_size_def\<close>)
  then show "unat (writableBytes b) = length (storage b) - unat (writerIndex b)"
    using assms by (simp add: writableBytes_def buffer_inv_def unat_minus_exact)
  show "length (content b) = unat (readableBytes b)"
    using assms r by (auto simp: content_def buffer_inv_def min_def)
  show "unat (prependableBytes b) = unat (readerIndex b)"
    by (simp add: prependableBytes_def)
qed

lemma copy_within_left:
  "dst \<le> first \<Longrightarrow> first + n \<le> length xs \<Longrightarrow>
    copy_within xs first n dst = Inr (take dst xs @ take n (drop first xs) @ drop (dst + n) xs)"
proof (induction n arbitrary: xs first dst)
  case 0
  then show ?case by simp
next
  case (Suc n)
  let ?ys = "xs[dst := xs ! first]"
  have "copy_within ?ys (Suc first) n (Suc dst) =
      Inr (take (Suc dst) ?ys @ take n (drop (Suc first) ?ys) @ drop (Suc dst + n) ?ys)"
    using Suc.prems by (intro Suc.IH) auto
  moreover have "take (Suc dst) ?ys = take dst xs @ [xs ! first]"
    using Suc.prems by (simp add: take_Suc_conv_app_nth)
  moreover have "drop (Suc first) ?ys = drop (Suc first) xs"
    using Suc.prems by simp
  moreover have "drop (Suc dst + n) ?ys = drop (Suc dst + n) xs"
    using Suc.prems by simp
  moreover have "take (Suc n) (drop first xs) = xs ! first # take n (drop (Suc first) xs)"
    using Suc.prems by (metis Cons_nth_drop_Suc add_Suc_right add_lessD1 less_le_trans
      lessI take_Suc_Cons)
  ultimately show ?case using Suc.prems by simp
qed

lemma retrieveAll_props:
  assumes "buffer_inv b"
  shows "buffer_inv (retrieveAll b)" and "content (retrieveAll b) = []"
    and "unat (writerIndex (retrieveAll b)) = 8"
  using assms
  by (simp_all add: retrieveAll_def buffer_inv_def content_def readableBytes_def
      cacheHeapPrepend_def)

lemma retrieve_props:
  assumes "buffer_inv b"
  shows "buffer_inv (retrieve len b)"
    and "content (retrieve len b) = drop (unat len) (content b)"
proof -
  have "buffer_inv (retrieve len b) \<and> content (retrieve len b) = drop (unat len) (content b)"
  proof (cases "len < readableBytes b")
    case True
    let ?b = "b\<lparr>readerIndex := readerIndex b + len\<rparr>"
    have lt: "unat len < unat (writerIndex b) - unat (readerIndex b)"
      using True buffer_nat(1) [OF assms] by (simp add: word_less_nat_alt)
    have sum: "unat (readerIndex b + len) = unat (readerIndex b) + unat len"
      by (rule unat_plus_exact)
        (use lt unat_size_t_lt [of "writerIndex b"] in linarith)
    have inv: "buffer_inv ?b"
      using assms lt sum by (simp add: buffer_inv_def)
    have "content ?b = drop (unat len) (content b)"
      using buffer_nat(1) [OF inv] buffer_nat(1) [OF assms] sum
      by (simp add: content_def drop_take add.commute)
    with inv True show ?thesis by (simp add: retrieve_def)
  next
    case False
    then have "length (content b) \<le> unat len"
      using buffer_nat(4) [OF assms] by (simp add: word_less_nat_alt)
    with False retrieveAll_props [OF assms] show ?thesis by (simp add: retrieve_def)
  qed
  then show "buffer_inv (retrieve len b)"
    and "content (retrieve len b) = drop (unat len) (content b)" by auto
qed

subsection \<open>Every operation against the abstraction\<close>

text \<open>
  As long as \<open>writerIndex_ + len\<close> does not wrap, \<open>makeSpace\<close> either throws because the vector would
  pass \<open>max_size\<close> or makes the room asked for and keeps the content.
\<close>

lemma makeSpace_cases:
  assumes inv: "buffer_inv b" and need: "writableBytes b < len"
    and nowrap: "unat (writerIndex b) + unat len < 2 ^ 64"
  shows "makeSpace len b = Inl LengthError \<and>
      vector_max_size < unat (writerIndex b) + unat len \<or>
    (\<exists>b'. makeSpace len b = Inr b' \<and> buffer_inv b' \<and> content b' = content b \<and>
    unat len \<le> unat (writableBytes b') \<and> unat (writerIndex b') \<le> unat (writerIndex b) \<and>
    (length (storage b') = length (storage b) \<or>
     length (storage b') = unat (writerIndex b) + unat len \<and>
     length (storage b) < length (content b) + unat len + 8))"
proof -
  let ?r = "unat (readerIndex b)" and ?w = "unat (writerIndex b)" and ?n = "length (storage b)"
  let ?l = "unat len"
  note nats = buffer_nat [OF inv]
  have bnds: "?r \<le> ?w" "?w \<le> ?n" "8 \<le> ?w" "?n \<le> vector_max_size"
    using inv by (auto simp: buffer_inv_def)
  have small: "vector_max_size < 2 ^ 63" by (simp add: vector_max_size_def)
  have lw: "?n - ?w < ?l" using need nats(3) by (simp add: word_less_nat_alt)
  have s1: "unat (writableBytes b + prependableBytes b) = (?n - ?w) + ?r"
    using bnds small nats by (subst unat_plus_exact) auto
  have s2: "unat (len + cacheHeapPrepend) = ?l + 8"
    using nowrap bnds by (subst unat_plus_exact) (auto simp: cacheHeapPrepend_def)
  have s3: "unat (writerIndex b + len) = ?w + ?l"
    using nowrap by (subst unat_plus_exact) auto
  consider (big) "writableBytes b + prependableBytes b < len + cacheHeapPrepend"
      "vector_max_size < ?w + ?l"
    | (grow) "writableBytes b + prependableBytes b < len + cacheHeapPrepend"
      "?w + ?l \<le> vector_max_size"
    | (move) "\<not> writableBytes b + prependableBytes b < len + cacheHeapPrepend"
    by linarith
  then show ?thesis
  proof cases
    case big
    then show ?thesis by (simp add: makeSpace_def vector_resize_def s3)
  next
    case grow
    let ?s = "storage b @ replicate (?w + ?l - ?n) (CHR 0x00)"
    let ?b = "b\<lparr>storage := ?s\<rparr>"
    have rs: "vector_resize (writerIndex b + len) (storage b) = Inr ?s"
      using grow lw bnds by (simp add: vector_resize_def s3)
    have len: "length ?s = ?w + ?l" using lw bnds by simp
    have inv': "buffer_inv ?b" using bnds grow len by (simp add: buffer_inv_def)
    have "content ?b = content b"
      using bnds nats(1) by (simp add: content_def readableBytes_def)
    moreover have "?l \<le> unat (writableBytes ?b)"
      using buffer_nat(3) [OF inv'] len by simp
    moreover have "?n < length (content b) + ?l + 8"
      using grow(1) s1 s2 nats(1,4) bnds by (simp add: word_less_nat_alt)
    ultimately show ?thesis
      using grow rs inv' len by (simp add: makeSpace_def)
  next
    case move
    then have room: "?l + 8 \<le> (?n - ?w) + ?r"
      using s1 s2 by (simp add: word_less_nat_alt)
    let ?s = "take 8 (storage b) @ take (?w - ?r) (drop ?r (storage b)) @
      drop (8 + (?w - ?r)) (storage b)"
    let ?b = "b\<lparr>storage := ?s, readerIndex := cacheHeapPrepend,
      writerIndex := cacheHeapPrepend + readableBytes b\<rparr>"
    have r8: "8 \<le> ?r" using room lw by linarith
    have cp: "copy_within (storage b) ?r (unat (readableBytes b)) (unat cacheHeapPrepend) = Inr ?s"
      using copy_within_left [of 8 ?r "?w - ?r" "storage b"] r8 bnds nats(1)
      by (simp add: cacheHeapPrepend_def)
    have len: "length ?s = ?n" using r8 bnds by (auto simp: min_def)
    have w': "unat (cacheHeapPrepend + readableBytes b) = 8 + (?w - ?r)"
      using bnds small nats(1) by (subst unat_plus_exact) (auto simp: cacheHeapPrepend_def)
    have inv': "buffer_inv ?b"
      using bnds r8 len w' by (auto simp: buffer_inv_def cacheHeapPrepend_def)
    have rd: "readableBytes ?b = readableBytes b" by (simp add: readableBytes_def)
    have "content ?b = content b"
      using bnds r8 nats(1) unfolding content_def rd
      by (simp add: cacheHeapPrepend_def)
    moreover have "?l \<le> unat (writableBytes ?b)"
      using buffer_nat(3) [OF inv'] len w' room bnds by simp
    ultimately show ?thesis
      using move cp inv' len w' r8 bnds rd by (simp add: makeSpace_def Let_def)
  qed
qed

lemma ensureWriteableBytes_cases:
  assumes inv: "buffer_inv b" and nowrap: "unat (writerIndex b) + unat len < 2 ^ 64"
  shows "ensureWriteableBytes len b = Inl LengthError \<and>
      vector_max_size < unat (writerIndex b) + unat len \<or>
    (\<exists>b'. ensureWriteableBytes len b = Inr b' \<and> buffer_inv b' \<and> content b' = content b \<and>
    unat len \<le> unat (writableBytes b') \<and> unat (writerIndex b') \<le> unat (writerIndex b) \<and>
    (length (storage b') = length (storage b) \<or>
     length (storage b') = unat (writerIndex b) + unat len \<and>
     length (storage b) < length (content b) + unat len + 8))"
proof (cases "writableBytes b < len")
  case True
  from makeSpace_cases [OF inv True nowrap] show ?thesis
  proof (elim disjE exE conjE)
    fix b'
    assume "makeSpace len b = Inr b'" "buffer_inv b'" "content b' = content b"
      "unat len \<le> unat (writableBytes b')" "unat (writerIndex b') \<le> unat (writerIndex b)"
      "length (storage b') = length (storage b)"
    with True show ?thesis by (simp add: ensureWriteableBytes_def word_le_nat_alt)
  next
    fix b'
    assume "makeSpace len b = Inr b'" "buffer_inv b'" "content b' = content b"
      "unat len \<le> unat (writableBytes b')" "unat (writerIndex b') \<le> unat (writerIndex b)"
      "length (storage b') = unat (writerIndex b) + unat len"
      "length (storage b) < length (content b) + unat len + 8"
    with True show ?thesis by (simp add: ensureWriteableBytes_def word_le_nat_alt)
  qed (use True in \<open>simp add: ensureWriteableBytes_def\<close>)
next
  case False
  then have "len \<le> writableBytes b" by simp
  with inv False show ?thesis
    by (simp add: ensureWriteableBytes_def word_le_nat_alt)
qed

lemma ensureWriteableBytes_ok:
  assumes inv: "buffer_inv b" and fits: "unat (writerIndex b) + unat len \<le> vector_max_size"
  obtains b' where "ensureWriteableBytes len b = Inr b'" "buffer_inv b'" "content b' = content b"
    "unat len \<le> unat (writableBytes b')" "unat (writerIndex b') \<le> unat (writerIndex b)"
    "length (storage b') = length (storage b) \<or>
     length (storage b') = unat (writerIndex b) + unat len"
proof -
  have "unat (writerIndex b) + unat len < 2 ^ 64" using fits by (simp add: vector_max_size_def)
  from ensureWriteableBytes_cases [OF inv this] fits that show thesis by auto
qed

text \<open>Writing \<open>src\<close> at the writer index of a buffer with enough room puts it behind the content.\<close>

lemma write_back_props:
  assumes inv: "buffer_inv b" and fit: "unat (writerIndex b) + length src \<le> length (storage b)"
  shows "copy_into (storage b) src (unat (writerIndex b)) =
      Inr (take (unat (writerIndex b)) (storage b) @ src @
           drop (unat (writerIndex b) + length src) (storage b))"
    and "s = take (unat (writerIndex b)) (storage b) @ src @
           drop (unat (writerIndex b) + length src) (storage b) \<Longrightarrow>
      w = writerIndex b + of_nat (length src) \<Longrightarrow>
      buffer_inv (b\<lparr>storage := s, writerIndex := w\<rparr>) \<and>
      content (b\<lparr>storage := s, writerIndex := w\<rparr>) = content b @ src \<and>
      unat w = unat (writerIndex b) + length src \<and> length s = length (storage b)"
proof -
  show "copy_into (storage b) src (unat (writerIndex b)) =
      Inr (take (unat (writerIndex b)) (storage b) @ src @
           drop (unat (writerIndex b) + length src) (storage b))"
    using fit by (simp add: copy_into_def)
next
  let ?r = "unat (readerIndex b)" and ?w = "unat (writerIndex b)" and ?n = "length (storage b)"
  assume s: "s = take ?w (storage b) @ src @ drop (?w + length src) (storage b)"
    and w: "w = writerIndex b + of_nat (length src)"
  have bnds: "?r \<le> ?w" "?w \<le> ?n" "8 \<le> ?w" "?n < 2 ^ 63" "?n \<le> vector_max_size"
    using inv by (auto simp: buffer_inv_def vector_max_size_def)
  have "unat (of_nat (length src) :: size_t) = length src"
    using fit bnds by (intro unat_of_nat_exact) auto
  then have uw: "unat w = ?w + length src"
    unfolding w using fit bnds by (subst unat_plus_exact) auto
  have len: "length s = ?n" using fit bnds by (simp add: s)
  let ?b = "b\<lparr>storage := s, writerIndex := w\<rparr>"
  have inv': "buffer_inv ?b" using bnds uw len fit by (simp add: buffer_inv_def)
  have "content ?b = take (?w + length src - ?r) (drop ?r s)"
    using buffer_nat(1) [OF inv'] uw by (simp add: content_def)
  also have "\<dots> = take (?w - ?r) (drop ?r (storage b)) @ src"
    using bnds by (simp add: s drop_take)
  also have "\<dots> = content b @ src"
    using buffer_nat(1) [OF inv] by (simp add: content_def)
  finally show "buffer_inv ?b \<and> content ?b = content b @ src \<and>
      unat w = ?w + length src \<and> length s = ?n"
    using inv' uw len by simp
qed

lemma append_raw_props:
  assumes inv: "buffer_inv b" and src: "unat len \<le> length data"
    and fits: "unat len \<le> room b"
  shows "\<exists>b'. append_raw data len b = Inr b' \<and> buffer_inv b' \<and>
    content b' = content b @ take (unat len) data \<and> room b - unat len \<le> room b' \<and>
    (length (storage b') = length (storage b) \<or>
     length (storage b') = unat (writerIndex b) + unat len)"
proof -
  have w: "unat (writerIndex b) \<le> vector_max_size"
    using inv by (simp add: buffer_inv_def)
  with fits have "unat (writerIndex b) + unat len \<le> vector_max_size"
    by (simp add: room_def)
  from ensureWriteableBytes_ok [OF inv this] obtain b1 where
    b1: "ensureWriteableBytes len b = Inr b1" "buffer_inv b1" "content b1 = content b"
      "unat len \<le> unat (writableBytes b1)" "unat (writerIndex b1) \<le> unat (writerIndex b)"
      "length (storage b1) = length (storage b) \<or>
       length (storage b1) = unat (writerIndex b) + unat len"
    by blast
  let ?src = "take (unat len) data"
  have l: "length ?src = unat len" using src by simp
  have "unat (writerIndex b1) + length ?src \<le> length (storage b1)"
    using b1(2,4) buffer_nat(3) [OF b1(2)] l by (auto simp: buffer_inv_def)
  note wb = write_back_props [OF b1(2) this]
  have w2: "writerIndex b1 + len = writerIndex b1 + of_nat (length ?src)"
    unfolding l by simp
  define s2 where "s2 = take (unat (writerIndex b1)) (storage b1) @ ?src @
    drop (unat (writerIndex b1) + length ?src) (storage b1)"
  define b2 where "b2 = b1\<lparr>storage := s2, writerIndex := writerIndex b1 + len\<rparr>"
  have f: "buffer_inv b2" "content b2 = content b1 @ ?src"
    "unat (writerIndex b2) = unat (writerIndex b1) + unat len" "length (storage b2) = length (storage b1)"
    using wb(2) [OF s2_def w2] l by (simp_all add: b2_def)
  have "append_raw data len b = Inr b2"
    using b1(1) src wb(1) by (simp add: append_raw_def read_range_def beginwrite_def s2_def b2_def)
  moreover have "room b - unat len \<le> room b2" using f(3) b1(5) w by (simp add: room_def)
  ultimately show ?thesis using f(1,2,4) b1(3,6) by auto
qed


lemma append_string_ok:
  assumes inv: "buffer_inv b" and fits: "length s \<le> room b"
  shows "\<exists>b'. append_string s b = Inr b' \<and> buffer_inv b' \<and> content b' = content b @ s \<and>
    room b - length s \<le> room b' \<and>
    (length (storage b') = length (storage b) \<or>
     length (storage b') = unat (writerIndex b) + length s)"
proof -
  have "length s < 2 ^ 64"
    using fits by (simp add: room_def vector_max_size_def)
  then have u: "unat (of_nat (length s) :: size_t) = length s" by (rule unat_of_nat_exact)
  from append_raw_props [OF inv, of "of_nat (length s)" s] fits u
  show ?thesis by (simp add: append_string_def)
qed

lemma retrieve_room:
  assumes "buffer_inv b"
  shows "room b \<le> room (retrieve len b)"
  using assms retrieveAll_props(3) [OF assms]
  by (auto simp: retrieve_def room_def buffer_inv_def intro!: diff_le_mono2)

lemma retrieveAsString_props:
  assumes inv: "buffer_inv b" and len: "unat len \<le> length (content b)"
  shows "\<exists>b'. retrieveAsString len b = Inr (take (unat len) (content b), b') \<and>
    buffer_inv b' \<and> content b' = drop (unat len) (content b)"
proof -
  have "unat (readerIndex b) + unat len \<le> length (storage b)"
    using len inv buffer_nat(1,4) [OF inv] by (auto simp: buffer_inv_def)
  moreover have "take (unat len) (content b) = take (unat len) (drop (unat (readerIndex b)) (storage b))"
    using len buffer_nat(4) [OF inv] by (simp add: content_def)
  ultimately show ?thesis
    using retrieve_props [OF inv, of len]
    by (simp add: retrieveAsString_def read_range_def peek_def)
qed

lemma retrieveAllAsString_props:
  assumes inv: "buffer_inv b"
  shows "\<exists>b'. retrieveAllAsString b = Inr (content b, b') \<and> buffer_inv b' \<and> content b' = []"
  using retrieveAsString_props [OF inv, of "readableBytes b"] buffer_nat(4) [OF inv]
  by (auto simp: retrieveAllAsString_def)

lemma retrieveUntil_props:
  assumes inv: "buffer_inv b" and "peek b \<le> p" and "p \<le> beginwrite b"
  shows "\<exists>b'. retrieveUntil p b = Inr b' \<and> buffer_inv b' \<and>
    content b' = drop (unat p - unat (readerIndex b)) (content b)"
  using assms(2,3) retrieve_props [OF inv, of "p - peek b"]
  by (simp add: retrieveUntil_def peek_def unat_sub)

lemma new_buffer_props:
  assumes "unat n + 8 \<le> vector_max_size"
  shows "\<exists>b. new_buffer n = Inr b \<and> buffer_inv b \<and> content b = [] \<and> writableBytes b = n \<and>
    room b = vector_max_size - 8"
proof -
  have u: "unat (8 + n) = 8 + unat n"
    using assms by (subst unat_plus_exact) (auto simp: vector_max_size_def)
  have "vsize (replicate (unat (8 + n)) (CHR 0x00)) = 8 + n" by (simp add: vsize_def)
  with u assms show ?thesis
    by (simp add: new_buffer_def cacheHeapPrepend_def readableBytes_def writableBytes_def
        prependableBytes_def buffer_inv_def content_def room_def Let_def)
qed

lemma prepend_props:
  assumes inv: "buffer_inv b" and len: "unat len \<le> unat (readerIndex b)"
    and data: "length data = unat len"
  shows "\<exists>b'. prepend data len b = Inr b' \<and> buffer_inv b' \<and> content b' = data @ content b \<and>
    unat (readerIndex b') = unat (readerIndex b) - length data"
proof -
  let ?r = "unat (readerIndex b)" and ?w = "unat (writerIndex b)" and ?n = "length (storage b)"
  have bnds: "?r \<le> ?w" "?w \<le> ?n" "8 \<le> ?w" "?n \<le> vector_max_size"
    using inv by (auto simp: buffer_inv_def)
  have r': "unat (readerIndex b - len) = ?r - unat len" using len by (rule unat_minus_exact)
  let ?s = "take (?r - unat len) (storage b) @ data @ drop ?r (storage b)"
  let ?b = "b\<lparr>storage := ?s, readerIndex := readerIndex b - len\<rparr>"
  have cp: "copy_into (storage b) data (unat (readerIndex b - len)) = Inr ?s"
    using data len bnds by (simp add: copy_into_def r')
  have l: "length ?s = ?n" using bnds len data by auto
  have inv': "buffer_inv ?b" using bnds l r' by (auto simp: buffer_inv_def)
  have "content ?b = take (?w - (?r - unat len)) (data @ drop ?r (storage b))"
    using buffer_nat(1) [OF inv'] bnds len by (simp add: content_def r')
  also have "\<dots> = data @ content b"
    using data len bnds buffer_nat(1) [OF inv] by (simp add: content_def)
  finally show ?thesis
    using cp inv' len data r'
    by (simp add: prepend_def prependableBytes_def read_range_def word_le_nat_alt)
qed

text \<open>The capacity \<open>readFd\<close> offers to \<open>::readv\<close>: the free bytes, and \<open>extrabuf\<close> when they are few.\<close>

definition readv_capacity :: "buffer \<Rightarrow> nat" where
  "readv_capacity b = unat (writableBytes b) +
     (if writableBytes b < extrabuf_size then unat extrabuf_size else 0)"

lemma readFd_error:
  "readv f (iov_lengths b) k = (Inl e, k') \<Longrightarrow>
    readFd readv f sv b k = Inr (-1, e, b, k')"
  by (simp add: readFd_def)

lemma readFd_ok:
  assumes inv: "buffer_inv b"
    and rv: "readv f (iov_lengths b) k = (Inr data, k')"
    and cap: "length data \<le> readv_capacity b" and fits: "length data \<le> room b"
  shows "\<exists>b'. readFd readv f sv b k = Inr (int (length data), sv, b', k') \<and> buffer_inv b' \<and>
    content b' = content b @ data \<and> room b - length data \<le> room b'"
proof -
  let ?w = "unat (writerIndex b)" and ?free = "unat (writableBytes b)"
  have free: "?w + ?free = length (storage b)"
    using buffer_nat(3) [OF inv] inv by (simp add: buffer_inv_def)
  have "?w + length (take ?free data) \<le> length (storage b)" using free by simp
  note wb = write_back_props [OF inv this]
  show ?thesis
  proof (cases "length data \<le> ?free")
    case True
    then have t: "take ?free data = data" by simp
    define s where "s = take ?w (storage b) @ data @ drop (?w + length data) (storage b)"
    define b1 where "b1 = b\<lparr>storage := s, writerIndex := writerIndex b + of_nat (length data)\<rparr>"
    have cp: "copy_into (storage b) (take ?free data) (unat (beginwrite b)) = Inr s"
      using wb(1) by (simp add: beginwrite_def s_def t)
    have b1: "buffer_inv b1" "content b1 = content b @ data"
      "unat (writerIndex b1) = ?w + length data"
      using wb(2) [unfolded t, OF s_def refl] by (simp_all add: b1_def)
    have "room b - length data \<le> room b1" using b1(3) by (simp add: room_def)
    moreover have "readFd readv f sv b k = Inr (int (length data), sv, b1, k')"
      unfolding readFd_def Let_def rv using True
      by (simp only: sum.case prod.case cp bind_res.simps if_True b1_def)
    ultimately show ?thesis using b1(1,2) by blast
  next
    case False
    have lf: "length (take ?free data) = ?free" using False by simp
    define s where "s = take ?w (storage b) @ take ?free data @
      drop (?w + length (take ?free data)) (storage b)"
    define b1 where "b1 = b\<lparr>storage := s, writerIndex := vsize s\<rparr>"
    have small: "length (storage b) < 2 ^ 64" "length data < 2 ^ 64"
      using inv fits by (simp_all add: buffer_inv_def room_def vector_max_size_def)
    have len: "length s = length (storage b)" unfolding s_def using free lf by simp
    have vs: "vsize s = writerIndex b + of_nat (length (take ?free data))"
      unfolding vsize_def len lf free [symmetric] by simp
    have b1: "buffer_inv b1" "content b1 = content b @ take ?free data"
      "unat (writerIndex b1) = ?w + ?free"
      using wb(2) [OF s_def vs] lf by (simp_all add: b1_def)
    define ex where "ex = drop ?free data"
    have le: "length ex = length data - ?free" by (simp add: ex_def)
    have few: "writableBytes b < extrabuf_size" "length ex \<le> unat extrabuf_size"
      using False cap le by (auto simp: readv_capacity_def split: if_splits)
    have ul: "unat (of_nat (length data) - writableBytes b) = length ex"
      using False small le by (subst unat_minus_exact) (auto simp: unat_of_nat_exact)
    have rm: "room b1 = room b - ?free" using b1(3) by (simp add: room_def)
    have fit: "unat (of_nat (length data) - writableBytes b) \<le> room b1"
      using fits False rm le ul by simp
    from append_raw_props [OF b1(1) _ fit, of ex] ul
    obtain b2 where b2: "append_raw ex (of_nat (length data) - writableBytes b) b1 = Inr b2"
      "buffer_inv b2" "content b2 = content b1 @ ex" "room b1 - length ex \<le> room b2"
      by auto
    have cp: "copy_into (storage b) (take ?free data) (unat (beginwrite b)) = Inr s"
      using wb(1) by (simp add: beginwrite_def s_def)
    have te: "take (unat extrabuf_size) ex = ex" using few(2) by simp
    have "readFd readv f sv b k = bind_res (append_raw ex (of_nat (length data) - writableBytes b) b1)
        (\<lambda>b''. Inr (int (length data), sv, b'', k'))"
      unfolding readFd_def Let_def rv using False
      by (simp only: sum.case prod.case cp bind_res.simps if_False ex_def [symmetric] te b1_def)
    then have "readFd readv f sv b k = Inr (int (length data), sv, b2, k')"
      unfolding b2(1) bind_res.simps .
    moreover have "content b2 = content b @ data" using b2(3) b1(2) by (simp add: ex_def)
    moreover have "room b - length data \<le> room b2" using b2(4) rm False le by simp
    ultimately show ?thesis using b2(2) by blast
  qed
qed

text \<open>No request, however large, makes \<open>ensureWriteableBytes\<close> return with too little room.\<close>

lemma ensureWriteableBytes_sound:
  "ensureWriteableBytes len b = Inr b' \<Longrightarrow> len \<le> writableBytes b'"
  by (auto simp: ensureWriteableBytes_def res_simps)

subsection \<open>The buffer is a byte queue\<close>

interpretation buf: byte_queue buffer_inv content room append_string retrieve
proof unfold_locales
  fix q :: buffer and s :: bytes
  assume "buffer_inv q" and "length s \<le> room q"
  then show "\<exists>q'. append_string s q = Inr q' \<and> buffer_inv q' \<and> content q' = content q @ s \<and>
      room q - length s \<le> room q'"
    using append_string_ok by blast
qed (simp_all add: retrieve_props retrieve_room)

subsection \<open>Properties\<close>

text \<open>
  C10. A buffer of any initial size is a faithful queue: whatever mix of appends and consumptions
  is run on it (within \<open>max_size\<close>), no assertion of the class fails, no access leaves the vector,
  and the bytes consumed followed by the bytes left are exactly the bytes appended, in order.
\<close>

theorem buffer_fifo:
  assumes "unat n + 8 \<le> vector_max_size" and "length (ops_input ops) \<le> vector_max_size - 8"
  shows "\<exists>b0 out b. new_buffer n = Inr b0 \<and>
    queue_run append_string retrieve content ops b0 = Inr (out, b) \<and> buffer_inv b \<and>
    out @ content b = ops_input ops"
proof -
  from new_buffer_props [OF assms(1)] obtain b0 where b0: "new_buffer n = Inr b0" "buffer_inv b0"
    "content b0 = []" "room b0 = vector_max_size - 8" by blast
  from buf.run_fifo [OF b0(2), of ops] assms(2) b0 show ?thesis by auto
qed

theorem buffer_fifo_witness:
  "\<exists>b0 out b. new_buffer 4 = Inr b0 \<and>
    queue_run append_string retrieve content [Put ''GET / '', Skip 4, Put ''HTTP''] b0 = Inr (out, b) \<and>
    buffer_inv b \<and> out @ content b = ''GET / HTTP''"
  using buffer_fifo [of 4 "[Put ''GET / '', Skip 4, Put ''HTTP'']"]
  by (simp add: vector_max_size_def)

text \<open>
  \<open>readFd\<close> appends what the kernel delivered: for any result of \<open>::readv\<close> that respects the
  lengths of the vectors passed, it returns the number of bytes, keeps \<open>*savedErrno\<close>, and the content
  grows by exactly those bytes, whether they fit the vector or spill into \<open>extrabuf\<close>.
\<close>

theorem readFd_appends:
  assumes "buffer_inv b"
    and "readv f (iov_lengths b) k = (Inr data, k')"
    and "length data \<le> readv_capacity b" and "length data \<le> room b"
  shows "\<exists>b'. readFd readv f sv b k = Inr (int (length data), sv, b', k') \<and> buffer_inv b' \<and>
    content b' = content b @ data"
  using readFd_ok [where readv = readv, OF assms] by blast

theorem readFd_appends_witness:
  "\<exists>b'. readFd (\<lambda>f iov k. (Inr ''abcdef'', k)) 5 0
      \<lparr>storage = replicate 12 (CHR 0x00), readerIndex = 8, writerIndex = 8\<rparr> () =
      Inr (6, 0, b', ()) \<and> buffer_inv b' \<and> content b' = ''abcdef''"
proof -
  let ?b = "\<lparr>storage = replicate 12 (CHR 0x00), readerIndex = 8, writerIndex = 8\<rparr>"
  have w: "writableBytes ?b = 4" by (simp add: writableBytes_def vsize_def)
  have inv: "buffer_inv ?b" by (simp add: buffer_inv_def vector_max_size_def)
  have c: "content ?b = []" by (simp add: content_def readableBytes_def)
  from readFd_appends [OF inv, of "\<lambda>f iov k. (Inr ''abcdef'', k)" 5 "()" "''abcdef''" "()" 0] w c
  show ?thesis
    by (simp add: readv_capacity_def extrabuf_size_def room_def vector_max_size_def)
qed

text \<open>
  A header put in front with \<open>prepend\<close> is what \<open>retrieveAsString\<close> of its length reads back, and
  the content behind it is untouched: the prepend area works whenever the header fits in front of
  the reader.
\<close>

theorem prepend_retrieve_roundtrip:
  assumes "buffer_inv b" and "unat len \<le> unat (readerIndex b)" and "length data = unat len"
  shows "\<exists>b1 b2. prepend data len b = Inr b1 \<and> retrieveAsString len b1 = Inr (data, b2) \<and>
    buffer_inv b2 \<and> content b2 = content b"
proof -
  from prepend_props [OF assms] obtain b1 where b1: "prepend data len b = Inr b1" "buffer_inv b1"
    "content b1 = data @ content b" by blast
  from retrieveAsString_props [OF b1(2), of len] b1 assms(3) show ?thesis by auto
qed

theorem prepend_retrieve_roundtrip_witness:
  "\<exists>b1 b2. prepend ''hdr:'' 4 \<lparr>storage = ''........body'', readerIndex = 8, writerIndex = 12\<rparr> = Inr b1 \<and>
    retrieveAsString 4 b1 = Inr (''hdr:'', b2) \<and> buffer_inv b2 \<and> content b2 = ''body''"
  using prepend_retrieve_roundtrip
    [of "\<lparr>storage = ''........body'', readerIndex = 8, writerIndex = 12\<rparr>" 4 "''hdr:''"]
  by (simp add: buffer_inv_def vector_max_size_def content_def readableBytes_def)

text \<open>
  C34. Growth is bounded and lazy: asking for room never loses a byte, leaves at least the room
  asked for, and reallocates only when the unread bytes, the prepend area and the request together
  exceed the vector; then the new size is exactly writer index plus request.
\<close>

theorem ensureWriteableBytes_bounds:
  assumes "buffer_inv b" and "unat (writerIndex b) + unat len \<le> vector_max_size"
  shows "\<exists>b'. ensureWriteableBytes len b = Inr b' \<and> buffer_inv b' \<and> content b' = content b \<and>
    unat len \<le> unat (writableBytes b') \<and>
    (if length (content b) + unat len + 8 \<le> length (storage b)
     then length (storage b') = length (storage b)
     else length (storage b') \<in> {length (storage b), unat (writerIndex b) + unat len})"
proof -
  have "unat (writerIndex b) + unat len < 2 ^ 64" using assms(2) by (simp add: vector_max_size_def)
  from ensureWriteableBytes_cases [OF assms(1) this] assms(2) show ?thesis by auto
qed

theorem ensureWriteableBytes_bounds_witness:
  "\<exists>b'. ensureWriteableBytes 6 \<lparr>storage = replicate 32 (CHR 0x00), readerIndex = 28, writerIndex = 30\<rparr>
      = Inr b' \<and> buffer_inv b' \<and> length (storage b') = 32 \<and> 6 \<le> unat (writableBytes b')"
  using ensureWriteableBytes_bounds
    [of "\<lparr>storage = replicate 32 (CHR 0x00), readerIndex = 28, writerIndex = 30\<rparr>" 6]
  by (auto simp: buffer_inv_def vector_max_size_def content_def readableBytes_def)

text \<open>
  The limit of the class: a request so large that \<open>writerIndex_ + len\<close> wraps in 64 bits
  makes \<open>makeSpace\<close> shrink the vector below the writer index, and the final assertion, computed with
  the same wrap-around, does not notice.
\<close>

theorem ensureWriteableBytes_wraps:
  assumes "buffer_inv b" and "2 ^ 64 \<le> unat (writerIndex b) + unat len" and "unat len < 2 ^ 64 - 8"
  shows "\<exists>b'. ensureWriteableBytes len b = Inr b' \<and> \<not> buffer_inv b' \<and>
    length (storage b') < unat (writerIndex b')"
proof -
  let ?r = "unat (readerIndex b)" and ?w = "unat (writerIndex b)" and ?n = "length (storage b)"
  let ?l = "unat len"
  have bnds: "?r \<le> ?w" "?w \<le> ?n" "?n < 2 ^ 63" "?n \<le> vector_max_size"
    using assms(1) by (auto simp: buffer_inv_def vector_max_size_def)
  note nats = buffer_nat [OF assms(1)]
  have s1: "unat (writableBytes b + prependableBytes b) = (?n - ?w) + ?r"
    using bnds nats by (subst unat_plus_exact) auto
  have s2: "unat (len + cacheHeapPrepend) = ?l + 8"
    using assms(3) by (subst unat_plus_exact) (auto simp: cacheHeapPrepend_def)
  have s3: "unat (writerIndex b + len) = ?w + ?l - 2 ^ 64"
    using assms(2) unat_size_t_lt [of len] bnds
    by (simp add: unat_word_ariths mod_if)
  have lt: "?w + ?l - 2 ^ 64 < ?w" using unat_size_t_lt [of len] assms(2) by linarith
  define s where "s = take (?w + ?l - 2 ^ 64) (storage b)"
  have ls: "length s = ?w + ?l - 2 ^ 64" using lt bnds by (simp add: s_def)
  have rs: "vector_resize (writerIndex b + len) (storage b) = Inr s"
    using lt bnds by (simp add: vector_resize_def s3 s_def)
  have big: "writableBytes b < len"
    using nats(3) bnds assms(2) by (simp add: word_less_nat_alt)
  have grow: "writableBytes b + prependableBytes b < len + cacheHeapPrepend"
    using s1 s2 bnds assms(2) by (simp add: word_less_nat_alt)
  have "vsize s = writerIndex b + len" unfolding vsize_def ls s3 [symmetric] by simp
  then have "writableBytes (b\<lparr>storage := s\<rparr>) = len" by (simp add: writableBytes_def)
  then have "ensureWriteableBytes len b = Inr (b\<lparr>storage := s\<rparr>)"
    using big grow rs by (simp add: ensureWriteableBytes_def makeSpace_def)
  with ls lt show ?thesis by (auto simp: buffer_inv_def)
qed

theorem ensureWriteableBytes_wraps_witness:
  "\<exists>b'. ensureWriteableBytes (- 50) \<lparr>storage = replicate 100 (CHR 0x00), readerIndex = 8,
      writerIndex = 100\<rparr> = Inr b' \<and> \<not> buffer_inv b' \<and> length (storage b') < unat (writerIndex b')"
  by (rule ensureWriteableBytes_wraps)
    (simp_all add: buffer_inv_def vector_max_size_def)

end
