(* ===== verification/Text.thy ===== *)
theory Text
  imports Prelude
begin

text \<open>
  Text as \<open>std::string\<close> handles it, a list of 8-bit characters: decimal numbers and their
  zero-padded form.
\<close>

subsection \<open>Decimal text\<close>

definition digit_char :: "nat \<Rightarrow> char" where "digit_char d = char_of (48 + d)"

definition char_digit :: "char \<Rightarrow> nat" where "char_digit c = of_char c - 48"

definition is_digit :: "char \<Rightarrow> bool" where
  "is_digit c \<longleftrightarrow> 48 \<le> (of_char c :: nat) \<and> (of_char c :: nat) \<le> 57"

text \<open>\<open>std::to_string\<close> on an unsigned value, and its inverse on decimal digits.\<close>

fun show_nat :: "nat \<Rightarrow> string" where
  "show_nat n = (if n < 10 then [digit_char n] else show_nat (n div 10) @ [digit_char (n mod 10)])"

declare show_nat.simps [simp del]

definition dec_value :: "string \<Rightarrow> nat" where
  "dec_value s = foldl (\<lambda>acc c. 10 * acc + char_digit c) 0 s"

lemma of_char_digit_char: "d < 10 \<Longrightarrow> (of_char (digit_char d) :: nat) = 48 + d"
  unfolding digit_char_def of_char_of by simp

lemma char_digit_digit_char: "d < 10 \<Longrightarrow> char_digit (digit_char d) = d"
  by (simp add: char_digit_def of_char_digit_char)

lemma is_digit_digit_char: "d < 10 \<Longrightarrow> is_digit (digit_char d)"
  by (simp add: is_digit_def of_char_digit_char)

lemma show_nat_digits: "c \<in> set (show_nat n) \<Longrightarrow> is_digit c"
proof (induction n rule: show_nat.induct)
  case (1 n)
  show ?case
  proof (cases "n < 10")
    case True
    with "1.prems" show ?thesis by (simp add: show_nat.simps [of n] is_digit_digit_char)
  next
    case False
    with "1.prems" "1.IH" show ?thesis
      by (auto simp: show_nat.simps [of n] intro: is_digit_digit_char)
  qed
qed

lemma show_nat_nonempty [simp]: "show_nat n \<noteq> []"
  by (subst show_nat.simps) simp

lemma dec_value_show_nat [simp]: "dec_value (show_nat n) = n"
proof (induction n rule: show_nat.induct)
  case (1 n)
  show ?case
  proof (cases "n < 10")
    case True
    then show ?thesis by (simp add: show_nat.simps [of n] dec_value_def char_digit_digit_char)
  next
    case False
    with 1 have "dec_value (show_nat (n div 10)) = n div 10" by simp
    with False show ?thesis
      by (simp add: show_nat.simps [of n] dec_value_def char_digit_digit_char)
  qed
qed

lemma show_nat_inj: "show_nat m = show_nat n \<Longrightarrow> m = n"
  by (metis dec_value_show_nat)

lemma sep_not_digit: "\<not> is_digit (CHR ''.'')" "\<not> is_digit (CHR '':'')"
  by (simp_all add: is_digit_def)

text \<open>Text split at the first separator: the part before and the part after are determined.\<close>

lemma sep_split_inj:
  assumes "xs @ c # ys = xs' @ c # ys'" and "c \<notin> set xs" and "c \<notin> set xs'"
  shows "xs = xs' \<and> ys = ys'"
  using assms
proof (induction xs arbitrary: xs')
  case Nil
  then show ?case by (cases xs') auto
next
  case (Cons x xs)
  then show ?case by (cases xs') auto
qed

lemma show_nat_sep:
  assumes "show_nat m @ c # ys = show_nat n @ c # ys'" and "\<not> is_digit c"
  shows "m = n \<and> ys = ys'"
proof -
  have "c \<notin> set (show_nat k)" for k using assms(2) show_nat_digits by blast
  with sep_split_inj [OF assms(1)] show_nat_inj show ?thesis by blast
qed

subsection \<open>Zero-padded numbers\<close>

text \<open>\<open>printf("%0wd")\<close>: padded with zeros to the width, the sign counting towards it.\<close>

definition pad_zeros :: "nat \<Rightarrow> string \<Rightarrow> string" where
  "pad_zeros w s = replicate (w - length s) (CHR ''0'') @ s"

definition show_int :: "int \<Rightarrow> string" where
  "show_int i = (if i < 0 then CHR ''-'' # show_nat (nat (- i)) else show_nat (nat i))"

definition show_int_padded :: "nat \<Rightarrow> int \<Rightarrow> string" where
  "show_int_padded w i =
     (if i < 0 then CHR ''-'' # pad_zeros (w - 1) (show_nat (nat (- i)))
      else pad_zeros w (show_nat (nat i)))"

lemma dec_value_append:
  "dec_value (s @ t) = dec_value s * 10 ^ length t + dec_value t"
proof -
  have "foldl (\<lambda>acc c. 10 * acc + char_digit c) a t = a * 10 ^ length t +
      foldl (\<lambda>acc c. 10 * acc + char_digit c) 0 t" for a
  proof (induction t arbitrary: a)
    case Nil
    then show ?case by simp
  next
    case (Cons c t)
    show ?case
      using Cons.IH [of "10 * a + char_digit c"] Cons.IH [of "char_digit c"]
      by (simp add: algebra_simps)
  qed
  from this [of "dec_value s"] show ?thesis by (simp only: dec_value_def foldl_append)
qed

lemma dec_value_zeros [simp]: "dec_value (replicate k (CHR ''0'')) = 0"
  by (induction k) (simp_all add: dec_value_def char_digit_def)

lemma dec_value_pad_zeros [simp]: "dec_value (pad_zeros w s) = dec_value s"
  by (simp add: pad_zeros_def dec_value_append)

lemma length_show_nat: "n < 10 ^ k \<Longrightarrow> 0 < k \<Longrightarrow> length (show_nat n) \<le> k"
proof (induction n arbitrary: k rule: show_nat.induct)
  case (1 n)
  show ?case
  proof (cases "n < 10")
    case True
    with "1.prems" show ?thesis by (simp add: show_nat.simps [of n])
  next
    case False
    obtain i where i: "k = Suc i" using "1.prems"(2) by (cases k) auto
    have "0 < i" using False "1.prems"(1) i by (cases i) auto
    moreover have "n div 10 < 10 ^ i"
      using "1.prems"(1) i by (intro less_mult_imp_div_less) (simp add: mult.commute)
    ultimately have "length (show_nat (n div 10)) \<le> i" using "1.IH" [OF False] by blast
    with False i show ?thesis by (subst show_nat.simps) simp
  qed
qed

lemma length_pad_zeros: "length s \<le> w \<Longrightarrow> length (pad_zeros w s) = w"
  by (simp add: pad_zeros_def)

lemma length_show_nat_gt: "n < 10 ^ length (show_nat n)"
proof (induction n rule: show_nat.induct)
  case (1 n)
  show ?case
  proof (cases "n < 10")
    case True
    then show ?thesis by (simp add: show_nat.simps [of n])
  next
    case False
    with 1 have "n div 10 + 1 \<le> 10 ^ length (show_nat (n div 10))" by simp
    then have "10 * (n div 10 + 1) \<le> 10 * 10 ^ length (show_nat (n div 10))" by (rule mult_le_mono2)
    moreover have "n < 10 * (n div 10 + 1)" by simp
    ultimately show ?thesis using False by (simp add: show_nat.simps [of n])
  qed
qed

lemma length_show_nat_exact: "10 ^ k \<le> n \<Longrightarrow> n < 10 ^ Suc k \<Longrightarrow> length (show_nat n) = Suc k"
proof -
  assume n: "10 ^ k \<le> n" "n < 10 ^ Suc k"
  from n(1) length_show_nat_gt [of n] have "(10 :: nat) ^ k < 10 ^ length (show_nat n)" by (rule le_less_trans)
  then have "k < length (show_nat n)" by (simp add: power_strict_increasing_iff)
  with length_show_nat [OF n(2)] show ?thesis by simp
qed

text \<open>\<open>printf("%wd")\<close>: padded with spaces.\<close>

definition show_int_spaced :: "nat \<Rightarrow> int \<Rightarrow> string" where
  "show_int_spaced w i = replicate (w - length (show_int i)) (CHR '' '') @ show_int i"

lemma show_int_padded_field:
  assumes "0 \<le> i" and "i < 10 ^ w" and "0 < w"
  shows "length (show_int_padded w i) = w" and "int (dec_value (show_int_padded w i)) = i"
proof -
  have "nat i < 10 ^ w" using assms by (simp add: nat_less_iff)
  then have "length (show_nat (nat i)) \<le> w" using assms(3) by (rule length_show_nat)
  then show "length (show_int_padded w i) = w" "int (dec_value (show_int_padded w i)) = i"
    using assms by (simp_all add: show_int_padded_def length_pad_zeros)
qed

lemma show_int_spaced_full:
  assumes "10 ^ k \<le> i" and "i < 10 ^ Suc k"
  shows "length (show_int_spaced (Suc k) i) = Suc k" and "int (dec_value (show_int_spaced (Suc k) i)) = i"
proof -
  have "0 \<le> i" using assms(1) by (meson order.trans zero_le_numeral zero_le_power)
  moreover from this have "10 ^ k \<le> nat i" "nat i < 10 ^ Suc k" using assms by (simp_all add: le_nat_iff nat_less_iff)
  then have "length (show_nat (nat i)) = Suc k" by (rule length_show_nat_exact)
  ultimately show "length (show_int_spaced (Suc k) i) = Suc k" "int (dec_value (show_int_spaced (Suc k) i)) = i"
    by (simp_all add: show_int_spaced_def show_int_def)
qed

end
