(* ===== verification/InetAddr.thy ===== *)
theory InetAddr
  imports Text "HOL-Library.Char_ord" "HOL-Library.List_Lexorder"
begin

text \<open>
  Socket addresses (src/net/inet_address.h, src/net/inet_address.cpp): the IPv4 address as the four
  bytes of \<open>sin_addr\<close> in memory order and the port as stored in \<open>sin_port\<close>, that is in network byte
  order on a little-endian host. \<open>inet_addr\<close>, which reads a dotted address, is a parameter.

  Addresses are compared through the text \<open>toIpPort\<close> produces. The lemmas show that this text is
  injective, so the textual comparison is equality of addresses and the textual order is a total
  order, which makes \<open>InetAddress\<close> usable as a key of \<open>std::set\<close>.
\<close>

unbundle bit_operations_syntax

subsection \<open>Byte order\<close>

definition htons :: "uint16 \<Rightarrow> uint16" where
  "htons w = push_bit 8 w OR drop_bit 8 w"

definition ntohs :: "uint16 \<Rightarrow> uint16" where
  "ntohs w = push_bit 8 w OR drop_bit 8 w"

lemma ntohs_htons [simp]: "ntohs (htons w) = w"
  unfolding ntohs_def htons_def
  by (rule bit_eqI) (auto simp: bit_simps)

lemma htons_ntohs [simp]: "htons (ntohs w) = w"
  using ntohs_htons by (simp add: ntohs_def htons_def)

lemma ntohs_inj: "ntohs v = ntohs w \<Longrightarrow> v = w"
  by (metis htons_ntohs)

subsection \<open>Addresses\<close>

type_synonym ipv4 = "8 word \<times> 8 word \<times> 8 word \<times> 8 word"

datatype inet_address = InetAddress (sin_addr: ipv4) (sin_port: uint16)

definition new_InetAddress :: "(string \<Rightarrow> ipv4) \<Rightarrow> string \<Rightarrow> uint16 \<Rightarrow> inet_address" where
  "new_InetAddress inet_addr ip port = InetAddress (inet_addr ip) (htons port)"

text \<open>\<open>inet_ntop\<close> for \<open>AF_INET\<close>: the four bytes in decimal, with dots.\<close>

fun inet_ntop :: "ipv4 \<Rightarrow> string" where
  "inet_ntop (a, b, c, d) = show_nat (unat a) @ ''.'' @ show_nat (unat b) @ ''.'' @
     show_nat (unat c) @ ''.'' @ show_nat (unat d)"

definition toIp :: "inet_address \<Rightarrow> string" where
  "toIp a = inet_ntop (sin_addr a)"

definition toPort :: "inet_address \<Rightarrow> uint16" where
  "toPort a = ntohs (sin_port a)"

definition toIpPort :: "inet_address \<Rightarrow> string" where
  "toIpPort a = (let port = ntohs (sin_port a) in
     inet_ntop (sin_addr a) @ '':'' @ show_nat (unat port))"

definition addr_eq :: "inet_address \<Rightarrow> inet_address \<Rightarrow> bool" where
  "addr_eq a b \<longleftrightarrow> toIpPort a = toIpPort b"

definition addr_less :: "inet_address \<Rightarrow> inet_address \<Rightarrow> bool" where
  "addr_less a b \<longleftrightarrow> toIpPort a < toIpPort b"

lemma toIpPort_inj: "toIpPort a = toIpPort b \<Longrightarrow> a = b"
proof -
  assume eq: "toIpPort a = toIpPort b"
  obtain a1 a2 a3 a4 p where a: "a = InetAddress (a1, a2, a3, a4) p"
    by (metis inet_address.exhaust prod_cases4)
  obtain b1 b2 b3 b4 q where b: "b = InetAddress (b1, b2, b3, b4) q"
    by (metis inet_address.exhaust prod_cases4)
  note sep = show_nat_sep [OF _ sep_not_digit(1)] show_nat_sep [OF _ sep_not_digit(2)]
  have "unat a1 = unat b1 \<and> unat a2 = unat b2 \<and> unat a3 = unat b3 \<and> unat a4 = unat b4 \<and>
      show_nat (unat (ntohs p)) = show_nat (unat (ntohs q))"
    using eq by (auto simp: a b toIpPort_def dest!: sep)
  then show "a = b" by (metis a b ntohs_inj show_nat_inj word_unat_eq_iff)
qed

lemma addr_eq_iff [simp]: "addr_eq a b \<longleftrightarrow> a = b"
  by (auto simp: addr_eq_def dest: toIpPort_inj)

text \<open>The textual order makes addresses a linear order, so the library's sorted lists apply.\<close>

instantiation inet_address :: linorder
begin

definition less_eq_inet_address :: "inet_address \<Rightarrow> inet_address \<Rightarrow> bool" where
  "less_eq_inet_address a b \<longleftrightarrow> toIpPort a \<le> toIpPort b"

definition less_inet_address :: "inet_address \<Rightarrow> inet_address \<Rightarrow> bool" where
  "less_inet_address a b \<longleftrightarrow> addr_less a b"

instance
  by standard
    (auto simp: less_eq_inet_address_def less_inet_address_def addr_less_def dest: toIpPort_inj)

end

lemma less_addr_iff: "a < b \<longleftrightarrow> toIpPort a < toIpPort b" for a b :: inet_address
  by (simp add: less_inet_address_def addr_less_def)

subsection \<open>Properties\<close>


text \<open>
  What the constructor stores is what the accessors read: the port survives the change to
  network byte order and back, and the text is the dotted address, a colon and the decimal port.
\<close>

theorem inet_address_roundtrip:
  "toPort (new_InetAddress inet_addr ip port) = port \<and>
   toIpPort (new_InetAddress inet_addr ip port) =
     toIp (new_InetAddress inet_addr ip port) @ '':'' @ show_nat (unat port) \<and>
   dec_value (drop (Suc (length (toIp (new_InetAddress inet_addr ip port))))
     (toIpPort (new_InetAddress inet_addr ip port))) = unat port"
  by (simp add: toPort_def toIpPort_def toIp_def new_InetAddress_def)

end
