(* ===== verification/LoadBalancer.thy ===== *)
theory LoadBalancer
  imports Interfaces InetAddr
begin

text \<open>
  The round-robin load balancer (src/app/load_balancer.h, src/app/load_balancer.cpp): the set of
  configured backends, the vector of those the health checker last saw up, and the index of the
  next one to hand out. Each operation holds the mutex throughout, so it is one atomic step.

  The lemmas show that no sequence of operations indexes the vector out of bounds, that the balancer
  refines the abstract specification "configured set and healthy set", and that it rotates fairly.
\<close>

subsection \<open>State and operations\<close>

text \<open>\<open>std::set<InetAddress>\<close> is its sorted, duplicate-free traversal.\<close>

record load_balancer =
  all_backends_set :: "inet_address list"
  healthy_backends :: "inet_address list"
  next_index :: nat

definition new_LoadBalancer :: load_balancer where
  "new_LoadBalancer = \<lparr>all_backends_set = [], healthy_backends = [], next_index = 0\<rparr>"

definition addBackend :: "inet_address \<Rightarrow> load_balancer \<Rightarrow> load_balancer" where
  "addBackend addr lb = lb\<lparr>all_backends_set := insort_insert addr (all_backends_set lb)\<rparr>"

definition removeBackend :: "inet_address \<Rightarrow> load_balancer \<Rightarrow> load_balancer" where
  "removeBackend addr lb =
     (let healthy = filter (\<lambda>x. \<not> addr_eq x addr) (healthy_backends lb);
          lb' = lb\<lparr>all_backends_set := remove1 addr (all_backends_set lb),
                   healthy_backends := healthy\<rparr>
      in if length healthy \<le> next_index lb' \<and> healthy \<noteq> [] then lb'\<lparr>next_index := 0\<rparr> else lb')"

definition getNextBackend :: "load_balancer \<Rightarrow> (inet_address option \<times> load_balancer) res" where
  "getNextBackend lb =
     (if healthy_backends lb = [] then Inr (None, lb)
      else if next_index lb < length (healthy_backends lb)
      then Inr (Some (healthy_backends lb ! next_index lb),
                lb\<lparr>next_index := (next_index lb + 1) mod length (healthy_backends lb)\<rparr>)
      else Inl OutOfBounds)"

text \<open>\<open>erase(it)\<close> removes the first element that \<open>std::find\<close> found.\<close>

definition updateHealthStatus :: "inet_address \<Rightarrow> bool \<Rightarrow> load_balancer \<Rightarrow> load_balancer" where
  "updateHealthStatus addr healthy lb =
     (let found = (\<exists>x\<in>set (healthy_backends lb). addr_eq x addr) in
      if healthy then
        (if \<not> found then lb\<lparr>healthy_backends := healthy_backends lb @ [addr]\<rparr> else lb)
      else
        (if found then
           (let lb' = lb\<lparr>healthy_backends := remove1 addr (healthy_backends lb)\<rparr> in
            if length (healthy_backends lb') \<le> next_index lb' then lb'\<lparr>next_index := 0\<rparr> else lb')
         else lb))"

definition getAllBackends :: "load_balancer \<Rightarrow> inet_address list" where
  "getAllBackends lb = all_backends_set lb"

subsection \<open>Invariant\<close>

definition lb_inv :: "load_balancer \<Rightarrow> bool" where
  "lb_inv lb \<longleftrightarrow> sorted (all_backends_set lb) \<and> distinct (all_backends_set lb) \<and>
     distinct (healthy_backends lb) \<and>
     (if healthy_backends lb = [] then next_index lb = 0
      else next_index lb < length (healthy_backends lb))"

lemma lb_inv_new [inv_intros]: "lb_inv new_LoadBalancer"
  by (simp add: lb_inv_def new_LoadBalancer_def)

lemma lb_inv_add [inv_intros]: "lb_inv lb \<Longrightarrow> lb_inv (addBackend a lb)"
  by (auto simp: lb_inv_def addBackend_def sorted_insort_insert distinct_insort_insert)

text \<open>
  \<open>removeBackend\<close> leaves the index alone when the vector becomes empty. That is right only because a
  vector of one distinct element has index 0.
\<close>

lemma filter_neq_Nil:
  assumes "distinct xs" and "filter (\<lambda>x. x \<noteq> a) xs = []"
  shows "length xs \<le> 1"
proof -
  have "set xs \<subseteq> {a}" using assms(2) by (auto simp: filter_empty_conv)
  then have "card (set xs) \<le> 1" using card_mono [of "{a}" "set xs"] by simp
  then show ?thesis using assms(1) by (simp add: distinct_card)
qed

lemma lb_inv_remove [inv_intros]: "lb_inv lb \<Longrightarrow> lb_inv (removeBackend a lb)"
  unfolding lb_inv_def removeBackend_def Let_def
  by (auto simp: sorted_remove1 dest!: filter_neq_Nil split: if_splits)

lemma lb_inv_update [inv_intros]: "lb_inv lb \<Longrightarrow> lb_inv (updateHealthStatus a h lb)"
  unfolding lb_inv_def updateHealthStatus_def Let_def
  by (auto split: if_splits)

lemma lb_inv_getNext [inv_intros]:
  "lb_inv lb \<Longrightarrow> getNextBackend lb = Inr (r, lb') \<Longrightarrow> lb_inv lb'"
  by (auto simp: lb_inv_def getNextBackend_def split: if_splits)

lemma getNext_no_fault:
  assumes "lb_inv lb"
  shows "\<exists>r lb'. getNextBackend lb = Inr (r, lb')"
  using assms by (auto simp: lb_inv_def getNextBackend_def)

subsection \<open>Histories\<close>

text \<open>
  The balancer is shared by the handlers of every connection and the health checker; the mutex makes
  any concurrent use a sequence of these steps. \<open>lb_run\<close> collects what the handlers are given.
\<close>

datatype lb_op =
    AddBackend inet_address
  | RemoveBackend inet_address
  | UpdateHealth inet_address bool
  | GetNext

fun lb_step :: "lb_op \<Rightarrow> load_balancer \<Rightarrow> (inet_address option list \<times> load_balancer) res" where
  "lb_step (AddBackend a) lb = Inr ([], addBackend a lb)"
| "lb_step (RemoveBackend a) lb = Inr ([], removeBackend a lb)"
| "lb_step (UpdateHealth a h) lb = Inr ([], updateHealthStatus a h lb)"
| "lb_step GetNext lb = bind_res (getNextBackend lb) (\<lambda>(r, lb'). Inr ([r], lb'))"

fun lb_run :: "lb_op list \<Rightarrow> load_balancer \<Rightarrow> (inet_address option list \<times> load_balancer) res" where
  "lb_run [] lb = Inr ([], lb)"
| "lb_run (x # xs) lb = bind_res (lb_step x lb) (\<lambda>(out, lb').
     bind_res (lb_run xs lb') (\<lambda>(outs, lb''). Inr (out @ outs, lb'')))"

text \<open>
  The abstract specification: two sets. A backend is configured between its addition and its
  removal; it is healthy from a report that it is up until one that it is down or its removal.
\<close>

fun spec_step :: "lb_op \<Rightarrow> inet_address set \<times> inet_address set \<Rightarrow> inet_address set \<times> inet_address set" where
  "spec_step (AddBackend a) (conf, up) = (insert a conf, up)"
| "spec_step (RemoveBackend a) (conf, up) = (conf - {a}, up - {a})"
| "spec_step (UpdateHealth a h) (conf, up) = (conf, if h then insert a up else up - {a})"
| "spec_step GetNext s = s"

definition lb_abs :: "load_balancer \<Rightarrow> inet_address set \<times> inet_address set" where
  "lb_abs lb = (set (all_backends_set lb), set (healthy_backends lb))"

lemma lb_step_refines:
  assumes "lb_inv lb"
  shows "\<exists>out lb'. lb_step x lb = Inr (out, lb') \<and> lb_inv lb' \<and> lb_abs lb' = spec_step x (lb_abs lb) \<and>
    (x = GetNext \<longrightarrow> (\<exists>r. out = [r] \<and> (r = None \<longleftrightarrow> healthy_backends lb = []) \<and>
       (\<forall>a. r = Some a \<longrightarrow> a \<in> set (healthy_backends lb))))"
proof (cases x)
  case (AddBackend a)
  then show ?thesis
    by (simp add: inv_intros assms) (simp add: lb_abs_def addBackend_def set_insort_insert)
next
  case (RemoveBackend a)
  have "distinct (all_backends_set lb)" using assms by (simp add: lb_inv_def)
  with RemoveBackend show ?thesis
    by (simp add: inv_intros assms) (auto simp add: lb_abs_def removeBackend_def Let_def)
next
  case (UpdateHealth a h)
  have "distinct (healthy_backends lb)" using assms by (simp add: lb_inv_def)
  with UpdateHealth show ?thesis
    by (simp add: inv_intros assms) (auto simp add: lb_abs_def updateHealthStatus_def Let_def)
next
  case GetNext
  from getNext_no_fault [OF assms] obtain r lb' where g: "getNextBackend lb = Inr (r, lb')" by blast
  then have "lb_inv lb'" using assms lb_inv_getNext by blast
  moreover have "lb_abs lb' = lb_abs lb" "r = None \<longleftrightarrow> healthy_backends lb = []"
    "\<forall>a. r = Some a \<longrightarrow> a \<in> set (healthy_backends lb)"
    using g by (auto simp: lb_abs_def getNextBackend_def split: if_splits)
  ultimately show ?thesis using g GetNext by simp
qed

lemma lb_run_refines:
  "lb_inv lb \<Longrightarrow> \<exists>outs lb'. lb_run xs lb = Inr (outs, lb') \<and> lb_inv lb' \<and>
    lb_abs lb' = fold spec_step xs (lb_abs lb)"
proof (induction xs arbitrary: lb)
  case Nil
  then show ?case by simp
next
  case (Cons x xs)
  from lb_step_refines [OF Cons.prems, of x] obtain out lb1 where
    1: "lb_step x lb = Inr (out, lb1)" "lb_inv lb1" "lb_abs lb1 = spec_step x (lb_abs lb)" by blast
  from Cons.IH [OF 1(2)] 1 show ?case by auto
qed

subsection \<open>The balancer is a round robin\<close>

definition lb_pick :: "load_balancer \<Rightarrow> (inet_address \<times> load_balancer) option" where
  "lb_pick lb = (case getNextBackend lb of Inr (Some a, lb') \<Rightarrow> Some (a, lb') | _ \<Rightarrow> None)"

interpretation lbrr: round_robin lb_inv healthy_backends next_index lb_pick
proof unfold_locales
  fix lb
  assume inv: "lb_inv lb" and ne: "healthy_backends lb \<noteq> []"
  then have lt: "next_index lb < length (healthy_backends lb)" by (simp add: lb_inv_def)
  with ne have "lb_pick lb = Some (healthy_backends lb ! (next_index lb mod length (healthy_backends lb)),
      lb\<lparr>next_index := (next_index lb + 1) mod length (healthy_backends lb)\<rparr>)"
    by (simp add: lb_pick_def getNextBackend_def)
  moreover have "lb_inv (lb\<lparr>next_index := (next_index lb + 1) mod length (healthy_backends lb)\<rparr>)"
    using inv ne by (simp add: lb_inv_def)
  ultimately show "\<exists>s'. lb_pick lb =
        Some (healthy_backends lb ! (next_index lb mod length (healthy_backends lb)), s') \<and>
      lb_inv s' \<and> healthy_backends s' = healthy_backends lb \<and>
      next_index s' mod length (healthy_backends lb) =
        Suc (next_index lb) mod length (healthy_backends lb)" by simp
qed

subsection \<open>Properties\<close>

text \<open>
  C30. The balancer refines its specification on every history: starting empty, no sequence of
  operations faults (in particular \<open>healthy_backends_[next_index_]\<close> is never out of bounds), the
  configured and healthy sets are those of the specification, and a final \<open>getNextBackend\<close> answers
  "none" exactly when the specification has no healthy backend, and otherwise a healthy one.
\<close>

theorem load_balancer_refines:
  "\<exists>outs lb r lb'. lb_run xs new_LoadBalancer = Inr (outs, lb) \<and>
     (set (getAllBackends lb), set (healthy_backends lb)) = fold spec_step xs ({}, {}) \<and>
     getNextBackend lb = Inr (r, lb') \<and>
     (case r of None \<Rightarrow> snd (fold spec_step xs ({}, {})) = {}
      | Some a \<Rightarrow> a \<in> snd (fold spec_step xs ({}, {})))"
proof -
  have "lb_abs new_LoadBalancer = ({}, {})" by (simp add: lb_abs_def new_LoadBalancer_def)
  with lb_run_refines [OF lb_inv_new, of xs] obtain outs lb where
    run: "lb_run xs new_LoadBalancer = Inr (outs, lb)" "lb_inv lb"
      "lb_abs lb = fold spec_step xs ({}, {})" by auto
  from lb_step_refines [OF run(2), of GetNext] obtain r lb' where
    g: "getNextBackend lb = Inr (r, lb')" "r = None \<longleftrightarrow> healthy_backends lb = []"
      "\<forall>a. r = Some a \<longrightarrow> a \<in> set (healthy_backends lb)"
    by (auto simp: res_simps)
  have "snd (fold spec_step xs ({}, {})) = set (healthy_backends lb)"
    using run(3) [symmetric] by (simp add: lb_abs_def)
  with run g show ?thesis by (auto simp: lb_abs_def getAllBackends_def split: option.splits)
qed

text \<open>
  C31. Fair rotation: from any state a history can reach, as many requests as there are healthy
  backends serve each of them exactly once, in the vector's order from the cursor on, and bring the
  cursor back.
\<close>

theorem load_balancer_fair:
  assumes "lb_run xs new_LoadBalancer = Inr (outs, lb)" and "healthy_backends lb \<noteq> []"
  shows "\<exists>lb'. pick_many lb_pick (length (healthy_backends lb)) lb =
      Some (rotate (next_index lb) (healthy_backends lb), lb') \<and>
    healthy_backends lb' = healthy_backends lb \<and>
    next_index lb' mod length (healthy_backends lb) = next_index lb mod length (healthy_backends lb) \<and>
    distinct (healthy_backends lb)"
proof -
  from lb_run_refines [OF lb_inv_new, of xs] assms(1) have "lb_inv lb" by auto
  with lbrr.full_round [OF this assms(2)] show ?thesis by (auto simp: lb_inv_def)
qed

theorem load_balancer_fair_witness:
  "\<exists>lb'. pick_many lb_pick 2
      \<lparr>all_backends_set = [],
       healthy_backends = [InetAddress (10, 0, 0, 1) 80, InetAddress (10, 0, 0, 2) 80],
       next_index = 1\<rparr> =
      Some ([InetAddress (10, 0, 0, 2) 80, InetAddress (10, 0, 0, 1) 80], lb')"
proof -
  let ?xs = "[UpdateHealth (InetAddress (10, 0, 0, 1) 80) True,
    UpdateHealth (InetAddress (10, 0, 0, 2) 80) True, GetNext]"
  let ?lb = "\<lparr>all_backends_set = [],
       healthy_backends = [InetAddress (10, 0, 0, 1) 80, InetAddress (10, 0, 0, 2) 80],
       next_index = 1\<rparr>"
  have "lb_run ?xs new_LoadBalancer = Inr ([Some (InetAddress (10, 0, 0, 1) 80)], ?lb)"
    by (simp add: new_LoadBalancer_def updateHealthStatus_def getNextBackend_def Let_def)
  from load_balancer_fair [OF this] show ?thesis by (auto simp: numeral_2_eq_2)
qed

text \<open>
  A report that arrives late revives a removed backend: \<open>updateHealthStatus\<close> does not consult the
  configured set, so after \<open>removeBackend\<close> an "up" from a probe still in flight puts the address back
  among the healthy ones, outside the set the health checker probes, and from then on the rotation
  hands it out.
\<close>

theorem removed_backend_revived:
  assumes "lb_inv lb"
  shows "\<exists>lb' r lb''. lb' = updateHealthStatus a True (removeBackend a lb) \<and>
    a \<notin> set (getAllBackends lb') \<and> a \<in> set (healthy_backends lb') \<and>
    pick_many lb_pick (length (healthy_backends lb')) lb' = Some (r, lb'') \<and> a \<in> set r"
proof -
  let ?lb = "updateHealthStatus a True (removeBackend a lb)"
  have inv: "lb_inv ?lb" using assms by (simp add: inv_intros)
  have "lb_abs ?lb = spec_step (UpdateHealth a True) (spec_step (RemoveBackend a) (lb_abs lb))"
    using lb_step_refines [OF assms, of "RemoveBackend a"]
      lb_step_refines [of "removeBackend a lb" "UpdateHealth a True"] assms
    by (auto simp: inv_intros)
  then have "a \<notin> set (all_backends_set ?lb)" "a \<in> set (healthy_backends ?lb)"
    by (auto simp: lb_abs_def)
  moreover have "healthy_backends ?lb \<noteq> []" using calculation by auto
  ultimately show ?thesis
    using lbrr.full_round [OF inv] by (auto simp: getAllBackends_def)
qed

theorem removed_backend_revived_witness:
  "\<exists>lb' r lb''. lb' = updateHealthStatus (InetAddress (10, 0, 0, 1) 80) True
      (removeBackend (InetAddress (10, 0, 0, 1) 80)
        (addBackend (InetAddress (10, 0, 0, 1) 80) new_LoadBalancer)) \<and>
    InetAddress (10, 0, 0, 1) 80 \<notin> set (getAllBackends lb') \<and>
    InetAddress (10, 0, 0, 1) 80 \<in> set (healthy_backends lb') \<and>
    pick_many lb_pick (length (healthy_backends lb')) lb' = Some (r, lb'') \<and>
    InetAddress (10, 0, 0, 1) 80 \<in> set r"
  by (rule removed_backend_revived) (intro inv_intros)

end
