(* ===== verification/ThreadPool.thy ===== *)
theory ThreadPool
  imports Interfaces
begin

text \<open>
  The pool of worker loops (src/net/thread_pool.h, src/net/thread_pool.cpp), over any type of loop
  handles. Starting a worker, which creates a thread and returns its loop, is the function
  \<open>startLoop\<close> from the worker's number to its handle.
\<close>

subsection \<open>State and operations\<close>

record 'l thread_pool =
  baseLoop :: 'l
  numThreads :: int
  is_started :: bool
  threads :: "nat list"
  loops :: "'l list"
  tp_next :: nat

text \<open>\<open>reserve\<close> takes a \<open>size_t\<close>, so a negative count asks for far too much and throws.\<close>

definition new_threadPool :: "'l \<Rightarrow> int \<Rightarrow> 'l thread_pool res" where
  "new_threadPool base n =
     (if n < 0 then Inl LengthError
      else Inr \<lparr>baseLoop = base, numThreads = n, is_started = False, threads = [], loops = [],
                tp_next = 0\<rparr>)"

fun start_workers :: "(nat \<Rightarrow> 'l) \<Rightarrow> nat \<Rightarrow> nat \<Rightarrow> 'l thread_pool \<Rightarrow> 'l thread_pool" where
  "start_workers startLoop i 0 p = p"
| "start_workers startLoop i (Suc n) p =
     start_workers startLoop (Suc i) n
       (p\<lparr>threads := threads p @ [i], loops := loops p @ [startLoop i]\<rparr>)"

definition threadPool_start :: "(nat \<Rightarrow> 'l) \<Rightarrow> 'l thread_pool \<Rightarrow> 'l thread_pool" where
  "threadPool_start startLoop p =
     (if \<not> is_started p then
        (let p' = (if numThreads p = 0 then p\<lparr>loops := loops p @ [baseLoop p]\<rparr>
                   else start_workers startLoop 0 (nat (numThreads p)) p)
         in p'\<lparr>is_started := True\<rparr>)
      else p)"

text \<open>
  \<open>assert("is_started_")\<close> asserts a non-empty string literal, which is always true, so the guard
  \<open>if (!is_started_)\<close> in front of it has no effect; \<open>next_ %= loops_.size()\<close> divides by the size.
\<close>

definition getNextLoop :: "'l thread_pool \<Rightarrow> ('l \<times> 'l thread_pool) res" where
  "getNextLoop p =
     bind_res (if \<not> is_started p then cassert True else Inr ()) (\<lambda>_.
     if numThreads p = 0 then Inr (baseLoop p, p)
     else if loops p = [] then Inl DivByZero
     else (let p' = p\<lparr>tp_next := tp_next p mod length (loops p)\<rparr> in
           if tp_next p' < length (loops p')
           then Inr (loops p' ! tp_next p', p'\<lparr>tp_next := tp_next p' + 1\<rparr>)
           else Inl OutOfBounds))"

text \<open>The destructor tells every loop of the pool to quit, then joins every thread.\<close>

datatype 'l pool_action = QuitLoop 'l | JoinThread nat

definition threadPool_destroy :: "'l thread_pool \<Rightarrow> 'l pool_action list" where
  "threadPool_destroy p = map QuitLoop (loops p) @ map JoinThread (threads p)"

subsection \<open>Lemmas\<close>

lemma start_workers_fields:
  "loops (start_workers f i n p) = loops p @ map f [i..<i + n] \<and>
   threads (start_workers f i n p) = threads p @ [i..<i + n] \<and>
   tp_next (start_workers f i n p) = tp_next p \<and> numThreads (start_workers f i n p) = numThreads p \<and>
   baseLoop (start_workers f i n p) = baseLoop p"
proof (induction n arbitrary: i p)
  case 0
  then show ?case by simp
next
  case (Suc n)
  have "[i..<i + Suc n] = i # [Suc i..<Suc i + n]" by (simp add: upt_conv_Cons)
  with Suc.IH [of "Suc i"] show ?case by simp
qed

definition started_pool :: "(nat \<Rightarrow> 'l) \<Rightarrow> 'l \<Rightarrow> nat \<Rightarrow> 'l thread_pool" where
  "started_pool f base n = \<lparr>baseLoop = base, numThreads = int n, is_started = True,
     threads = [0..<n], loops = (if n = 0 then [base] else map f [0..<n]), tp_next = 0\<rparr>"

lemma threadPool_start_new:
  "new_threadPool base (int n) = Inr p \<Longrightarrow> threadPool_start f p = started_pool f base n"
  using start_workers_fields [of f 0 n p]
  by (auto simp: new_threadPool_def threadPool_start_def started_pool_def Let_def
      intro!: thread_pool.equality)

definition pool_ok :: "'l thread_pool \<Rightarrow> bool" where
  "pool_ok p \<longleftrightarrow> numThreads p > 0 \<and> loops p \<noteq> []"

definition pool_pick :: "'l thread_pool \<Rightarrow> ('l \<times> 'l thread_pool) option" where
  "pool_pick p = (case getNextLoop p of Inr r \<Rightarrow> Some r | Inl _ \<Rightarrow> None)"

interpretation tprr: round_robin pool_ok loops tp_next pool_pick
proof unfold_locales
  fix p :: "'a thread_pool"
  assume "pool_ok p" and "loops p \<noteq> []"
  then show "\<exists>s'. pool_pick p = Some (loops p ! (tp_next p mod length (loops p)), s') \<and> pool_ok s' \<and>
      loops s' = loops p \<and> tp_next s' mod length (loops p) = Suc (tp_next p) mod length (loops p)"
    by (auto simp: pool_pick_def getNextLoop_def pool_ok_def Let_def mod_Suc_eq)
qed

subsection \<open>Properties\<close>

text \<open>
  Connections are spread evenly: after \<open>start\<close> with \<open>n > 0\<close> workers, the \<open>i\<close>-th of any number of
  successive \<open>getNextLoop\<close> calls returns worker \<open>i mod n\<close>.
\<close>

theorem getNextLoop_round_robin:
  assumes "new_threadPool base (int n) = Inr p" and "n > 0"
  shows "\<exists>p'. pick_many pool_pick k (threadPool_start f p) = Some (map (\<lambda>i. f (i mod n)) [0..<k], p')"
proof -
  have st: "threadPool_start f p = started_pool f base n" by (rule threadPool_start_new [OF assms(1)])
  have "pool_ok (started_pool f base n)" "loops (started_pool f base n) = map f [0..<n]"
    "tp_next (started_pool f base n) = 0"
    using assms(2) by (simp_all add: pool_ok_def started_pool_def)
  with tprr.pick_many_nth [of "started_pool f base n" k] assms(2) st show ?thesis by auto
qed

theorem getNextLoop_round_robin_witness:
  "\<exists>p p'. new_threadPool ''main'' 2 = Inr p \<and>
    pick_many pool_pick 3 (threadPool_start (\<lambda>i. if i = 0 then ''w0'' else ''w1'') p) =
      Some ([''w0'', ''w1'', ''w0''], p')"
proof -
  let ?p = "\<lparr>baseLoop = ''main'', numThreads = 2, is_started = False, threads = [], loops = [],
    tp_next = 0\<rparr>"
  have "new_threadPool ''main'' (int 2) = Inr ?p" by (simp add: new_threadPool_def)
  from getNextLoop_round_robin [OF this, of 3 "\<lambda>i. if i = 0 then ''w0'' else ''w1''"] this
  show ?thesis by (auto simp: numeral_3_eq_3)
qed

text \<open>
  Asking a pool that was not started divides by zero: the assertion meant to catch it tests a
  string literal and always holds.
\<close>

theorem getNextLoop_before_start:
  assumes "new_threadPool base n = Inr p" and "n \<noteq> 0"
  shows "getNextLoop p = Inl DivByZero"
  using assms by (auto simp: new_threadPool_def getNextLoop_def split: if_splits)

theorem getNextLoop_before_start_witness:
  "getNextLoop \<lparr>baseLoop = (), numThreads = 4, is_started = False, threads = [], loops = [],
     tp_next = 0\<rparr> = Inl DivByZero"
  by (rule getNextLoop_before_start [of "()" 4]) (simp_all add: new_threadPool_def)

text \<open>
  The destructor stops what \<open>start\<close> created: every worker loop is told to quit before the first
  join, and every thread is joined exactly once; starting twice adds nothing.
\<close>

theorem threadPool_destroy_started:
  assumes "new_threadPool base (int n) = Inr p"
  shows "threadPool_start f (threadPool_start f p) = threadPool_start f p \<and>
    threadPool_destroy (threadPool_start f p) =
      map QuitLoop (if n = 0 then [base] else map f [0..<n]) @ map JoinThread [0..<n]"
proof -
  have "threadPool_start f p = started_pool f base n" by (rule threadPool_start_new [OF assms])
  then show ?thesis
    by (simp add: threadPool_start_def threadPool_destroy_def started_pool_def)
qed

theorem threadPool_destroy_started_witness:
  "\<exists>p. new_threadPool ''main'' 2 = Inr p \<and>
    threadPool_destroy (threadPool_start (\<lambda>i. if i = 0 then ''w0'' else ''w1'') p) =
      [QuitLoop ''w0'', QuitLoop ''w1'', JoinThread 0, JoinThread 1]"
proof -
  let ?p = "\<lparr>baseLoop = ''main'', numThreads = 2, is_started = False, threads = [], loops = [],
    tp_next = 0\<rparr>"
  have "new_threadPool ''main'' (int 2) = Inr ?p" by (simp add: new_threadPool_def)
  from threadPool_destroy_started [OF this, of "\<lambda>i. if i = 0 then ''w0'' else ''w1''"] this
  show ?thesis by (auto simp: numeral_2_eq_2)
qed

subsection \<open>The demo\<close>

text \<open>src/demos/threadPoolTest.cpp: a pool of two, whose destructor runs when the assertions have held.\<close>

definition threadPoolTest :: "'l \<Rightarrow> (nat \<Rightarrow> 'l) \<Rightarrow> 'l pool_action list res" where
  "threadPoolTest mainLoop startLoop =
     bind_res (new_threadPool mainLoop 2) (\<lambda>pool.
     bind_res (getNextLoop (threadPool_start startLoop pool)) (\<lambda>(l1, pool).
     bind_res (getNextLoop pool) (\<lambda>(l2, pool).
     bind_res (getNextLoop pool) (\<lambda>(l3, pool).
     bind_res (cassert (l1 \<noteq> l2)) (\<lambda>_.
     bind_res (cassert (l1 = l3)) (\<lambda>_. Inr (threadPool_destroy pool)))))))"

lemma threadPoolTest_passes:
  assumes "startLoop 0 \<noteq> startLoop 1"
  shows "threadPoolTest mainLoop startLoop =
    Inr [QuitLoop (startLoop 0), QuitLoop (startLoop 1), JoinThread 0, JoinThread 1]"
proof -
  let ?p = "\<lparr>baseLoop = mainLoop, numThreads = 2, is_started = False, threads = [], loops = [], tp_next = 0\<rparr>"
  have p: "new_threadPool mainLoop 2 = Inr ?p" by (simp add: new_threadPool_def)
  then have "threadPool_start startLoop ?p = started_pool startLoop mainLoop 2"
    using threadPool_start_new [of mainLoop 2 ?p] by simp
  with p assms show ?thesis
    by (simp add: threadPoolTest_def started_pool_def getNextLoop_def threadPool_destroy_def Let_def numeral_2_eq_2)
qed

end
