(* ===== verification/Timer.thy ===== *)
theory Timer
  imports Complex_Main Text "HOL-Library.Log_Nat"
begin

text \<open>
  Time stamps and timers (src/net/timestamp.h, src/net/timestamp.cpp, src/net/timer.h,
  src/net/timer.cpp, src/net/timer_id.h).

  A time stamp is the \<open>int64_t\<close> of microseconds it holds, as an integer; \<open>int64_ok\<close> says when the C++
  value exists. A \<open>double\<close> is the rational number it denotes; the one arithmetic operation the code
  does on doubles, a product, rounds to 53 significant bits, ties to even (exponent range aside).
\<close>

subsection \<open>Integers and doubles\<close>

definition int64_ok :: "int \<Rightarrow> bool" where
  "int64_ok x \<longleftrightarrow> - (2 ^ 63) \<le> x \<and> x < 2 ^ 63"

text \<open>C++ division and remainder truncate towards zero.\<close>

definition tdiv :: "int \<Rightarrow> int \<Rightarrow> int" where
  "tdiv a b = sgn a * sgn b * (\<bar>a\<bar> div \<bar>b\<bar>)"

definition tmod :: "int \<Rightarrow> int \<Rightarrow> int" where
  "tmod a b = a - b * tdiv a b"

lemma tdiv_nonneg: "0 \<le> a \<Longrightarrow> 0 < b \<Longrightarrow> tdiv a b = a div b"
  by (cases "a = 0") (simp_all add: tdiv_def sgn_if)

lemma tmod_nonneg: "0 \<le> a \<Longrightarrow> 0 < b \<Longrightarrow> tmod a b = a mod b"
  by (simp add: tmod_def tdiv_nonneg minus_mult_div_eq_mod)

definition round_half_even :: "rat \<Rightarrow> int" where
  "round_half_even q = (let f = \<lfloor>q\<rfloor>; r = q - of_int f in
     if r < 1 / 2 then f else if 1 / 2 < r then f + 1 else if even f then f else f + 1)"

definition pow2 :: "int \<Rightarrow> rat" where
  "pow2 k = (if 0 \<le> k then 2 ^ nat k else 1 / 2 ^ nat (- k))"

text \<open>The binary exponent of a positive rational: \<open>2 ^ dexp q \<le> q < 2 ^ (dexp q + 1)\<close>.\<close>

definition dexp :: "rat \<Rightarrow> int" where
  "dexp q = (case quotient_of q of (a, b) \<Rightarrow>
     (let e = bitlen a - bitlen b in if pow2 e \<le> q then e else e - 1))"

definition round_double :: "rat \<Rightarrow> rat" where
  "round_double q = (if q = 0 then 0 else
     (let s = \<bar>q\<bar>; u = pow2 (dexp s - 52) in sgn q * of_int (round_half_even (s / u)) * u))"

definition trunc_int :: "rat \<Rightarrow> int" where
  "trunc_int q = (if q < 0 then \<lceil>q\<rceil> else \<lfloor>q\<rfloor>)"

lemma trunc_int_of_int [simp]: "trunc_int (of_int n) = n"
  by (simp add: trunc_int_def)

lemma round_half_even_int [simp]: "round_half_even (of_int n) = n"
  by (simp add: round_half_even_def)

lemma dexp_int:
  assumes "0 < n" and "n < 2 ^ 53"
  shows "dexp (of_int n) \<le> 52"
proof -
  have "bitlen n \<le> 53"
  proof (rule ccontr)
    assume "\<not> bitlen n \<le> 53"
    then have "(2::int) ^ 53 \<le> 2 ^ nat (bitlen n - 1)" by (intro power_increasing) auto
    with bitlen_bounds [OF assms(1)] assms(2) show False by linarith
  qed
  moreover have "bitlen 1 = 1" by (simp add: bitlen_alt_def)
  ultimately show ?thesis by (simp add: dexp_def Let_def quotient_of_int)
qed

text \<open>Integers below \<open>2 ^ 53\<close> are doubles.\<close>

lemma round_double_int:
  assumes "\<bar>n\<bar> < 2 ^ 53"
  shows "round_double (of_int n) = of_int n"
proof (cases "n = 0")
  case True
  then show ?thesis by (simp add: round_double_def)
next
  case False
  define e where "e = dexp \<bar>of_int n\<bar>"
  have "dexp (of_int \<bar>n\<bar>) \<le> 52" using assms False by (intro dexp_int) auto
  then have "e \<le> 52" by (simp add: e_def)
  then have u: "pow2 (e - 52) = 1 / 2 ^ nat (52 - e)" by (auto simp: pow2_def)
  have "\<bar>of_int n :: rat\<bar> / pow2 (e - 52) = of_int (\<bar>n\<bar> * 2 ^ nat (52 - e))"
    unfolding u by simp
  then have "round_half_even (\<bar>of_int n\<bar> / pow2 (e - 52)) = \<bar>n\<bar> * 2 ^ nat (52 - e)"
    by (simp only: round_half_even_int)
  moreover have "sgn (of_int n :: rat) * \<bar>of_int n\<bar> = of_int n"
    by (simp add: sgn_if)
  ultimately show ?thesis
    using False unfolding round_double_def Let_def e_def [symmetric]
    by (simp add: u)
qed

lemma pow2_pos: "0 < pow2 k" by (simp add: pow2_def)

lemma round_half_even_nonneg: "0 \<le> q \<Longrightarrow> 0 \<le> round_half_even q"
  by (auto simp: round_half_even_def Let_def)

lemma round_double_nonneg: "0 \<le> q \<Longrightarrow> 0 \<le> round_double q"
  using pow2_pos [of "dexp \<bar>q\<bar> - 52"] round_half_even_nonneg [of "\<bar>q\<bar> / pow2 (dexp \<bar>q\<bar> - 52)"]
  by (auto simp: round_double_def Let_def sgn_if)

subsection \<open>Timestamp\<close>

type_synonym timestamp = int

definition kMicroSecondsPerSecond :: int where "kMicroSecondsPerSecond = 1000 * 1000"

definition ts_invalid :: timestamp where "ts_invalid = 0"

definition ts_valid :: "timestamp \<Rightarrow> bool" where "ts_valid t \<longleftrightarrow> t > 0"

text \<open>\<open>Timestamp::now\<close> from what \<open>gettimeofday\<close> reports: whole seconds and microseconds.\<close>

definition ts_now :: "int \<Rightarrow> int \<Rightarrow> timestamp" where
  "ts_now tv_sec tv_usec = tv_sec * kMicroSecondsPerSecond + tv_usec"

definition ts_toString :: "timestamp \<Rightarrow> string" where
  "ts_toString t = (let seconds = tdiv t kMicroSecondsPerSecond;
                        microseconds = tmod t kMicroSecondsPerSecond
     in show_int seconds @ ''.'' @ show_int_padded 6 microseconds)"

text \<open>
  \<open>toFormattedString\<close>: the broken-down time is what \<open>gmtime_r\<close>, the parameter \<open>gmtime\<close>, stores;
  \<open>snprintf\<close> keeps what fits into the buffer of 64 bytes.
\<close>

record tm =
  tm_year :: int
  tm_mon :: int
  tm_mday :: int
  tm_hour :: int
  tm_min :: int
  tm_sec :: int

definition ts_toFormattedString :: "(int \<Rightarrow> tm) \<Rightarrow> bool \<Rightarrow> timestamp \<Rightarrow> string" where
  "ts_toFormattedString gmtime showMicroseconds t =
     (let seconds = tdiv t kMicroSecondsPerSecond; tm_time = gmtime seconds;
          text = show_int_spaced 4 (tm_year tm_time + 1900) @ show_int_padded 2 (tm_mon tm_time + 1) @
            show_int_padded 2 (tm_mday tm_time) @ '' '' @ show_int_padded 2 (tm_hour tm_time) @ '':'' @
            show_int_padded 2 (tm_min tm_time) @ '':'' @ show_int_padded 2 (tm_sec tm_time)
      in if showMicroseconds
         then (let microseconds = tmod t kMicroSecondsPerSecond in take 63 (text @ ''.'' @ show_int_padded 6 microseconds))
         else take 63 text)"

definition addTime :: "timestamp \<Rightarrow> rat \<Rightarrow> timestamp" where
  "addTime t seconds =
     (let delta = trunc_int (round_double (seconds * of_int kMicroSecondsPerSecond)) in t + delta)"

lemma addTime_seconds:
  assumes "\<bar>s\<bar> * 1000000 < 2 ^ 53"
  shows "addTime t (of_int s) = t + s * 1000000"
proof -
  have "\<bar>s * 1000000\<bar> < 2 ^ 53" using assms by (simp add: abs_mult)
  note r = round_double_int [OF this]
  have "of_int s * of_int kMicroSecondsPerSecond = (of_int (s * 1000000) :: rat)"
    by (simp add: kMicroSecondsPerSecond_def)
  then show ?thesis unfolding addTime_def Let_def by (simp only: r trunc_int_of_int)
qed

text \<open>Away from the ends of the range the sum exists as an \<open>int64_t\<close>.\<close>

lemma addTime_int64:
  assumes "0 \<le> t" and "t < 2 ^ 62" and "0 \<le> s" and "s * 1000000 < 2 ^ 53"
  shows "int64_ok (addTime t (of_int s))"
  using assms by (simp add: int64_ok_def addTime_seconds)

lemma addTime_later: "0 \<le> s \<Longrightarrow> t \<le> addTime t s"
  using round_double_nonneg [of "s * of_int kMicroSecondsPerSecond"]
  by (simp add: addTime_def trunc_int_def kMicroSecondsPerSecond_def)

subsection \<open>Timer\<close>

record 'cb timer =
  tm_callback :: 'cb
  tm_expiration :: timestamp
  tm_interval :: rat
  tm_repeat :: bool
  tm_sequence :: int

definition new_Timer :: "'cb \<Rightarrow> timestamp \<Rightarrow> rat \<Rightarrow> int \<Rightarrow> 'cb timer" where
  "new_Timer cb when interval seq =
     \<lparr>tm_callback = cb, tm_expiration = when, tm_interval = interval,
      tm_repeat = (interval > 0), tm_sequence = seq\<rparr>"

definition timer_restart :: "timestamp \<Rightarrow> 'cb timer \<Rightarrow> 'cb timer" where
  "timer_restart now tm =
     (if tm_repeat tm then tm\<lparr>tm_expiration := addTime now (tm_interval tm)\<rparr>
      else tm\<lparr>tm_expiration := ts_invalid\<rparr>)"

text \<open>A \<open>TimerId\<close> is the address of the timer and its sequence number; the default one is null.\<close>

type_synonym timer_id = "nat \<times> int"

definition null_TimerId :: timer_id where "null_TimerId = (0, 0)"

subsection \<open>Properties\<close>

text \<open>
  The delays the program uses are exact: adding any whole number of seconds below \<open>2 ^ 53\<close>
  microseconds to a time stamp moves it by exactly that many microseconds, despite the detour
  through a double, and a non-negative delay never moves it back.
\<close>

theorem addTime_exact:
  assumes "0 \<le> s" and "s * 1000000 < 2 ^ 53" and "0 \<le> q"
  shows "addTime t (of_int s) = t + s * 1000000 \<and> t \<le> addTime t (of_int s) \<and> t \<le> addTime t q"
  using assms addTime_seconds [of s t] addTime_later [of q t] by auto

theorem addTime_exact_witness:
  "addTime 1700000000000000 60 = 1700000060000000 \<and>
    1700000000000000 \<le> addTime 1700000000000000 (1 / 3)"
  using addTime_exact [of 60 "1 / 3" 1700000000000000] by simp

text \<open>
  \<open>toString\<close> loses nothing on a valid time stamp: the decimal digits before the dot are the
  seconds, there are exactly six after it, and together they give back the microseconds.
\<close>

theorem ts_toString_roundtrip:
  assumes "0 \<le> t"
  shows "\<exists>secs frac. ts_toString t = secs @ CHR ''.'' # frac \<and> length frac = 6 \<and>
    t = int (dec_value secs) * kMicroSecondsPerSecond + int (dec_value frac)"
proof -
  let ?s = "show_nat (nat (t div 1000000))"
  let ?f = "pad_zeros 6 (show_nat (nat (t mod 1000000)))"
  have nn: "\<not> t div 1000000 < 0" "\<not> t mod 1000000 < 0" using assms
    by (simp_all add: not_less pos_imp_zdiv_nonneg_iff)
  have "length (show_nat (nat (t mod 1000000))) \<le> 6" by (rule length_show_nat) auto
  then have "length ?f = 6" by (rule length_pad_zeros)
  moreover have "ts_toString t = ?s @ CHR ''.'' # ?f"
    using assms nn
    by (simp add: ts_toString_def kMicroSecondsPerSecond_def tdiv_nonneg tmod_nonneg show_int_def
        show_int_padded_def Let_def)
  moreover have "t = int (dec_value ?s) * kMicroSecondsPerSecond + int (dec_value ?f)"
    using assms by (simp add: kMicroSecondsPerSecond_def pos_imp_zdiv_nonneg_iff)
  ultimately show ?thesis by blast
qed

theorem ts_toString_roundtrip_witness:
  "\<exists>secs frac. ts_toString 1700000000000042 = secs @ CHR ''.'' # frac \<and> length frac = 6 \<and>
    1700000000000042 = int (dec_value secs) * kMicroSecondsPerSecond + int (dec_value frac)"
  by (rule ts_toString_roundtrip) simp

text \<open>
  C32. \<open>toFormattedString\<close> fits its buffer and can be read back: for the years 1000 to 9999 the text is 24
  characters long, each field stands at its fixed place, and the fields are the broken-down time and
  the microseconds.
\<close>

theorem formatted_fields:
  fixes tb :: tm
  assumes "0 \<le> t" and tb: "gmtime (t div 1000000) = tb" "1000 \<le> tm_year tb + 1900" "tm_year tb + 1900 < 10000"
    "0 \<le> tm_mon tb" "tm_mon tb < 12" "1 \<le> tm_mday tb" "tm_mday tb \<le> 31" "0 \<le> tm_hour tb" "tm_hour tb < 24"
    "0 \<le> tm_min tb" "tm_min tb < 60" "0 \<le> tm_sec tb" "tm_sec tb \<le> 60"
    and s: "s = ts_toFormattedString gmtime True t"
  shows "length s = 24 \<and> int (dec_value (take 4 s)) = tm_year tb + 1900 \<and>
    int (dec_value (take 2 (drop 4 s))) = tm_mon tb + 1 \<and> int (dec_value (take 2 (drop 6 s))) = tm_mday tb \<and>
    int (dec_value (take 2 (drop 9 s))) = tm_hour tb \<and> int (dec_value (take 2 (drop 12 s))) = tm_min tb \<and>
    int (dec_value (take 2 (drop 15 s))) = tm_sec tb \<and> int (dec_value (drop 18 s)) = t mod 1000000"
proof -
  have y: "length (show_int_spaced 4 (tm_year tb + 1900)) = 4"
    "int (dec_value (show_int_spaced 4 (tm_year tb + 1900))) = tm_year tb + 1900"
    using show_int_spaced_full [of 3 "tm_year tb + 1900"] tb(2,3) by (simp_all add: eval_nat_numeral)
  have f: "length (show_int_padded 2 x) = 2" "int (dec_value (show_int_padded 2 x)) = x" if "0 \<le> x" "x < 100" for x
    using show_int_padded_field [of x 2] that by simp_all
  have u: "length (show_int_padded 6 (t mod 1000000)) = 6" "int (dec_value (show_int_padded 6 (t mod 1000000))) = t mod 1000000"
    using show_int_padded_field [of "t mod 1000000" 6] by simp_all
  have str: "s = show_int_spaced 4 (tm_year tb + 1900) @ show_int_padded 2 (tm_mon tb + 1) @
      show_int_padded 2 (tm_mday tb) @ '' '' @ show_int_padded 2 (tm_hour tb) @ '':'' @
      show_int_padded 2 (tm_min tb) @ '':'' @ show_int_padded 2 (tm_sec tb) @ ''.'' @ show_int_padded 6 (t mod 1000000)"
    using assms(1) tb y(1) u(1) f(1)
    by (simp add: s ts_toFormattedString_def kMicroSecondsPerSecond_def tdiv_nonneg tmod_nonneg Let_def)
  show ?thesis using y u f tb by (simp add: str)
qed

theorem formatted_fields_witness:
  "length (ts_toFormattedString (\<lambda>_. \<lparr>tm_year = 123, tm_mon = 10, tm_mday = 14, tm_hour = 22, tm_min = 13, tm_sec = 20\<rparr>)
     True 1700000000000042) = 24"
  by (rule formatted_fields [THEN conjunct1, OF _ refl _ _ _ _ _ _ _ _ _ _ _ _ refl]) simp_all

end
