(* ===== verification/TimerQueue.thy ===== *)
theory TimerQueue
  imports Timer Interfaces "HOL-Library.Product_Lexorder"
begin

text \<open>
  The timer queue of an event loop (src/net/timer_queue.h, src/net/timer_queue.cpp): an ordered set
  of (expiration, timer address) pairs, the set of active (address, sequence number) pairs, and the
  timers themselves on the heap.

  The heap is an explicit store, so every dereference of a deleted timer is the fault
  \<open>UseAfterFree\<close>, a leak is a timer no set refers to, and an address can be reused after \<open>delete\<close>,
  which is what the sequence numbers are there for. Operator \<open>new\<close> is the parameter \<open>alloc\<close>, the
  clock readings are arguments, and what a callback does to the queue is a list of commands chosen
  by the parameter \<open>prog\<close>, so callbacks may add and cancel timers while the expired ones run.
\<close>

subsection \<open>State\<close>

record 'cb timer_queue =
  tq_timers :: "(timestamp \<times> nat) list"
  tq_active :: "timer_id set"
  tq_calling :: bool
  tq_canceling :: "timer_id set"
  tq_heap :: "nat \<Rightarrow> 'cb timer option"
  tq_numCreated :: int
  tq_armed :: "(timestamp \<times> int \<times> int) option"

definition UINTPTR_MAX :: nat where "UINTPTR_MAX = 2 ^ 64 - 1"

definition new_TimerQueue :: "'cb timer_queue" where
  "new_TimerQueue = \<lparr>tq_timers = [], tq_active = {}, tq_calling = False, tq_canceling = {},
     tq_heap = (\<lambda>_. None), tq_numCreated = 0, tq_armed = None\<rparr>"

definition deref :: "nat \<Rightarrow> 'cb timer_queue \<Rightarrow> 'cb timer res" where
  "deref p tq = (case tq_heap tq p of None \<Rightarrow> Inl UseAfterFree | Some tm \<Rightarrow> Inr tm)"

subsection \<open>The timer descriptor\<close>

definition howMuchTimeFromNow :: "timestamp \<Rightarrow> timestamp \<Rightarrow> int \<times> int" where
  "howMuchTimeFromNow when now =
     (let microseconds = when - now;
          microseconds = (if microseconds < 100 then 100 else microseconds)
      in (tdiv microseconds kMicroSecondsPerSecond,
          tmod microseconds kMicroSecondsPerSecond * 1000))"

definition resetTimerfd :: "timestamp \<Rightarrow> timestamp \<Rightarrow> 'cb timer_queue \<Rightarrow> 'cb timer_queue" where
  "resetTimerfd expiration now tq =
     tq\<lparr>tq_armed := Some (expiration, howMuchTimeFromNow expiration now)\<rparr>"

text \<open>
  Reading the descriptor consumes the expiry; the timer was armed for one shot only, so after the
  read it is no longer known to be armed for anything.
\<close>

definition readTimerfd :: "'cb timer_queue \<Rightarrow> 'cb timer_queue" where
  "readTimerfd tq = tq\<lparr>tq_armed := None\<rparr>"

subsection \<open>Adding and cancelling\<close>

definition tq_insert :: "nat \<Rightarrow> 'cb timer_queue \<Rightarrow> (bool \<times> 'cb timer_queue) res" where
  "tq_insert p tq = bind_res (deref p tq) (\<lambda>tm.
     let when = tm_expiration tm;
         earliestChanged = (case tq_timers tq of [] \<Rightarrow> True | (t, _) # _ \<Rightarrow> when < t)
     in Inr (earliestChanged,
             tq\<lparr>tq_timers := insort_insert (when, p) (tq_timers tq),
                tq_active := insert (p, tm_sequence tm) (tq_active tq)\<rparr>))"

definition addTimerInLoop :: "nat \<Rightarrow> timestamp \<Rightarrow> 'cb timer_queue \<Rightarrow> 'cb timer_queue res" where
  "addTimerInLoop p now tq = bind_res (tq_insert p tq) (\<lambda>(earliestChanged, tq').
     if earliestChanged
     then bind_res (deref p tq') (\<lambda>tm. Inr (resetTimerfd (tm_expiration tm) now tq'))
     else Inr tq')"

definition createTimer :: "((nat \<Rightarrow> 'cb timer option) \<Rightarrow> nat option) \<Rightarrow> 'cb \<Rightarrow> timestamp \<Rightarrow> rat
    \<Rightarrow> 'cb timer_queue \<Rightarrow> (nat \<times> 'cb timer_queue) res" where
  "createTimer alloc cb when interval tq =
     (case alloc (tq_heap tq) of None \<Rightarrow> Inl BadAlloc
      | Some p \<Rightarrow> Inr (p,
          tq\<lparr>tq_heap := (tq_heap tq)(p \<mapsto> new_Timer cb when interval (tq_numCreated tq)),
             tq_numCreated := tq_numCreated tq + 1\<rparr>))"

text \<open>\<open>addTimer\<close> called in the loop thread outside the functor phase, where \<open>runInLoop\<close> runs at once.\<close>

definition addTimer :: "((nat \<Rightarrow> 'cb timer option) \<Rightarrow> nat option) \<Rightarrow> 'cb \<Rightarrow> timestamp \<Rightarrow> rat
    \<Rightarrow> timestamp \<Rightarrow> 'cb timer_queue \<Rightarrow> (timer_id \<times> 'cb timer_queue) res" where
  "addTimer alloc cb when interval now tq =
     bind_res (createTimer alloc cb when interval tq) (\<lambda>(p, tq1).
     bind_res (addTimerInLoop p now tq1) (\<lambda>tq2.
     bind_res (deref p tq2) (\<lambda>tm. Inr ((p, tm_sequence tm), tq2))))"

definition cancelInLoop :: "timer_id \<Rightarrow> 'cb timer_queue \<Rightarrow> 'cb timer_queue res" where
  "cancelInLoop timer tq =
     (if timer \<in> tq_active tq then
        bind_res (deref (fst timer) tq) (\<lambda>tm.
        Inr (tq\<lparr>tq_timers := remove1 (tm_expiration tm, fst timer) (tq_timers tq),
                tq_heap := (tq_heap tq)(fst timer := None),
                tq_active := tq_active tq - {timer}\<rparr>))
      else if tq_calling tq then Inr (tq\<lparr>tq_canceling := insert timer (tq_canceling tq)\<rparr>)
      else Inr tq)"

subsection \<open>Expiry\<close>

definition erase_active :: "nat \<Rightarrow> 'cb timer_queue \<Rightarrow> 'cb timer_queue res" where
  "erase_active p q = bind_res (deref p q) (\<lambda>tm.
     Inr (q\<lparr>tq_active := tq_active q - {(p, tm_sequence tm)}\<rparr>))"

definition getExpired :: "timestamp \<Rightarrow> 'cb timer_queue
    \<Rightarrow> ((timestamp \<times> nat) list \<times> 'cb timer_queue) res" where
  "getExpired now tq =
     (let sentry = (now, UINTPTR_MAX);
          expired = takeWhile (\<lambda>e. e < sentry) (tq_timers tq);
          tq1 = tq\<lparr>tq_timers := dropWhile (\<lambda>e. e < sentry) (tq_timers tq)\<rparr>
      in bind_res (fold_res (\<lambda>(t, p). erase_active p) expired tq1) (\<lambda>q. Inr (expired, q)))"

datatype 'cb timer_cmd = CAdd 'cb timestamp rat timestamp | CCancel timer_id

fun exec_cmd :: "((nat \<Rightarrow> 'cb timer option) \<Rightarrow> nat option) \<Rightarrow> 'cb timer_cmd
    \<Rightarrow> 'cb timer_queue \<Rightarrow> 'cb timer_queue res" where
  "exec_cmd alloc (CAdd cb when interval now) tq =
     bind_res (addTimer alloc cb when interval now tq) (\<lambda>(_, tq'). Inr tq')"
| "exec_cmd alloc (CCancel timer) tq = cancelInLoop timer tq"

text \<open>\<open>Timer::run\<close>: the callback runs its commands; the log records which timers ran.\<close>

definition timer_run :: "((nat \<Rightarrow> 'cb timer option) \<Rightarrow> nat option)
    \<Rightarrow> ('cb \<Rightarrow> 'cb timer_queue \<Rightarrow> 'cb timer_cmd list) \<Rightarrow> nat
    \<Rightarrow> (int \<times> 'cb) list \<times> 'cb timer_queue \<Rightarrow> ((int \<times> 'cb) list \<times> 'cb timer_queue) res" where
  "timer_run alloc prog p = (\<lambda>(log, tq).
     bind_res (deref p tq) (\<lambda>tm.
     bind_res (fold_res (exec_cmd alloc) (prog (tm_callback tm) tq) tq) (\<lambda>tq'.
     Inr (log @ [(tm_sequence tm, tm_callback tm)], tq'))))"

definition reset_one :: "timestamp \<Rightarrow> nat \<Rightarrow> 'cb timer_queue \<Rightarrow> 'cb timer_queue res" where
  "reset_one now p q = bind_res (deref p q) (\<lambda>tm.
     if tm_repeat tm \<and> (p, tm_sequence tm) \<notin> tq_canceling q then
       bind_res (tq_insert p (q\<lparr>tq_heap := (tq_heap q)(p \<mapsto> timer_restart now tm)\<rparr>))
         (\<lambda>(_, q'). Inr q')
     else Inr (q\<lparr>tq_heap := (tq_heap q)(p := None)\<rparr>))"

definition tq_reset :: "(timestamp \<times> nat) list \<Rightarrow> timestamp \<Rightarrow> timestamp \<Rightarrow> 'cb timer_queue
    \<Rightarrow> 'cb timer_queue res" where
  "tq_reset expired now now' tq =
     bind_res (fold_res (\<lambda>(t, p). reset_one now p) expired tq) (\<lambda>q.
     bind_res (case tq_timers q of [] \<Rightarrow> Inr ts_invalid
               | (_, p) # _ \<Rightarrow> bind_res (deref p q) (\<lambda>tm. Inr (tm_expiration tm))) (\<lambda>nextExpire.
     if ts_valid nextExpire then Inr (resetTimerfd nextExpire now' q) else Inr q))"

definition tq_handleRead :: "((nat \<Rightarrow> 'cb timer option) \<Rightarrow> nat option)
    \<Rightarrow> ('cb \<Rightarrow> 'cb timer_queue \<Rightarrow> 'cb timer_cmd list) \<Rightarrow> timestamp \<Rightarrow> timestamp
    \<Rightarrow> 'cb timer_queue \<Rightarrow> ((int \<times> 'cb) list \<times> 'cb timer_queue) res" where
  "tq_handleRead alloc prog now now' tq =
     bind_res (getExpired now (readTimerfd tq)) (\<lambda>(expired, q1).
     bind_res (fold_res (\<lambda>(t, p). timer_run alloc prog p) expired
                 ([], q1\<lparr>tq_calling := True, tq_canceling := {}\<rparr>)) (\<lambda>(log, q2).
     bind_res (tq_reset expired now now' (q2\<lparr>tq_calling := False\<rparr>)) (\<lambda>q3.
     Inr (log, q3))))"

text \<open>The destructor deletes every timer still in the queue.\<close>

definition tq_destroy :: "'cb timer_queue \<Rightarrow> 'cb timer_queue res" where
  "tq_destroy tq = fold_res (\<lambda>(t, p) q. bind_res (deref p q) (\<lambda>_.
     Inr (q\<lparr>tq_heap := (tq_heap q)(p := None)\<rparr>))) (tq_timers tq) tq"

subsection \<open>Invariant\<close>

text \<open>
  The invariant while the timers at the addresses \<open>ex\<close> are in flight (taken out of the sets by
  \<open>getExpired\<close>, not yet put back or deleted): the two sets describe exactly the other live timers,
  nothing live is outside both, and sequence numbers identify timers.
\<close>

definition tq_ok :: "nat set \<Rightarrow> 'cb timer_queue \<Rightarrow> bool" where
  "tq_ok ex tq \<longleftrightarrow> sorted (tq_timers tq) \<and> distinct (tq_timers tq) \<and>
     (\<forall>t p. (t, p) \<in> set (tq_timers tq) \<longleftrightarrow>
        (\<exists>tm. tq_heap tq p = Some tm \<and> p \<notin> ex \<and> tm_expiration tm = t)) \<and>
     (\<forall>p s. (p, s) \<in> tq_active tq \<longleftrightarrow>
        (\<exists>tm. tq_heap tq p = Some tm \<and> p \<notin> ex \<and> tm_sequence tm = s)) \<and>
     (\<forall>p\<in>ex. tq_heap tq p \<noteq> None) \<and> 0 \<le> tq_numCreated tq \<and>
     (\<forall>p tm. tq_heap tq p = Some tm \<longrightarrow> 0 < p \<and> p < UINTPTR_MAX \<and>
        0 \<le> tm_sequence tm \<and> tm_sequence tm < tq_numCreated tq) \<and>
     (\<forall>p q a b. tq_heap tq p = Some a \<longrightarrow> tq_heap tq q = Some b \<longrightarrow>
        tm_sequence a = tm_sequence b \<longrightarrow> p = q)"

definition alloc_ok :: "((nat \<Rightarrow> 'cb timer option) \<Rightarrow> nat option) \<Rightarrow> bool" where
  "alloc_ok alloc \<longleftrightarrow> (\<forall>h p. alloc h = Some p \<longrightarrow> h p = None \<and> 0 < p \<and> p < UINTPTR_MAX)"

text \<open>
  What the operations a callback may use leave alone: the timers in flight (\<open>tq_frame\<close>); and how
  timers relate to those of an earlier state (\<open>tq_hist\<close>): a live timer is new, with a fresh sequence
  number, or it was there with the same sequence number and callback.
\<close>

definition tq_hist :: "'cb timer_queue \<Rightarrow> 'cb timer_queue \<Rightarrow> bool" where
  "tq_hist tq tq' \<longleftrightarrow> tq_numCreated tq \<le> tq_numCreated tq' \<and>
     (\<forall>p tm. tq_heap tq' p = Some tm \<longrightarrow> tq_numCreated tq \<le> tm_sequence tm \<or>
        (\<exists>a. tq_heap tq p = Some a \<and> tm_sequence a = tm_sequence tm \<and>
             tm_callback a = tm_callback tm))"

definition tq_frame :: "nat set \<Rightarrow> 'cb timer_queue \<Rightarrow> 'cb timer_queue \<Rightarrow> bool" where
  "tq_frame ex tq tq' \<longleftrightarrow> tq_hist tq tq' \<and> (\<forall>p\<in>ex. tq_heap tq' p = tq_heap tq p) \<and>
     tq_calling tq' = tq_calling tq \<and> tq_canceling tq \<subseteq> tq_canceling tq'"

lemma tq_okI:
  assumes "sorted (tq_timers tq)" "distinct (tq_timers tq)" "0 \<le> tq_numCreated tq"
    and "\<And>t p. (t, p) \<in> set (tq_timers tq) \<longleftrightarrow>
        (\<exists>tm. tq_heap tq p = Some tm \<and> p \<notin> ex \<and> tm_expiration tm = t)"
    and "\<And>p s. (p, s) \<in> tq_active tq \<longleftrightarrow>
        (\<exists>tm. tq_heap tq p = Some tm \<and> p \<notin> ex \<and> tm_sequence tm = s)"
    and "\<And>p. p \<in> ex \<Longrightarrow> tq_heap tq p \<noteq> None"
    and "\<And>p tm. tq_heap tq p = Some tm \<Longrightarrow> 0 < p \<and> p < UINTPTR_MAX \<and>
        0 \<le> tm_sequence tm \<and> tm_sequence tm < tq_numCreated tq"
    and "\<And>p q a b. tq_heap tq p = Some a \<Longrightarrow> tq_heap tq q = Some b \<Longrightarrow>
        tm_sequence a = tm_sequence b \<Longrightarrow> p = q"
  shows "tq_ok ex tq"
  using assms unfolding tq_ok_def by blast

lemma tq_okD:
  assumes "tq_ok ex tq"
  shows "sorted (tq_timers tq)" "distinct (tq_timers tq)" "0 \<le> tq_numCreated tq"
    and "(t, p) \<in> set (tq_timers tq) \<longleftrightarrow>
        (\<exists>tm. tq_heap tq p = Some tm \<and> p \<notin> ex \<and> tm_expiration tm = t)"
    and "(p, s) \<in> tq_active tq \<longleftrightarrow>
        (\<exists>tm. tq_heap tq p = Some tm \<and> p \<notin> ex \<and> tm_sequence tm = s)"
    and "p \<in> ex \<Longrightarrow> tq_heap tq p \<noteq> None"
    and "tq_heap tq p = Some tm \<Longrightarrow> 0 < p \<and> p < UINTPTR_MAX \<and>
        0 \<le> tm_sequence tm \<and> tm_sequence tm < tq_numCreated tq"
    and "tq_heap tq p = Some a \<Longrightarrow> tq_heap tq q = Some b \<Longrightarrow>
        tm_sequence a = tm_sequence b \<Longrightarrow> p = q"
  using assms unfolding tq_ok_def by blast+

lemma sorted_first_less:
  fixes xs :: "(timestamp \<times> nat) list"
  assumes "sorted xs"
  shows "(case xs of [] \<Rightarrow> True | (t, _) # _ \<Rightarrow> w < t) = (\<forall>e\<in>set xs. w < fst e)"
proof (cases xs)
  case Nil
  then show ?thesis by simp
next
  case (Cons x ys)
  have "fst x \<le> fst e" if "e \<in> set ys" for e
    using assms that Cons by (cases x; cases e) (auto simp: less_eq_prod_def)
  with Cons show ?thesis by (cases x) fastforce
qed

lemma tq_hist_refl [simp]: "tq_hist tq tq"
  by (auto simp: tq_hist_def)

lemma tq_hist_trans: "tq_hist a b \<Longrightarrow> tq_hist b c \<Longrightarrow> tq_hist a c"
proof -
  assume ab: "tq_hist a b" and bc: "tq_hist b c"
  have "tq_numCreated a \<le> tm_sequence tm \<or> (\<exists>x. tq_heap a p = Some x \<and>
      tm_sequence x = tm_sequence tm \<and> tm_callback x = tm_callback tm)"
    if c: "tq_heap c p = Some tm" for p tm
  proof (cases "tq_numCreated b \<le> tm_sequence tm")
    case True
    then show ?thesis using ab by (simp add: tq_hist_def)
  next
    case False
    then obtain y where "tq_heap b p = Some y" "tm_sequence y = tm_sequence tm"
      "tm_callback y = tm_callback tm" using bc c by (auto simp: tq_hist_def)
    with ab show ?thesis unfolding tq_hist_def by metis
  qed
  then show "tq_hist a c" using ab bc by (simp add: tq_hist_def)
qed

lemma tq_frame_refl [simp]: "tq_frame ex tq tq"
  by (simp add: tq_frame_def)

lemma tq_frame_trans: "tq_frame ex a b \<Longrightarrow> tq_frame ex b c \<Longrightarrow> tq_frame ex a c"
  by (auto simp: tq_frame_def intro: tq_hist_trans)

lemma tq_ok_new: "tq_ok {} new_TimerQueue"
  by (simp add: tq_ok_def new_TimerQueue_def)

lemma tq_ok_sorted: "tq_ok ex tq \<Longrightarrow> sorted (tq_timers tq)"
  by (simp add: tq_ok_def)

lemma deref_ex: "tq_ok ex tq \<Longrightarrow> p \<in> ex \<Longrightarrow> \<exists>tm. tq_heap tq p = Some tm"
  by (auto simp: tq_ok_def)

lemma deref_timers:
  "tq_ok ex tq \<Longrightarrow> (t, p) \<in> set (tq_timers tq) \<Longrightarrow>
    \<exists>tm. tq_heap tq p = Some tm \<and> p \<notin> ex \<and> tm_expiration tm = t"
  by (simp add: tq_ok_def)

lemma deref_Some [simp]: "tq_heap tq p = Some tm \<Longrightarrow> deref p tq = Inr tm"
  by (simp add: deref_def)

text \<open>Putting a timer in flight into the two sets.\<close>

lemma tq_insert_ok:
  assumes ok: "tq_ok ex tq" and p: "p \<in> ex" and tm: "tq_heap tq p = Some tm"
  shows "\<exists>tq'. tq_insert p tq = Inr (\<forall>e\<in>set (tq_timers tq). tm_expiration tm < fst e, tq') \<and>
    tq_ok (ex - {p}) tq' \<and> tq_heap tq' = tq_heap tq \<and> tq_numCreated tq' = tq_numCreated tq \<and>
    tq_calling tq' = tq_calling tq \<and> tq_canceling tq' = tq_canceling tq \<and>
    tq_timers tq' = insort_insert (tm_expiration tm, p) (tq_timers tq) \<and>
    tq_armed tq' = tq_armed tq"
proof -
  let ?tq = "tq\<lparr>tq_timers := insort_insert (tm_expiration tm, p) (tq_timers tq),
                tq_active := insert (p, tm_sequence tm) (tq_active tq)\<rparr>"
  have "tq_insert p tq = Inr (\<forall>e\<in>set (tq_timers tq). tm_expiration tm < fst e, ?tq)"
    using tm sorted_first_less [OF tq_okD(1) [OF ok]] by (simp add: tq_insert_def Let_def)
  moreover have "tq_ok (ex - {p}) ?tq"
  proof (rule tq_okI)
    fix t q
    show "(t, q) \<in> set (tq_timers ?tq) \<longleftrightarrow>
        (\<exists>tm. tq_heap ?tq q = Some tm \<and> q \<notin> ex - {p} \<and> tm_expiration tm = t)"
      using tq_okD(4) [OF ok, of t q] p tm by (auto simp: set_insort_insert)
  next
    fix q s
    show "(q, s) \<in> tq_active ?tq \<longleftrightarrow>
        (\<exists>tm. tq_heap ?tq q = Some tm \<and> q \<notin> ex - {p} \<and> tm_sequence tm = s)"
      using tq_okD(5) [OF ok, of q s] p tm by auto
  qed (use tq_okD [OF ok] in \<open>auto simp: sorted_insort_insert distinct_insort_insert\<close>)
  ultimately show ?thesis by auto
qed

lemma createTimer_ok:
  assumes ok: "tq_ok ex tq" and al: "alloc_ok alloc"
  shows "post {BadAlloc} (createTimer alloc cb when interval tq) (\<lambda>(p, tq').
    p \<notin> ex \<and> tq_heap tq p = None \<and> tq_ok (insert p ex) tq' \<and> tq_frame ex tq tq' \<and>
    tq_heap tq' = (tq_heap tq)(p \<mapsto> new_Timer cb when interval (tq_numCreated tq)) \<and>
    tq_numCreated tq' = tq_numCreated tq + 1 \<and> tq_timers tq' = tq_timers tq \<and>
    tq_armed tq' = tq_armed tq)"
proof (cases "alloc (tq_heap tq)")
  case None
  then show ?thesis by (simp add: createTimer_def)
next
  case (Some p)
  then have p: "tq_heap tq p = None" "0 < p" "p < UINTPTR_MAX"
    using al by (auto simp: alloc_ok_def)
  let ?tm = "new_Timer cb when interval (tq_numCreated tq)"
  let ?tq = "tq\<lparr>tq_heap := (tq_heap tq)(p \<mapsto> ?tm), tq_numCreated := tq_numCreated tq + 1\<rparr>"
  have ex: "p \<notin> ex" using ok p(1) by (auto simp: tq_ok_def)
  have seqs: "tm_sequence b < tq_numCreated tq" if "tq_heap tq q = Some b" for q b
    using ok that by (simp add: tq_ok_def)
  have new: "tm_sequence ?tm = tq_numCreated tq" by (simp add: new_Timer_def)
  have "tq_ok (insert p ex) ?tq"
  proof (rule tq_okI)
    fix t q
    show "(t, q) \<in> set (tq_timers ?tq) \<longleftrightarrow>
        (\<exists>tm. tq_heap ?tq q = Some tm \<and> q \<notin> insert p ex \<and> tm_expiration tm = t)"
      using tq_okD(4) [OF ok, of t q] p by auto
  next
    fix q s
    show "(q, s) \<in> tq_active ?tq \<longleftrightarrow>
        (\<exists>tm. tq_heap ?tq q = Some tm \<and> q \<notin> insert p ex \<and> tm_sequence tm = s)"
      using tq_okD(5) [OF ok, of q s] p by auto
  next
    fix q tm
    assume "tq_heap ?tq q = Some tm"
    then show "0 < q \<and> q < UINTPTR_MAX \<and> 0 \<le> tm_sequence tm \<and> tm_sequence tm < tq_numCreated ?tq"
      using tq_okD(7) [OF ok, of q tm] tq_okD(3) [OF ok] p new by (auto split: if_splits)
  next
    fix q r a b
    assume "tq_heap ?tq q = Some a" "tq_heap ?tq r = Some b" "tm_sequence a = tm_sequence b"
    then show "q = r"
      using tq_okD(8) [OF ok, of q a r b] seqs [of q a] seqs [of r b] new
      by (auto split: if_splits)
  qed (use tq_okD [OF ok] in auto)
  then show ?thesis
    using Some p ex new by (auto simp: createTimer_def tq_frame_def tq_hist_def)
qed

lemma addTimerInLoop_ok:
  assumes ok: "tq_ok ex tq" and p: "p \<in> ex" and tm: "tq_heap tq p = Some tm"
  shows "\<exists>tq'. addTimerInLoop p now tq = Inr tq' \<and> tq_ok (ex - {p}) tq' \<and>
    tq_heap tq' = tq_heap tq \<and> tq_numCreated tq' = tq_numCreated tq \<and>
    tq_calling tq' = tq_calling tq \<and> tq_canceling tq' = tq_canceling tq \<and>
    tq_timers tq' = insort_insert (tm_expiration tm, p) (tq_timers tq) \<and>
    tq_armed tq' = (if \<forall>e\<in>set (tq_timers tq). tm_expiration tm < fst e
      then Some (tm_expiration tm, howMuchTimeFromNow (tm_expiration tm) now) else tq_armed tq)"
proof -
  define f where "f \<longleftrightarrow> (\<forall>e\<in>set (tq_timers tq). tm_expiration tm < fst e)"
  from tq_insert_ok [OF assms] obtain tq1 where 1: "tq_insert p tq = Inr (f, tq1)"
    "tq_ok (ex - {p}) tq1" "tq_heap tq1 = tq_heap tq" "tq_numCreated tq1 = tq_numCreated tq"
    "tq_calling tq1 = tq_calling tq" "tq_canceling tq1 = tq_canceling tq"
    "tq_timers tq1 = insort_insert (tm_expiration tm, p) (tq_timers tq)"
    "tq_armed tq1 = tq_armed tq" unfolding f_def by blast
  show ?thesis
  proof (cases f)
    case True
    then have "addTimerInLoop p now tq = Inr (resetTimerfd (tm_expiration tm) now tq1)"
      using 1 tm by (simp add: addTimerInLoop_def)
    moreover have "tq_ok (ex - {p}) (resetTimerfd (tm_expiration tm) now tq1)"
      using 1(2) by (simp add: tq_ok_def resetTimerfd_def)
    ultimately show ?thesis
      using 1 True [unfolded f_def] by (auto simp: resetTimerfd_def)
  next
    case False
    then have "addTimerInLoop p now tq = Inr tq1"
      using 1 by (simp add: addTimerInLoop_def)
    with 1 False [unfolded f_def] show ?thesis by auto
  qed
qed

lemma addTimer_ok:
  assumes ok: "tq_ok ex tq" and al: "alloc_ok alloc"
  shows "post {BadAlloc} (addTimer alloc cb when interval now tq) (\<lambda>((p, s), tq').
    tq_ok ex tq' \<and> tq_frame ex tq tq' \<and> p \<notin> ex \<and> tq_heap tq p = None \<and> s = tq_numCreated tq \<and>
    tq_heap tq' = (tq_heap tq)(p \<mapsto> new_Timer cb when interval s) \<and>
    tq_numCreated tq' = s + 1 \<and> tq_timers tq' = insort_insert (when, p) (tq_timers tq) \<and>
    tq_armed tq' = (if \<forall>e\<in>set (tq_timers tq). when < fst e
      then Some (when, howMuchTimeFromNow when now) else tq_armed tq))"
  unfolding addTimer_def
proof (rule post_bind [OF createTimer_ok [OF ok al]], clarify)
  fix p tq1
  assume p: "p \<notin> ex" and h: "tq_heap tq p = None" and ok1: "tq_ok (insert p ex) tq1"
    and fr: "tq_frame ex tq tq1"
    and h1: "tq_heap tq1 = (tq_heap tq)(p \<mapsto> new_Timer cb when interval (tq_numCreated tq))"
    and n1: "tq_numCreated tq1 = tq_numCreated tq + 1"
    and t1: "tq_timers tq1 = tq_timers tq" and a1: "tq_armed tq1 = tq_armed tq"
  let ?tm = "new_Timer cb when interval (tq_numCreated tq)"
  have tm: "tq_heap tq1 p = Some ?tm" and e: "tm_expiration ?tm = when"
    and s: "tm_sequence ?tm = tq_numCreated tq"
    by (simp_all add: h1 new_Timer_def)
  have i: "insert p ex - {p} = ex" using p by auto
  from addTimerInLoop_ok [OF ok1 _ tm, of now, unfolded i e] obtain tq2 where
    2: "addTimerInLoop p now tq1 = Inr tq2" "tq_ok ex tq2" "tq_heap tq2 = tq_heap tq1"
      "tq_numCreated tq2 = tq_numCreated tq1" "tq_calling tq2 = tq_calling tq1"
      "tq_canceling tq2 = tq_canceling tq1"
      "tq_timers tq2 = insort_insert (when, p) (tq_timers tq1)"
      "tq_armed tq2 = (if \<forall>e\<in>set (tq_timers tq1). when < fst e
        then Some (when, howMuchTimeFromNow when now) else tq_armed tq1)" by auto
  have "tq_frame ex tq tq2" using fr 2 by (simp add: tq_frame_def tq_hist_def)
  then show "post {BadAlloc} (bind_res (addTimerInLoop p now tq1)
      (\<lambda>tq2. bind_res (deref p tq2) (\<lambda>tm. Inr ((p, tm_sequence tm), tq2)))) (\<lambda>((p, s), tq').
    tq_ok ex tq' \<and> tq_frame ex tq tq' \<and> p \<notin> ex \<and> tq_heap tq p = None \<and> s = tq_numCreated tq \<and>
    tq_heap tq' = (tq_heap tq)(p \<mapsto> new_Timer cb when interval s) \<and>
    tq_numCreated tq' = s + 1 \<and> tq_timers tq' = insort_insert (when, p) (tq_timers tq) \<and>
    tq_armed tq' = (if \<forall>e\<in>set (tq_timers tq). when < fst e
      then Some (when, howMuchTimeFromNow when now) else tq_armed tq))"
    using 2 p h tm h1 n1 t1 a1 s by (simp add: deref_def)
qed

lemma cancelInLoop_ok:
  assumes ok: "tq_ok ex tq"
  shows "\<exists>tq'. cancelInLoop tid tq = Inr tq' \<and> tq_ok ex tq' \<and> tq_frame ex tq tq' \<and>
    tq_numCreated tq' = tq_numCreated tq \<and> tq_armed tq' = tq_armed tq \<and>
    tq_heap tq' = (if tid \<in> tq_active tq then (tq_heap tq)(fst tid := None) else tq_heap tq) \<and>
    set (tq_timers tq') \<subseteq> set (tq_timers tq) \<and> tq_active tq' = tq_active tq - {tid}"
proof (cases "tid \<in> tq_active tq")
  case True
  obtain p s where tid: "tid = (p, s)" by (cases tid)
  with True tq_okD(5) [OF ok, of p s] obtain tm where
    tm: "tq_heap tq p = Some tm" "p \<notin> ex" "tm_sequence tm = s" by auto
  let ?tq = "tq\<lparr>tq_timers := remove1 (tm_expiration tm, p) (tq_timers tq),
    tq_heap := (tq_heap tq)(p := None), tq_active := tq_active tq - {tid}\<rparr>"
  have "tq_ok ex ?tq"
  proof (rule tq_okI)
    fix t q
    show "(t, q) \<in> set (tq_timers ?tq) \<longleftrightarrow>
        (\<exists>tm. tq_heap ?tq q = Some tm \<and> q \<notin> ex \<and> tm_expiration tm = t)"
      using tq_okD(2) [OF ok] tq_okD(4) [OF ok, of t q] tm by auto
  next
    fix q r
    show "(q, r) \<in> tq_active ?tq \<longleftrightarrow>
        (\<exists>tm. tq_heap ?tq q = Some tm \<and> q \<notin> ex \<and> tm_sequence tm = r)"
      using tq_okD(5) [OF ok, of q r] tm tid by auto
  next
    fix q r a b
    assume "tq_heap ?tq q = Some a" "tq_heap ?tq r = Some b" "tm_sequence a = tm_sequence b"
    then show "q = r" using tq_okD(8) [OF ok, of q a r b] by (auto split: if_splits)
  qed (use tq_okD [OF ok] tm in \<open>auto simp: sorted_remove1 split: if_splits\<close>)
  moreover have "cancelInLoop tid tq = Inr ?tq" using True tm tid by (simp add: cancelInLoop_def)
  moreover have "tq_frame ex tq ?tq" using tm by (auto simp: tq_frame_def tq_hist_def)
  ultimately show ?thesis
    using True tid set_remove1_subset [of "(tm_expiration tm, p)" "tq_timers tq"] by auto
next
  case False
  have "tq_ok ex (tq\<lparr>tq_canceling := C\<rparr>)" for C using ok by (simp add: tq_ok_def)
  with False ok show ?thesis
    by (auto simp: cancelInLoop_def tq_frame_def tq_hist_def)
qed

text \<open>
  Expirations after the epoch, and repeating timers with a positive interval: kept when every time
  stamp a caller passes is after the epoch.
\<close>

definition tq_pos :: "'cb timer_queue \<Rightarrow> bool" where
  "tq_pos tq \<longleftrightarrow> (\<forall>p tm. tq_heap tq p = Some tm \<longrightarrow>
     0 < tm_expiration tm \<and> (tm_repeat tm \<longrightarrow> 0 < tm_interval tm))"

fun cmd_pos :: "'cb timer_cmd \<Rightarrow> bool" where
  "cmd_pos (CAdd cb w iv now) \<longleftrightarrow> 0 < w"
| "cmd_pos (CCancel tid) \<longleftrightarrow> True"

definition prog_pos :: "('cb \<Rightarrow> 'cb timer_queue \<Rightarrow> 'cb timer_cmd list) \<Rightarrow> bool" where
  "prog_pos prog \<longleftrightarrow> (\<forall>cb q. \<forall>c\<in>set (prog cb q). cmd_pos c)"

lemma exec_cmd_ok:
  assumes "tq_ok ex tq" and "alloc_ok alloc"
  shows "post {BadAlloc} (exec_cmd alloc c tq) (\<lambda>tq'. tq_ok ex tq' \<and> tq_frame ex tq tq' \<and>
    (tq_pos tq \<and> cmd_pos c \<longrightarrow> tq_pos tq'))"
proof (cases c)
  case (CAdd cb w iv now)
  have "post {BadAlloc} (bind_res (addTimer alloc cb w iv now tq) (\<lambda>(_, tq'). Inr tq'))
      (\<lambda>tq'. tq_ok ex tq' \<and> tq_frame ex tq tq' \<and> (tq_pos tq \<and> 0 < w \<longrightarrow> tq_pos tq'))"
    by (rule post_bind [OF addTimer_ok [OF assms]]) (auto simp: tq_pos_def new_Timer_def)
  with CAdd show ?thesis by simp
next
  case (CCancel tid)
  with cancelInLoop_ok [OF assms(1), of tid] show ?thesis
    by (auto simp: tq_pos_def split: if_splits)
qed

lemma timer_run_ok:
  assumes "tq_ok ex tq" and "alloc_ok alloc" and "p \<in> ex" and "tq_heap tq p = Some tm"
  shows "post {BadAlloc} (timer_run alloc prog p (lg, tq)) (\<lambda>(lg', tq').
    tq_ok ex tq' \<and> tq_frame ex tq tq' \<and> lg' = lg @ [(tm_sequence tm, tm_callback tm)] \<and>
    (tq_pos tq \<and> prog_pos prog \<longrightarrow> tq_pos tq'))"
proof -
  let ?cs = "prog (tm_callback tm) tq"
  let ?I = "\<lambda>rest q. tq_ok ex q \<and> tq_frame ex tq q \<and> set rest \<subseteq> set ?cs \<and>
    (tq_pos tq \<and> prog_pos prog \<longrightarrow> tq_pos q)"
  have "post {BadAlloc} (fold_res (exec_cmd alloc) ?cs tq) (?I [])"
  proof (rule post_fold_res)
    show "?I ?cs tq" using assms(1) by simp
  next
    fix c rest q
    assume I: "?I (c # rest) q"
    then have c: "prog_pos prog \<Longrightarrow> cmd_pos c" by (auto simp: prog_pos_def)
    show "post {BadAlloc} (exec_cmd alloc c q) (?I rest)"
      by (rule post_mono [OF exec_cmd_ok [OF conjunct1 [OF I] assms(2)]])
        (use I c in \<open>auto intro: tq_frame_trans\<close>)
  qed
  then show ?thesis
    using assms(4) unfolding timer_run_def by (auto intro: post_bind)
qed

lemma reset_one_ok:
  assumes ok: "tq_ok ex tq" and p: "p \<in> ex" and tm: "tq_heap tq p = Some tm"
  shows "\<exists>tq'. reset_one now p tq = Inr tq' \<and> tq_ok (ex - {p}) tq' \<and>
    tq_heap tq' = (tq_heap tq)(p := if tm_repeat tm \<and> (p, tm_sequence tm) \<notin> tq_canceling tq
      then Some (timer_restart now tm) else None) \<and>
    tq_numCreated tq' = tq_numCreated tq \<and> tq_calling tq' = tq_calling tq \<and>
    tq_canceling tq' = tq_canceling tq \<and> tq_armed tq' = tq_armed tq"
proof (cases "tm_repeat tm \<and> (p, tm_sequence tm) \<notin> tq_canceling tq")
  case True
  let ?tm = "timer_restart now tm"
  let ?tq = "tq\<lparr>tq_heap := (tq_heap tq)(p \<mapsto> ?tm)\<rparr>"
  have s: "tm_sequence ?tm = tm_sequence tm" by (simp add: timer_restart_def)
  have "tq_ok ex ?tq"
  proof (rule tq_okI)
    fix t q
    show "(t, q) \<in> set (tq_timers ?tq) \<longleftrightarrow>
        (\<exists>tm. tq_heap ?tq q = Some tm \<and> q \<notin> ex \<and> tm_expiration tm = t)"
      using tq_okD(4) [OF ok, of t q] p by auto
  next
    fix q r
    show "(q, r) \<in> tq_active ?tq \<longleftrightarrow>
        (\<exists>tm. tq_heap ?tq q = Some tm \<and> q \<notin> ex \<and> tm_sequence tm = r)"
      using tq_okD(5) [OF ok, of q r] p by auto
  next
    fix q b
    assume "tq_heap ?tq q = Some b"
    then show "0 < q \<and> q < UINTPTR_MAX \<and> 0 \<le> tm_sequence b \<and> tm_sequence b < tq_numCreated ?tq"
      using tq_okD(7) [OF ok, of q b] tq_okD(7) [OF ok tm] s by (auto split: if_splits)
  next
    fix q r a b
    assume "tq_heap ?tq q = Some a" "tq_heap ?tq r = Some b" "tm_sequence a = tm_sequence b"
    then show "q = r"
      using tq_okD(8) [OF ok, of q a r b] tq_okD(8) [OF ok tm, of r b] tq_okD(8) [OF ok _ tm, of q a] s
      by (auto split: if_splits)
  qed (use tq_okD [OF ok] in auto)
  from tq_insert_ok [OF this p, of ?tm] True tm show ?thesis by (auto simp: reset_one_def)
next
  case False
  let ?tq = "tq\<lparr>tq_heap := (tq_heap tq)(p := None)\<rparr>"
  have "tq_ok (ex - {p}) ?tq"
  proof (rule tq_okI)
    fix t q
    show "(t, q) \<in> set (tq_timers ?tq) \<longleftrightarrow>
        (\<exists>tm. tq_heap ?tq q = Some tm \<and> q \<notin> ex - {p} \<and> tm_expiration tm = t)"
      using tq_okD(4) [OF ok, of t q] p by auto
  next
    fix q r
    show "(q, r) \<in> tq_active ?tq \<longleftrightarrow>
        (\<exists>tm. tq_heap ?tq q = Some tm \<and> q \<notin> ex - {p} \<and> tm_sequence tm = r)"
      using tq_okD(5) [OF ok, of q r] p by auto
  next
    fix q r a b
    assume "tq_heap ?tq q = Some a" "tq_heap ?tq r = Some b" "tm_sequence a = tm_sequence b"
    then show "q = r" using tq_okD(8) [OF ok, of q a r b] by (auto split: if_splits)
  qed (use tq_okD [OF ok] in \<open>auto split: if_splits\<close>)
  moreover have "reset_one now p tq = Inr ?tq" using False tm by (auto simp: reset_one_def)
  ultimately show ?thesis using False by auto
qed

text \<open>The sentry \<open>(now, UINTPTR_MAX)\<close> splits the ordered set at the time stamp \<open>now\<close>.\<close>

lemma before_sentry:
  "p < UINTPTR_MAX \<Longrightarrow> (t, p) < (now, UINTPTR_MAX) \<longleftrightarrow> t \<le> now" for t now :: timestamp
  by auto

lemma takeWhile_sorted_filter:
  "sorted xs \<Longrightarrow> takeWhile (\<lambda>e. e < b) xs = filter (\<lambda>e. e < b) xs" for b :: "'a::linorder"
  by (induction xs) (force simp: empty_filter_conv)+

lemma dropWhile_sorted_filter:
  "sorted xs \<Longrightarrow> dropWhile (\<lambda>e. e < b) xs = filter (\<lambda>e. \<not> e < b) xs" for b :: "'a::linorder"
  by (induction xs) (force intro!: filter_True [symmetric])+

definition tq_due :: "timestamp \<Rightarrow> 'cb timer_queue \<Rightarrow> (timestamp \<times> nat) list" where
  "tq_due now tq = filter (\<lambda>(t, p). t \<le> now) (tq_timers tq)"

lemma getExpired_fold:
  assumes "\<And>t p. (t, p) \<in> set es \<Longrightarrow> tq_heap q p \<noteq> None"
  shows "fold_res (\<lambda>(t, p). erase_active p) es q =
    Inr (q\<lparr>tq_active := tq_active q -
      (\<lambda>(t, p). (p, tm_sequence (the (tq_heap q p)))) ` set es\<rparr>)"
  using assms
proof (induction es arbitrary: q)
  case Nil
  then show ?case by simp
next
  case (Cons e es)
  obtain t p where e: "e = (t, p)" by (cases e)
  from Cons.prems [of t p] e obtain tm where tm: "tq_heap q p = Some tm" by auto
  let ?q = "q\<lparr>tq_active := tq_active q - {(p, tm_sequence tm)}\<rparr>"
  have "fold_res (\<lambda>(t, p). erase_active p) es ?q =
    Inr (?q\<lparr>tq_active := tq_active ?q -
      (\<lambda>(t, p). (p, tm_sequence (the (tq_heap ?q p)))) ` set es\<rparr>)"
    by (rule Cons.IH) (use Cons.prems in auto)
  moreover have "erase_active p q = Inr ?q" using tm by (simp add: erase_active_def)
  moreover have "tq_active q - (\<lambda>(t, p). (p, tm_sequence (the (tq_heap q p)))) ` set (e # es) =
      tq_active ?q - (\<lambda>(t, p). (p, tm_sequence (the (tq_heap ?q p)))) ` set es"
    using tm e by auto
  ultimately show ?case by (simp add: e)
qed

lemma getExpired_ok:
  assumes ok: "tq_ok {} tq"
  shows "\<exists>tq'. getExpired now tq = Inr (tq_due now tq, tq') \<and>
    tq_ok (snd ` set (tq_due now tq)) tq' \<and> distinct (map snd (tq_due now tq)) \<and>
    tq_heap tq' = tq_heap tq \<and> tq_numCreated tq' = tq_numCreated tq \<and>
    tq_timers tq' = filter (\<lambda>(t, p). \<not> t \<le> now) (tq_timers tq) \<and> tq_armed tq' = tq_armed tq"
proof -
  let ?due = "tq_due now tq" and ?rest = "filter (\<lambda>(t, p). \<not> t \<le> now) (tq_timers tq)"
  note D = tq_okD [OF ok]
  have cmp: "e < (now, UINTPTR_MAX) \<longleftrightarrow> (case e of (t, p) \<Rightarrow> t \<le> now)"
    if "e \<in> set (tq_timers tq)" for e
  proof -
    obtain t p where e: "e = (t, p)" by (cases e)
    with that D(4) D(7) have "p < UINTPTR_MAX" by blast
    with e before_sentry show ?thesis by simp
  qed
  have tw: "takeWhile (\<lambda>e. e < (now, UINTPTR_MAX)) (tq_timers tq) = ?due"
    unfolding takeWhile_sorted_filter [OF D(1)] tq_due_def using cmp by (intro filter_cong) auto
  have dw: "dropWhile (\<lambda>e. e < (now, UINTPTR_MAX)) (tq_timers tq) = ?rest"
    unfolding dropWhile_sorted_filter [OF D(1)] using cmp by (intro filter_cong) auto
  have live: "tq_heap tq p \<noteq> None" if "(t, p) \<in> set ?due" for t p
    using that D(4) by (auto simp: tq_due_def)
  have inE: "p \<in> snd ` set ?due \<longleftrightarrow> (\<exists>tm. tq_heap tq p = Some tm \<and> tm_expiration tm \<le> now)" for p
    using D(4) by (force simp: tq_due_def)
  let ?tq = "tq\<lparr>tq_timers := ?rest, tq_active := tq_active tq -
    (\<lambda>(t, p). (p, tm_sequence (the (tq_heap tq p)))) ` set ?due\<rparr>"
  have "getExpired now tq = Inr (?due, ?tq)"
    unfolding getExpired_def Let_def tw dw
    using getExpired_fold [of ?due "tq\<lparr>tq_timers := ?rest\<rparr>"] live by simp
  moreover have "tq_ok (snd ` set ?due) ?tq"
  proof (rule tq_okI)
    fix t p
    show "(t, p) \<in> set (tq_timers ?tq) \<longleftrightarrow>
        (\<exists>tm. tq_heap ?tq p = Some tm \<and> p \<notin> snd ` set ?due \<and> tm_expiration tm = t)"
      unfolding inE using D(4) [of t p] by auto
  next
    fix p s
    have "(p, s) \<in> (\<lambda>(t, p). (p, tm_sequence (the (tq_heap tq p)))) ` set ?due \<longleftrightarrow>
        p \<in> snd ` set ?due \<and> s = tm_sequence (the (tq_heap tq p))" by force
    then show "(p, s) \<in> tq_active ?tq \<longleftrightarrow>
        (\<exists>tm. tq_heap ?tq p = Some tm \<and> p \<notin> snd ` set ?due \<and> tm_sequence tm = s)"
      using D(5) [of p s] by auto
  next
    fix p
    assume "p \<in> snd ` set ?due"
    then show "tq_heap ?tq p \<noteq> None" by (auto simp: inE)
  qed (use D in \<open>auto intro: sorted_wrt_filter distinct_filter\<close>)
  moreover have "inj_on snd (set ?due)"
  proof (rule inj_onI)
    fix x y
    assume xy: "x \<in> set ?due" "y \<in> set ?due" "snd x = snd y"
    obtain t u p where "x = (t, p)" "y = (u, p)" using xy(3) by (cases x; cases y) auto
    with xy(1,2) D(4) show "x = y" by (force simp: tq_due_def)
  qed
  then have "distinct (map snd ?due)" using D(2) by (simp add: distinct_map tq_due_def)
  ultimately show ?thesis by auto
qed

end
