(* ===== verification/TimerExpiry.thy ===== *)
theory TimerExpiry
  imports TimerQueue
begin

text \<open>
  What the timer queue promises: one expiry as a whole (\<open>handleRead_ok\<close>), histories of additions,
  cancellations and expiries (\<open>tq_run\<close>), and the properties of src/net/timer_queue.cpp that rest on
  the invariant of \<open>TimerQueue\<close>.
\<close>

subsection \<open>A whole expiry\<close>

definition tq_entry :: "'cb timer_queue \<Rightarrow> timestamp \<times> nat \<Rightarrow> int \<times> 'cb" where
  "tq_entry tq e = (let tm = the (tq_heap tq (snd e)) in (tm_sequence tm, tm_callback tm))"

lemma run_phase:
  assumes ok: "tq_ok (snd ` set due) q0" and al: "alloc_ok alloc"
  shows "post {BadAlloc} (fold_res (\<lambda>(t, p). timer_run alloc prog p) due ([], q0)) (\<lambda>(lg, q).
    tq_ok (snd ` set due) q \<and> tq_frame (snd ` set due) q0 q \<and> lg = map (tq_entry q0) due \<and>
    (tq_pos q0 \<and> prog_pos prog \<longrightarrow> tq_pos q))"
proof -
  let ?E = "snd ` set due"
  let ?I = "\<lambda>rest s. case s of (lg, q) \<Rightarrow> tq_ok ?E q \<and> tq_frame ?E q0 q \<and>
    lg @ map (tq_entry q0) rest = map (tq_entry q0) due \<and> set rest \<subseteq> set due \<and>
    (tq_pos q0 \<and> prog_pos prog \<longrightarrow> tq_pos q)"
  have "post {BadAlloc} (fold_res (\<lambda>(t, p). timer_run alloc prog p) due ([], q0)) (?I [])"
  proof (rule post_fold_res)
    show "?I due ([], q0)" using ok by simp
  next
    fix e rest s
    assume I: "?I (e # rest) s"
    obtain lg q where s: "s = (lg, q)" by (cases s)
    obtain t p where e: "e = (t, p)" by (cases e)
    have p: "p \<in> ?E" using I s e by force
    then obtain tm where tm0: "tq_heap q0 p = Some tm" using deref_ex [OF ok] by blast
    have okq: "tq_ok ?E q" and fr: "tq_frame ?E q0 q" using I s by simp_all
    have tm: "tq_heap q p = Some tm" using fr p tm0 unfolding tq_frame_def by metis
    have "post {BadAlloc} (timer_run alloc prog p (lg, q)) (?I rest)"
      by (rule post_mono [OF timer_run_ok [OF okq al p tm]])
        (use I s e tm0 in \<open>auto simp: tq_entry_def intro: tq_frame_trans\<close>)
    then show "post {BadAlloc} ((case e of (t, p) \<Rightarrow> timer_run alloc prog p) s) (?I rest)"
      by (simp add: e s)
  qed
  then show ?thesis by (rule post_mono) auto
qed

text \<open>What becomes of a timer in flight: restarted or deleted.\<close>

definition tq_outcome :: "timestamp \<Rightarrow> 'cb timer_queue \<Rightarrow> nat \<Rightarrow> 'cb timer option" where
  "tq_outcome now q p = (case tq_heap q p of None \<Rightarrow> None
     | Some tm \<Rightarrow> if tm_repeat tm \<and> (p, tm_sequence tm) \<notin> tq_canceling q
         then Some (timer_restart now tm) else None)"

lemma reset_phase:
  assumes ok: "tq_ok (snd ` set due) q0" and d: "distinct (map snd due)"
  shows "\<exists>q. fold_res (\<lambda>(t, p). reset_one now p) due q0 = Inr q \<and> tq_ok {} q \<and>
    tq_heap q = (\<lambda>p. if p \<in> snd ` set due then tq_outcome now q0 p else tq_heap q0 p) \<and>
    tq_numCreated q = tq_numCreated q0 \<and> tq_calling q = tq_calling q0 \<and>
    tq_canceling q = tq_canceling q0"
proof -
  define H where "H = (\<lambda>R p. if p \<in> snd ` set due \<and> p \<notin> R then tq_outcome now q0 p
    else tq_heap q0 p)"
  let ?I = "\<lambda>rest q. tq_ok (snd ` set rest) q \<and> distinct (map snd rest) \<and> set rest \<subseteq> set due \<and>
    tq_heap q = H (snd ` set rest) \<and>
    tq_numCreated q = tq_numCreated q0 \<and> tq_calling q = tq_calling q0 \<and>
    tq_canceling q = tq_canceling q0"
  have "post {} (fold_res (\<lambda>(t, p). reset_one now p) due q0) (?I [])"
  proof (rule post_fold_res)
    show "?I due q0" using ok d by (simp add: H_def fun_eq_iff)
  next
    fix e rest q
    assume I: "?I (e # rest) q"
    obtain t p where e: "e = (t, p)" by (cases e)
    from I have okq: "tq_ok (snd ` set (e # rest)) q" and sub: "set rest \<subseteq> set due"
      and hq: "tq_heap q = H (snd ` set (e # rest))" and cq: "tq_canceling q = tq_canceling q0"
      and ed: "e \<in> set due" and dr: "distinct (map snd rest)" and "p \<notin> snd ` set rest"
      and nq: "tq_numCreated q = tq_numCreated q0" "tq_calling q = tq_calling q0"
      using e by simp_all
    then have p: "p \<in> snd ` set (e # rest)" "p \<in> snd ` set due"
      and del: "snd ` set (e # rest) - {p} = snd ` set rest" and pr: "p \<notin> snd ` set rest"
      using e by (force, force, simp, simp)
    obtain tm where tm: "tq_heap q p = Some tm" using deref_ex [OF okq p(1)] by blast
    then have tm0: "tq_heap q0 p = Some tm" using p(1) by (simp only: hq H_def simp_thms if_False)
    from reset_one_ok [OF okq p(1) tm, of now, unfolded del] obtain q' where q':
      "reset_one now p q = Inr q'" "tq_ok (snd ` set rest) q'"
      "tq_heap q' = (tq_heap q)(p := if tm_repeat tm \<and> (p, tm_sequence tm) \<notin> tq_canceling q
        then Some (timer_restart now tm) else None)"
      "tq_numCreated q' = tq_numCreated q" "tq_calling q' = tq_calling q"
      "tq_canceling q' = tq_canceling q" by blast
    have "tq_heap q' r = H (snd ` set rest) r" for r
    proof (cases "r = p")
      case True
      have "tq_heap q' p = tq_outcome now q0 p"
        using q'(3) tm0 cq by (simp add: tq_outcome_def)
      with True p(2) pr show ?thesis by (simp add: H_def)
    next
      case False
      then have "tq_heap q' r = tq_heap q r" using q'(3) by simp
      moreover have "r \<in> snd ` set (e # rest) \<longleftrightarrow> r \<in> snd ` set rest"
        using False e by simp
      ultimately show ?thesis by (simp only: hq H_def)
    qed
    then have "tq_heap q' = H (snd ` set rest)" by (intro ext)
    then show "post {} ((case e of (t, p) \<Rightarrow> reset_one now p) q) (?I rest)"
      using q' e dr sub nq cq by simp
  qed
  then show ?thesis unfolding post_empty by (auto simp: H_def)
qed

text \<open>Which identifiers end up in the cancelling set.\<close>

lemma addTimer_canceling:
  "addTimer alloc cb w iv now tq = Inr (tid, tq') \<Longrightarrow> tq_canceling tq' = tq_canceling tq"
  by (auto simp: addTimer_def createTimer_def addTimerInLoop_def tq_insert_def resetTimerfd_def
      deref_def res_simps Let_def split: option.splits if_splits)

lemma exec_cmd_canceling:
  assumes "exec_cmd alloc c tq = Inr tq'"
  shows "tq_canceling tq' \<subseteq> tq_canceling tq \<union> {tid. c = CCancel tid}"
proof (cases c)
  case (CAdd cb w iv now)
  with assms addTimer_canceling [of alloc cb w iv now tq] show ?thesis
    by (auto simp: res_simps)
next
  case (CCancel tid)
  with assms show ?thesis
    by (auto simp: cancelInLoop_def deref_def res_simps split: option.splits if_splits)
qed

lemma cancel_in_flight:
  assumes "tq_ok ex tq" and "fst tid \<in> ex" and "tq_calling tq"
    and "exec_cmd alloc (CCancel tid) tq = Inr tq'"
  shows "tid \<in> tq_canceling tq'"
proof -
  have "tid \<notin> tq_active tq" using tq_okD(5) [OF assms(1), of "fst tid" "snd tid"] assms(2) by auto
  with assms(3,4) show ?thesis by (auto simp: cancelInLoop_def)
qed

text \<open>A callback of the program that cancels \<open>tid\<close> whatever the queue holds, or never does.\<close>

definition cancels :: "('cb \<Rightarrow> 'cb timer_queue \<Rightarrow> 'cb timer_cmd list) \<Rightarrow> timer_id \<Rightarrow> 'cb \<Rightarrow> bool" where
  "cancels prog tid cb \<longleftrightarrow> (\<forall>q. CCancel tid \<in> set (prog cb q))"

definition spares :: "('cb \<Rightarrow> 'cb timer_queue \<Rightarrow> 'cb timer_cmd list) \<Rightarrow> timer_id \<Rightarrow> 'cb \<Rightarrow> bool" where
  "spares prog tid cb \<longleftrightarrow> (\<forall>q. CCancel tid \<notin> set (prog cb q))"

lemma timer_run_canceling:
  assumes ok: "tq_ok ex tq" and al: "alloc_ok alloc" and p: "p \<in> ex" and tm: "tq_heap tq p = Some tm"
  shows "post {BadAlloc} (timer_run alloc prog p (lg, tq)) (\<lambda>(lg', tq').
    (spares prog tid (tm_callback tm) \<longrightarrow> tid \<notin> tq_canceling tq \<longrightarrow> tid \<notin> tq_canceling tq') \<and>
    (cancels prog tid (tm_callback tm) \<longrightarrow> fst tid \<in> ex \<longrightarrow> tq_calling tq \<longrightarrow>
      tid \<in> tq_canceling tq'))"
proof -
  let ?cs = "prog (tm_callback tm) tq"
  let ?I = "\<lambda>rest q. tq_ok ex q \<and> tq_frame ex tq q \<and> set rest \<subseteq> set ?cs \<and>
    (CCancel tid \<notin> set ?cs \<longrightarrow> tid \<notin> tq_canceling tq \<longrightarrow> tid \<notin> tq_canceling q) \<and>
    (CCancel tid \<in> set ?cs \<longrightarrow> fst tid \<in> ex \<longrightarrow> tq_calling tq \<longrightarrow>
      CCancel tid \<in> set rest \<or> tid \<in> tq_canceling q)"
  have "post {BadAlloc} (fold_res (exec_cmd alloc) ?cs tq) (?I [])"
  proof (rule post_fold_res)
    show "?I ?cs tq" using ok by simp
  next
    fix c rest q
    assume I: "?I (c # rest) q"
    then have okq: "tq_ok ex q" and fr: "tq_frame ex tq q" by blast+
    show "post {BadAlloc} (exec_cmd alloc c q) (?I rest)"
    proof (rule post_mono [OF exec_cmd_ok [OF okq al]])
      fix q'
      assume e: "exec_cmd alloc c q = Inr q'"
        and "tq_ok ex q' \<and> tq_frame ex q q' \<and> (tq_pos q \<and> cmd_pos c \<longrightarrow> tq_pos q')"
      then have ok': "tq_ok ex q'" and fr': "tq_frame ex q q'" by blast+
      have mono: "tq_canceling q \<subseteq> tq_canceling q'" and call: "tq_calling q = tq_calling tq"
        using fr fr' by (auto simp: tq_frame_def)
      have new: "tid \<in> tq_canceling q'" if "c = CCancel tid" "fst tid \<in> ex" "tq_calling tq"
        using cancel_in_flight [OF okq that(2)] e that call by simp
      have "CCancel tid \<notin> set ?cs \<Longrightarrow> c \<noteq> CCancel tid" using I by auto
      then show "?I rest q'"
        using I ok' mono new exec_cmd_canceling [OF e] tq_frame_trans [OF fr fr'] by auto
    qed
  qed
  then have "post {BadAlloc} (fold_res (exec_cmd alloc) ?cs tq) (\<lambda>q.
      (CCancel tid \<notin> set ?cs \<longrightarrow> tid \<notin> tq_canceling tq \<longrightarrow> tid \<notin> tq_canceling q) \<and>
      (CCancel tid \<in> set ?cs \<longrightarrow> fst tid \<in> ex \<longrightarrow> tq_calling tq \<longrightarrow> tid \<in> tq_canceling q))"
    by (rule post_mono) simp
  then show ?thesis
    using tm unfolding timer_run_def by (auto intro!: post_bind simp: spares_def cancels_def)
qed

lemma post_conj: "post E r P \<Longrightarrow> post E r Q \<Longrightarrow> post E r (\<lambda>x. P x \<and> Q x)"
  by (cases r) auto

lemma run_phase_canceling:
  fixes q0 :: "'a timer_queue"
  assumes ok: "tq_ok (snd ` set due) q0" and al: "alloc_ok alloc" and call: "tq_calling q0"
    and tid: "fst tid \<in> snd ` set due"
  shows "post {BadAlloc} (fold_res (\<lambda>(t, p). timer_run alloc prog p) due ([], q0)) (\<lambda>(lg, q).
    ((\<forall>e\<in>set due. spares prog tid (snd (tq_entry q0 e))) \<longrightarrow> tid \<notin> tq_canceling q0 \<longrightarrow>
      tid \<notin> tq_canceling q) \<and>
    ((\<exists>e\<in>set due. cancels prog tid (snd (tq_entry q0 e))) \<longrightarrow> tid \<in> tq_canceling q))"
proof -
  let ?E = "snd ` set due"
  let ?c = "\<lambda>e. cancels prog tid (snd (tq_entry q0 e))" and ?s = "\<lambda>e. spares prog tid (snd (tq_entry q0 e))"
  let ?I = "\<lambda>rest (lg :: (int \<times> 'a) list, q :: 'a timer_queue). tq_ok ?E q \<and>
    tq_frame ?E q0 q \<and> set rest \<subseteq> set due \<and>
    ((\<forall>e\<in>set due. ?s e) \<longrightarrow> tid \<notin> tq_canceling q0 \<longrightarrow> tid \<notin> tq_canceling q) \<and>
    ((\<exists>e\<in>set due. ?c e) \<longrightarrow> (\<exists>e\<in>set rest. ?c e) \<or> tid \<in> tq_canceling q)"
  have "post {BadAlloc} (fold_res (\<lambda>(t, p). timer_run alloc prog p) due ([], q0)) (?I [])"
  proof (rule post_fold_res)
    show "?I due ([], q0)" using ok by simp
  next
    fix e rest s
    assume I: "?I (e # rest) s"
    obtain lg q where s: "s = (lg, q)" by (cases s)
    obtain t p where e: "e = (t, p)" by (cases e)
    have p: "p \<in> ?E" using I s e by force
    then obtain tm where tm0: "tq_heap q0 p = Some tm" using deref_ex [OF ok] by blast
    have okq: "tq_ok ?E q" and fr: "tq_frame ?E q0 q" using I s by simp_all
    have tm: "tq_heap q p = Some tm" using fr p tm0 unfolding tq_frame_def by metis
    have en: "snd (tq_entry q0 e) = tm_callback tm" using tm0 e by (simp add: tq_entry_def)
    have cq: "tq_calling q" using fr call by (simp add: tq_frame_def)
    have "post {BadAlloc} (timer_run alloc prog p (lg, q)) (?I rest)"
    proof (rule post_mono [OF post_conj [OF timer_run_ok [OF okq al p tm]
          timer_run_canceling [OF okq al p tm, where tid = tid]]], clarify, goal_cases)
      case (1 lg' q')
      then have "tq_canceling q \<subseteq> tq_canceling q'" "tq_frame ?E q0 q'"
        using fr by (auto simp: tq_frame_def intro: tq_frame_trans tq_hist_trans)
      with 1 I s en cq tid show ?case by auto
    qed
    then show "post {BadAlloc} ((case e of (t, p) \<Rightarrow> timer_run alloc prog p) s) (?I rest)"
      by (simp add: e s)
  qed
  then show ?thesis by (rule post_mono) auto
qed

text \<open>The timer descriptor is armed no later than the earliest expiration.\<close>

definition tq_armed_ok :: "'cb timer_queue \<Rightarrow> bool" where
  "tq_armed_ok tq \<longleftrightarrow> (tq_timers tq \<noteq> [] \<longrightarrow>
     (\<exists>w d. tq_armed tq = Some (w, d) \<and> (\<forall>e\<in>set (tq_timers tq). w \<le> fst e)))"

lemma addTimer_armed:
  assumes "tq_armed_ok tq" and "tq_timers tq' = insort_insert (when, p) (tq_timers tq)"
    and "tq_armed tq' = (if \<forall>e\<in>set (tq_timers tq). when < fst e
      then Some (when, howMuchTimeFromNow when now) else tq_armed tq)"
    and "sorted (tq_timers tq)"
  shows "tq_armed_ok tq'"
proof (cases "\<forall>e\<in>set (tq_timers tq). when < fst e")
  case True
  then have "\<forall>e\<in>set (tq_timers tq'). when \<le> fst e" using assms(2)
    by (fastforce simp: set_insort_insert)
  with True assms(3) show ?thesis by (simp add: tq_armed_ok_def)
next
  case False
  then obtain e where e: "e \<in> set (tq_timers tq)" "fst e \<le> when" by (auto simp: not_less)
  then obtain w d where w: "tq_armed tq = Some (w, d)" "\<forall>e\<in>set (tq_timers tq). w \<le> fst e"
    using assms(1) by (auto simp: tq_armed_ok_def)
  moreover have "w \<le> when" using w(2) e by force
  moreover have "tq_armed tq' = tq_armed tq" using assms(3) False by auto
  ultimately show ?thesis using assms(2) by (auto simp: tq_armed_ok_def set_insort_insert)
qed

lemma tq_reset_ok:
  assumes ok: "tq_ok (snd ` set due) q0" and d: "distinct (map snd due)"
  shows "\<exists>q. tq_reset due now now' q0 = Inr q \<and> tq_ok {} q \<and>
    (\<forall>p\<in>snd ` set due. tq_heap q p = tq_outcome now q0 p) \<and>
    (\<forall>p. p \<notin> snd ` set due \<longrightarrow> tq_heap q p = tq_heap q0 p) \<and>
    tq_numCreated q = tq_numCreated q0 \<and> tq_calling q = tq_calling q0 \<and>
    tq_canceling q = tq_canceling q0 \<and> (tq_pos q \<longrightarrow> tq_armed_ok q)"
proof -
  from reset_phase [OF assms, of now] obtain q where q:
    "fold_res (\<lambda>(t, p). reset_one now p) due q0 = Inr q" "tq_ok {} q"
    "tq_heap q = (\<lambda>p. if p \<in> snd ` set due then tq_outcome now q0 p else tq_heap q0 p)"
    "tq_numCreated q = tq_numCreated q0" "tq_calling q = tq_calling q0"
    "tq_canceling q = tq_canceling q0" by blast
  show ?thesis
  proof (cases "tq_timers q")
    case Nil
    then have "tq_reset due now now' q0 = Inr q"
      using q(1) by (simp add: tq_reset_def ts_valid_def ts_invalid_def)
    with q Nil show ?thesis by (simp add: tq_armed_ok_def)
  next
    case (Cons e es)
    obtain t p where e: "e = (t, p)" by (cases e)
    then obtain tm where tm: "tq_heap q p = Some tm" "tm_expiration tm = t"
      using deref_timers [OF q(2), of t p] Cons by auto
    define q' where "q' = (if ts_valid t then resetTimerfd t now' q else q)"
    have same: "tq_ok {} q'" "tq_heap q' = tq_heap q" "tq_numCreated q' = tq_numCreated q"
      "tq_calling q' = tq_calling q" "tq_canceling q' = tq_canceling q" "tq_timers q' = tq_timers q"
      using q(2) by (auto simp: q'_def resetTimerfd_def tq_ok_def)
    have run: "tq_reset due now now' q0 = Inr q'"
      using q(1) Cons e tm by (simp add: tq_reset_def q'_def)
    have "tq_armed_ok q'" if "tq_pos q'"
    proof -
      have "ts_valid t" using that tm same(2) by (auto simp: tq_pos_def ts_valid_def)
      then have "tq_armed q' = Some (t, howMuchTimeFromNow t now')"
        by (simp add: q'_def resetTimerfd_def)
      moreover have "\<forall>x\<in>set (tq_timers q'). t \<le> fst x"
        using tq_okD(1) [OF q(2)] Cons e same(6) by (auto simp: less_eq_prod_def)
      ultimately show ?thesis by (simp add: tq_armed_ok_def)
    qed
    with run same q show ?thesis by auto
  qed
qed

lemma handleRead_ok:
  fixes tq :: "'a timer_queue"
  assumes ok: "tq_ok {} tq" and al: "alloc_ok alloc"
  shows "post {BadAlloc} (tq_handleRead alloc prog now now' tq) (\<lambda>(lg, tq').
    tq_ok {} tq' \<and> tq_hist tq tq' \<and> \<not> tq_calling tq' \<and> lg = map (tq_entry tq) (tq_due now tq) \<and>
    (tq_pos tq \<and> prog_pos prog \<and> 0 < now \<longrightarrow> tq_pos tq' \<and> tq_armed_ok tq') \<and>
    (\<forall>t p tm. (t, p) \<in> set (tq_due now tq) \<longrightarrow> tq_heap tq p = Some tm \<longrightarrow>
      (\<not> tm_repeat tm \<longrightarrow> tq_heap tq' p = None) \<and>
      ((\<exists>e\<in>set (tq_due now tq). cancels prog (p, tm_sequence tm) (snd (tq_entry tq e))) \<longrightarrow>
        tq_heap tq' p = None) \<and>
      ((\<forall>e\<in>set (tq_due now tq). spares prog (p, tm_sequence tm) (snd (tq_entry tq e))) \<longrightarrow>
        tq_heap tq' p = (if tm_repeat tm then Some (timer_restart now tm) else None))))"
proof -
  let ?due = "tq_due now tq"
  let ?E = "snd ` set ?due"
  have okr: "tq_ok {} (readTimerfd tq)" using ok by (simp add: tq_ok_def readTimerfd_def)
  have due: "tq_due now (readTimerfd tq) = ?due" by (simp add: tq_due_def readTimerfd_def)
  from getExpired_ok [OF okr, of now, unfolded due] obtain q1 where q1:
    "getExpired now (readTimerfd tq) = Inr (?due, q1)" "tq_ok ?E q1" "distinct (map snd ?due)"
    "tq_heap q1 = tq_heap tq" "tq_numCreated q1 = tq_numCreated tq"
    by (auto simp: readTimerfd_def)
  define q0 where "q0 = q1\<lparr>tq_calling := True, tq_canceling := {}\<rparr>"
  have ok0: "tq_ok ?E q0" using q1(2) by (simp add: tq_ok_def q0_def)
  have h0: "tq_heap q0 = tq_heap tq" "tq_numCreated q0 = tq_numCreated tq"
    using q1 by (simp_all add: q0_def)
  then have en: "tq_entry q0 = tq_entry tq" by (simp add: tq_entry_def fun_eq_iff)
  have call0: "tq_calling q0" and can0: "tq_canceling q0 = {}" by (simp_all add: q0_def)
  let ?run = "fold_res (\<lambda>(t, p). timer_run alloc prog p) ?due ([], q0)"
  show ?thesis
  proof (cases ?run)
    case (Inl e)
    with run_phase [OF ok0 al, of prog] have "e = BadAlloc" by simp
    with Inl q1(1) show ?thesis by (simp add: tq_handleRead_def q0_def)
  next
    case (Inr s)
    obtain lg q2 where s: "s = (lg, q2)" by (cases s)
    from run_phase [OF ok0 al, of prog] Inr s have q2: "tq_ok ?E q2" "tq_frame ?E q0 q2"
      "lg = map (tq_entry tq) ?due" "tq_pos q0 \<and> prog_pos prog \<longrightarrow> tq_pos q2" by (simp_all add: en)
    have ok2: "tq_ok ?E (q2\<lparr>tq_calling := False\<rparr>)" using q2(1) by (simp add: tq_ok_def)
    from tq_reset_ok [OF ok2 q1(3), of now now'] obtain q3 where q3:
      "tq_reset ?due now now' (q2\<lparr>tq_calling := False\<rparr>) = Inr q3" "tq_ok {} q3"
      "\<forall>p\<in>?E. tq_heap q3 p = tq_outcome now (q2\<lparr>tq_calling := False\<rparr>) p"
      "\<forall>p. p \<notin> ?E \<longrightarrow> tq_heap q3 p = tq_heap q2 p" "tq_numCreated q3 = tq_numCreated q2"
      "\<not> tq_calling q3" "tq_pos q3 \<longrightarrow> tq_armed_ok q3" by auto
    have run: "tq_handleRead alloc prog now now' tq = Inr (lg, q3)"
      using q1(1) Inr s q3(1) by (simp add: tq_handleRead_def q0_def)
    have out: "tq_heap q3 p = (if tm_repeat tm \<and> (p, tm_sequence tm) \<notin> tq_canceling q2
        then Some (timer_restart now tm) else None)"
      if "p \<in> ?E" "tq_heap tq p = Some tm" for p tm
    proof -
      have "tq_heap q2 p = tq_heap q0 p" using q2(2) that(1) unfolding tq_frame_def by blast
      then have "tq_heap q2 p = Some tm" using that(2) h0 by simp
      with q3(3) that(1) show ?thesis by (auto simp: tq_outcome_def)
    qed
    have pos3: "tq_pos q3" if ps: "tq_pos tq" "prog_pos prog" "0 < now"
    proof -
      have "tq_pos q0" using that(1) h0 by (simp add: tq_pos_def)
      then have p2: "tq_pos q2" using q2(4) that(2) by blast
      have "0 < tm_expiration tm \<and> (tm_repeat tm \<longrightarrow> 0 < tm_interval tm)"
        if h: "tq_heap q3 p = Some tm" for p tm
      proof (cases "p \<in> ?E")
        case False
        with h q3(4) p2 show ?thesis by (simp add: tq_pos_def)
      next
        case True
        then obtain a where a: "tq_heap tq p = Some a" using deref_ex [OF ok0] h0 by metis
        with out [OF True a] h have "tm_repeat a" "tm = timer_restart now a"
          by (simp_all split: if_splits)
        moreover have "0 < tm_interval a" using a ps(1) \<open>tm_repeat a\<close> by (simp add: tq_pos_def)
        ultimately show ?thesis using \<open>0 < now\<close> addTime_later [of "tm_interval a" now]
          by (simp add: timer_restart_def)
      qed
      then show ?thesis by (simp add: tq_pos_def)
    qed
    have hist: "tq_hist tq q3"
    proof -
      have "tq_hist tq q2"
      proof (rule tq_hist_trans)
        show "tq_hist tq q0" using h0 by (auto simp: tq_hist_def)
        show "tq_hist q0 q2" using q2(2) by (simp add: tq_frame_def)
      qed
      moreover have "\<exists>a. tq_heap q2 p = Some a \<and> tm_sequence a = tm_sequence tm \<and>
          tm_callback a = tm_callback tm" if h: "tq_heap q3 p = Some tm" for p tm
      proof (cases "p \<in> ?E")
        case False
        with h q3(4) show ?thesis by simp
      next
        case True
        then have "tq_heap q3 p = tq_outcome now (q2\<lparr>tq_calling := False\<rparr>) p" using q3(3) by blast
        with h show ?thesis
          by (auto simp: tq_outcome_def timer_restart_def split: option.splits if_splits)
      qed
      then have "tq_hist q2 q3" using q3(5) by (simp add: tq_hist_def)
      ultimately show ?thesis by (rule tq_hist_trans)
    qed
    have can: "(\<not> tm_repeat tm \<longrightarrow> tq_heap q3 p = None) \<and> ((\<exists>e\<in>set ?due. cancels prog (p, tm_sequence tm) (snd (tq_entry tq e))) \<longrightarrow>
        tq_heap q3 p = None) \<and>
      ((\<forall>e\<in>set ?due. spares prog (p, tm_sequence tm) (snd (tq_entry tq e))) \<longrightarrow>
        tq_heap q3 p = (if tm_repeat tm then Some (timer_restart now tm) else None))"
      if d: "(t, p) \<in> set ?due" and tm: "tq_heap tq p = Some tm" for t p tm
    proof -
      have p: "p \<in> ?E" using d by force
      then have "fst (p, tm_sequence tm) \<in> ?E" by simp
      from run_phase_canceling [OF ok0 al call0 this, of prog] Inr s can0
      have "((\<forall>e\<in>set ?due. spares prog (p, tm_sequence tm) (snd (tq_entry tq e))) \<longrightarrow>
            (p, tm_sequence tm) \<notin> tq_canceling q2) \<and>
          ((\<exists>e\<in>set ?due. cancels prog (p, tm_sequence tm) (snd (tq_entry tq e))) \<longrightarrow>
            (p, tm_sequence tm) \<in> tq_canceling q2)" by (simp only: en) simp
      with out [OF p tm] show ?thesis by auto
    qed
    show ?thesis using run hist can pos3 q3(2,6,7) q2(3) by simp
  qed
qed

subsection \<open>Histories\<close>

text \<open>What the loop thread does to the queue: add, cancel, or handle the expired descriptor.\<close>

datatype 'cb tq_op = OpAdd 'cb timestamp rat timestamp | OpCancel timer_id | OpFire timestamp timestamp

fun tq_step :: "((nat \<Rightarrow> 'cb timer option) \<Rightarrow> nat option) \<Rightarrow> ('cb \<Rightarrow> 'cb timer_queue \<Rightarrow> 'cb timer_cmd list)
    \<Rightarrow> 'cb tq_op \<Rightarrow> (int \<times> 'cb) list \<times> 'cb timer_queue \<Rightarrow> ((int \<times> 'cb) list \<times> 'cb timer_queue) res" where
  "tq_step alloc prog (OpAdd cb when interval now) (lg, tq) =
     bind_res (addTimer alloc cb when interval now tq) (\<lambda>(_, tq'). Inr (lg, tq'))"
| "tq_step alloc prog (OpCancel tid) (lg, tq) = bind_res (cancelInLoop tid tq) (\<lambda>tq'. Inr (lg, tq'))"
| "tq_step alloc prog (OpFire now now') (lg, tq) =
     bind_res (tq_handleRead alloc prog now now' tq) (\<lambda>(l, tq'). Inr (lg @ l, tq'))"

definition tq_run :: "((nat \<Rightarrow> 'cb timer option) \<Rightarrow> nat option) \<Rightarrow> ('cb \<Rightarrow> 'cb timer_queue \<Rightarrow> 'cb timer_cmd list)
    \<Rightarrow> 'cb tq_op list \<Rightarrow> 'cb timer_queue \<Rightarrow> ((int \<times> 'cb) list \<times> 'cb timer_queue) res" where
  "tq_run alloc prog ops tq = fold_res (tq_step alloc prog) ops ([], tq)"

fun op_pos :: "'cb tq_op \<Rightarrow> bool" where
  "op_pos (OpAdd cb when interval now) \<longleftrightarrow> 0 < when"
| "op_pos (OpCancel tid) \<longleftrightarrow> True"
| "op_pos (OpFire now now') \<longleftrightarrow> 0 < now"

text \<open>A log entry of a history names a timer that was there at its start or was created in it.\<close>

definition log_ok :: "'cb timer_queue \<Rightarrow> (int \<times> 'cb) list \<Rightarrow> bool" where
  "log_ok tq lg \<longleftrightarrow> (\<forall>(s, cb)\<in>set lg. tq_numCreated tq \<le> s \<or>
     (\<exists>p a. tq_heap tq p = Some a \<and> tm_sequence a = s \<and> tm_callback a = cb))"

lemma log_ok_hist: "log_ok b lg \<Longrightarrow> tq_hist a b \<Longrightarrow> log_ok a lg"
  unfolding log_ok_def tq_hist_def by (fastforce dest: order_trans)

lemma log_ok_due: "tq_ok {} tq \<Longrightarrow> log_ok tq (map (tq_entry tq) (tq_due now tq))"
  unfolding log_ok_def tq_due_def tq_entry_def Let_def by (force dest!: deref_timers)

lemma log_ok_Nil [simp]: "log_ok tq []"
  by (simp add: log_ok_def)

lemma log_ok_append: "log_ok tq (k @ l) \<longleftrightarrow> log_ok tq k \<and> log_ok tq l"
  unfolding log_ok_def set_append by (rule ball_Un)

lemma tq_pos_add:
  "tq_pos tq \<Longrightarrow> 0 < w \<Longrightarrow> tq_heap tq' = (tq_heap tq)(p \<mapsto> new_Timer cb w iv s) \<Longrightarrow> tq_pos tq'"
  by (auto simp: tq_pos_def new_Timer_def split: if_splits)

lemma tq_step_ok:
  assumes ok: "tq_ok {} tq" and al: "alloc_ok alloc" and nc: "\<not> tq_calling tq"
  shows "post {BadAlloc} (tq_step alloc prog op (lg, tq)) (\<lambda>(lg', tq').
    tq_ok {} tq' \<and> tq_hist tq tq' \<and> \<not> tq_calling tq' \<and> (\<exists>l. lg' = lg @ l \<and> log_ok tq l) \<and>
    (tq_pos tq \<and> tq_armed_ok tq \<and> prog_pos prog \<and> op_pos op \<longrightarrow> tq_pos tq' \<and> tq_armed_ok tq'))"
proof (cases op)
  case (OpAdd cb w iv now)
  have "post {BadAlloc} (addTimer alloc cb w iv now tq) (\<lambda>(i, tq'). tq_ok {} tq' \<and> tq_hist tq tq' \<and>
      \<not> tq_calling tq' \<and> (tq_pos tq \<and> 0 < w \<longrightarrow> tq_pos tq') \<and> (tq_armed_ok tq \<longrightarrow> tq_armed_ok tq'))"
    by (rule post_mono [OF addTimer_ok [OF ok al]])
      (use nc in \<open>auto simp: tq_frame_def intro: addTimer_armed tq_okD(1) [OF ok] tq_pos_add\<close>)
  then show ?thesis unfolding OpAdd tq_step.simps by (auto intro!: post_bind)
next
  case (OpCancel tid)
  from cancelInLoop_ok [OF ok, of tid] obtain tq' where tq': "cancelInLoop tid tq = Inr tq'"
    "tq_ok {} tq'" "tq_frame {} tq tq'" "tq_armed tq' = tq_armed tq"
    "tq_heap tq' = (if tid \<in> tq_active tq then (tq_heap tq)(fst tid := None) else tq_heap tq)"
    "set (tq_timers tq') \<subseteq> set (tq_timers tq)" by blast
  have "tq_pos tq \<Longrightarrow> tq_pos tq'" using tq'(5) by (auto simp: tq_pos_def split: if_splits)
  moreover have "tq_armed_ok tq \<Longrightarrow> tq_armed_ok tq'" using tq'(4,6)
    by (auto simp: tq_armed_ok_def)
  ultimately show ?thesis using OpCancel tq' nc by (simp add: tq_frame_def)
next
  case (OpFire now now')
  have "post {BadAlloc} (tq_handleRead alloc prog now now' tq) (\<lambda>(l, tq'). tq_ok {} tq' \<and>
      tq_hist tq tq' \<and> \<not> tq_calling tq' \<and> log_ok tq l \<and>
      (tq_pos tq \<and> prog_pos prog \<and> 0 < now \<longrightarrow> tq_pos tq' \<and> tq_armed_ok tq'))"
    by (rule post_mono [OF handleRead_ok [OF ok al]]) (auto simp: log_ok_due [OF ok])
  then show ?thesis unfolding OpFire tq_step.simps
    by (rule post_bind) auto
qed

lemma tq_run_ok:
  fixes tq :: "'a timer_queue"
  assumes "tq_ok {} tq" and "alloc_ok alloc" and "\<not> tq_calling tq"
  shows "post {BadAlloc} (tq_run alloc prog ops tq) (\<lambda>(lg, tq').
    tq_ok {} tq' \<and> tq_hist tq tq' \<and> \<not> tq_calling tq' \<and> log_ok tq lg \<and>
    (tq_pos tq \<and> tq_armed_ok tq \<and> prog_pos prog \<and> list_all op_pos ops \<longrightarrow> tq_pos tq' \<and> tq_armed_ok tq'))"
proof -
  let ?I = "\<lambda>rest (lg :: (int \<times> 'a) list, q :: 'a timer_queue). tq_ok {} q \<and> tq_hist tq q \<and>
    \<not> tq_calling q \<and> log_ok tq lg \<and> set rest \<subseteq> set ops \<and>
    (tq_pos tq \<and> tq_armed_ok tq \<and> prog_pos prog \<and> list_all op_pos ops \<longrightarrow> tq_pos q \<and> tq_armed_ok q)"
  have "post {BadAlloc} (fold_res (tq_step alloc prog) ops ([], tq)) (?I [])"
  proof (rule post_fold_res)
    show "?I ops ([], tq)" using assms by (simp add: log_ok_def)
  next
    fix op rest s
    assume I: "?I (op # rest) s"
    obtain lg q where s: "s = (lg, q)" by (cases s)
    then have okq: "tq_ok {} q" and nc: "\<not> tq_calling q" and h: "tq_hist tq q"
      and lg: "log_ok tq lg" and op: "list_all op_pos ops \<Longrightarrow> op_pos op"
      using I by (auto simp: list_all_iff)
    show "post {BadAlloc} (tq_step alloc prog op s) (?I rest)"
      unfolding s
      by (rule post_mono [OF tq_step_ok [OF okq assms(2) nc]])
        (use I s h op lg in \<open>auto simp: log_ok_append intro: tq_hist_trans log_ok_hist\<close>)
  qed
  then show ?thesis unfolding tq_run_def by (rule post_mono) auto
qed

lemma tq_destroy_ok:
  assumes "tq_ok {} tq"
  shows "\<exists>tq'. tq_destroy tq = Inr tq' \<and> tq_heap tq' = (\<lambda>_. None)"
proof -
  let ?I = "\<lambda>(rest :: (timestamp \<times> nat) list) q. (\<forall>p. tq_heap q p \<noteq> None \<longleftrightarrow> p \<in> snd ` set rest) \<and> distinct (map snd rest)"
  have "inj_on snd (set (tq_timers tq))"
  proof (rule inj_onI)
    fix x y
    assume xy: "x \<in> set (tq_timers tq)" "y \<in> set (tq_timers tq)" "snd x = snd y"
    obtain t u p where "x = (t, p)" "y = (u, p)" using xy(3) by (cases x; cases y) auto
    with xy(1,2) tq_okD(4) [OF assms] show "x = y" by force
  qed
  then have d: "distinct (map snd (tq_timers tq))"
    using tq_okD(2) [OF assms] by (simp add: distinct_map)
  have "tq_heap tq p \<noteq> None \<longleftrightarrow> p \<in> snd ` set (tq_timers tq)" for p
    using tq_okD(4) [OF assms, of _ p] by force
  then have i: "?I (tq_timers tq) tq" using d by blast
  have "post {} (tq_destroy tq) (?I [])"
    unfolding tq_destroy_def
    by (rule post_fold_res [where I = ?I, OF i]) (force simp: deref_def split: option.splits prod.splits)
  then show ?thesis unfolding post_empty by auto
qed

subsection \<open>Properties\<close>

text \<open>
  C15. Whatever sequence of additions, cancellations and expiries the loop performs, with callbacks
  that add and cancel timers themselves, the queue never touches a deleted timer (the only fault is
  a failing \<open>new\<close>); the ordered set, the active set and the heap agree after every history; and the
  destructor then frees every timer, so none leaks.
\<close>

theorem timer_history_safe:
  assumes "alloc_ok alloc"
  shows "post {BadAlloc} (tq_run alloc prog ops new_TimerQueue) (\<lambda>(lg, tq). tq_ok {} tq \<and>
    (\<exists>tq'. tq_destroy tq = Inr tq' \<and> tq_heap tq' = (\<lambda>_. None)))"
  by (rule post_mono [OF tq_run_ok [OF tq_ok_new assms]])
    (auto simp: new_TimerQueue_def intro: tq_destroy_ok)

text \<open>A two-cell heap and a program whose callbacks add and cancel.\<close>

definition small_alloc :: "(nat \<Rightarrow> 'cb timer option) \<Rightarrow> nat option" where
  "small_alloc h = (if h 1 = None then Some 1 else if h 2 = None then Some 2 else None)"

lemma small_alloc_ok: "alloc_ok small_alloc"
  by (simp add: alloc_ok_def small_alloc_def UINTPTR_MAX_def)

definition sample_prog :: "nat \<Rightarrow> nat timer_queue \<Rightarrow> nat timer_cmd list" where
  "sample_prog cb q = (if cb = 0 then [CAdd 7 20 0 11, CCancel (1, 0)] else [])"

definition sample_ops :: "nat tq_op list" where
  "sample_ops = [OpAdd 0 5 0 1, OpFire 11 12, OpAdd 3 30 0 13, OpFire 25 26]"

theorem timer_history_safe_witness:
  "post {} (tq_run small_alloc sample_prog sample_ops new_TimerQueue) (\<lambda>(lg, tq).
     lg = [(0, 0), (1, 7)]) \<and>
   post {BadAlloc} (tq_run small_alloc sample_prog sample_ops new_TimerQueue) (\<lambda>(lg, tq).
     tq_ok {} tq \<and> (\<exists>tq'. tq_destroy tq = Inr tq' \<and> tq_heap tq' = (\<lambda>_. None)))"
proof
  show "post {} (tq_run small_alloc sample_prog sample_ops new_TimerQueue) (\<lambda>(lg, tq).
     lg = [(0, 0), (1, 7)])" 
    by (simp add: tq_run_def sample_ops_def sample_prog_def addTimer_def createTimer_def
      small_alloc_def new_TimerQueue_def addTimerInLoop_def tq_insert_def deref_def resetTimerfd_def
      new_Timer_def tq_handleRead_def readTimerfd_def getExpired_def erase_active_def timer_run_def
      cancelInLoop_def tq_reset_def reset_one_def ts_valid_def ts_invalid_def UINTPTR_MAX_def
      insort_insert_key_def Let_def)
qed (rule timer_history_safe [OF small_alloc_ok])

text \<open>
  C23. One expiry runs exactly the timers that are due, once each and in the order of their expiration
  times, whatever the callbacks add or cancel in the meantime; what they add waits for a later
  expiry.
\<close>

theorem handleRead_runs_due:
  assumes "tq_ok {} tq" and "alloc_ok alloc"
  shows "post {BadAlloc} (tq_handleRead alloc prog now now' tq) (\<lambda>(lg, tq').
    lg = map (\<lambda>(t, p). (tm_sequence (the (tq_heap tq p)), tm_callback (the (tq_heap tq p))))
           (filter (\<lambda>(t, p). t \<le> now) (tq_timers tq)) \<and>
    distinct (map fst lg) \<and> tq_ok {} tq')"
proof (rule post_mono [OF handleRead_ok [OF assms]], clarify, goal_cases)
  case (1 lg tq')
  let ?due = "filter (\<lambda>(t, p). t \<le> now) (tq_timers tq)"
  have "inj_on (\<lambda>e. fst (tq_entry tq e)) (set ?due)"
  proof (rule inj_onI, clarify)
    fix t p u r
    assume tp: "(t, p) \<in> set ?due" and ur: "(u, r) \<in> set ?due"
      and eq: "fst (tq_entry tq (t, p)) = fst (tq_entry tq (u, r))"
    obtain a b where a: "tq_heap tq p = Some a" "tm_expiration a = t"
      and b: "tq_heap tq r = Some b" "tm_expiration b = u"
      using deref_timers [OF assms(1), of t p] deref_timers [OF assms(1), of u r] tp ur by auto
    moreover have "tm_sequence a = tm_sequence b" using eq a b by (simp add: tq_entry_def)
    ultimately have "p = r" using tq_okD(8) [OF assms(1)] by blast
    with a b show "t = u \<and> p = r" by simp
  qed
  then have "distinct (map fst (map (tq_entry tq) ?due))"
    using tq_okD(2) [OF assms(1)] by (simp add: distinct_map comp_def)
  moreover have "tq_entry tq = (\<lambda>(t, p). (tm_sequence (the (tq_heap tq p)), tm_callback (the (tq_heap tq p))))"
    by (auto simp: tq_entry_def Let_def)
  ultimately show ?case using 1 by (simp add: tq_due_def)
qed

text \<open>A queue with one repeating and one single timer due at 11, for the witnesses.\<close>

definition sample_tq :: "nat timer_queue" where
  "sample_tq = \<lparr>tq_timers = [(5, 1), (9, 2), (40, 3)], tq_active = {(1, 0), (2, 1), (3, 2)},
     tq_calling = False, tq_canceling = {},
     tq_heap = [1 \<mapsto> new_Timer 0 5 60 0, 2 \<mapsto> new_Timer 3 9 0 1, 3 \<mapsto> new_Timer 4 40 0 2],
     tq_numCreated = 3, tq_armed = None\<rparr>"

lemma sample_tq_ok: "tq_ok {} sample_tq"
  by (rule tq_okI) (auto simp: sample_tq_def new_Timer_def UINTPTR_MAX_def split: if_splits)

theorem handleRead_runs_due_witness:
  "post {BadAlloc} (tq_handleRead small_alloc sample_prog 11 12 sample_tq) (\<lambda>(lg, tq').
     lg = [(0, 0), (1, 3)] \<and> tq_ok {} tq')"
  by (rule post_mono [OF handleRead_runs_due [OF sample_tq_ok small_alloc_ok]])
    (auto simp: sample_tq_def new_Timer_def)

text \<open>
  What an expiry leaves of a timer that ran: it is deleted if it was a single one or if a
  callback of the same expiry cancelled it (a repeating timer may cancel itself), and otherwise it
  is restarted at the time of the expiry plus its interval.
\<close>

theorem handleRead_outcome:
  assumes "tq_ok {} tq" and "alloc_ok alloc"
    and "(t, p) \<in> set (tq_timers tq)" and "t \<le> now" and "tq_heap tq p = Some tm"
  shows "post {BadAlloc} (tq_handleRead alloc prog now now' tq) (\<lambda>(lg, tq').
    (\<not> tm_repeat tm \<longrightarrow> tq_heap tq' p = None) \<and>
    ((\<exists>x\<in>set lg. cancels prog (p, tm_sequence tm) (snd x)) \<longrightarrow> tq_heap tq' p = None) \<and>
    (tm_repeat tm \<and> (\<forall>x\<in>set lg. spares prog (p, tm_sequence tm) (snd x)) \<longrightarrow>
       tq_heap tq' p = Some (tm\<lparr>tm_expiration := addTime now (tm_interval tm)\<rparr>)))"
proof (rule post_mono [OF handleRead_ok [OF assms(1,2)]], clarify, goal_cases)
  case (1 lg tq')
  have "(t, p) \<in> set (tq_due now tq)" using assms(3,4) by (simp add: tq_due_def)
  with 1 assms(5) show ?case by (simp add: timer_restart_def)
qed

theorem handleRead_outcome_witness:
  "post {BadAlloc} (tq_handleRead small_alloc sample_prog 11 12 sample_tq)
     (\<lambda>(lg, tq'). tq_heap tq' 2 = None) \<and>
   post {BadAlloc} (tq_handleRead small_alloc (\<lambda>cb q. if cb = 3 then [CCancel (1, 0)] else []) 11 12 sample_tq)
     (\<lambda>(lg, tq'). (\<exists>x\<in>set lg. snd x = 3) \<longrightarrow> tq_heap tq' 1 = None) \<and>
   post {BadAlloc} (tq_handleRead small_alloc (\<lambda>_ _. []) 11 12 sample_tq) (\<lambda>(lg, tq').
     tq_heap tq' 1 = Some ((new_Timer 0 5 60 0)\<lparr>tm_expiration := addTime 11 60\<rparr>))"
proof (intro conjI)
  have h: "(5, 1) \<in> set (tq_timers sample_tq)" "(9, 2) \<in> set (tq_timers sample_tq)"
    "tq_heap sample_tq 1 = Some (new_Timer 0 5 60 0)" "tq_heap sample_tq 2 = Some (new_Timer 3 9 0 1)"
    by (simp_all add: sample_tq_def)
  show "post {BadAlloc} (tq_handleRead small_alloc sample_prog 11 12 sample_tq)
      (\<lambda>(lg, tq'). tq_heap tq' 2 = None)"
    by (rule post_mono [OF handleRead_outcome [OF sample_tq_ok small_alloc_ok h(2) _ h(4)]])
      (auto simp: new_Timer_def)
  show "post {BadAlloc} (tq_handleRead small_alloc (\<lambda>cb q. if cb = 3 then [CCancel (1, 0)] else []) 11 12 sample_tq)
     (\<lambda>(lg, tq'). (\<exists>x\<in>set lg. snd x = 3) \<longrightarrow> tq_heap tq' 1 = None)"
    by (rule post_mono [OF handleRead_outcome [OF sample_tq_ok small_alloc_ok h(1) _ h(3)]])
      (auto simp: new_Timer_def cancels_def)
  show "post {BadAlloc} (tq_handleRead small_alloc (\<lambda>_ _. []) 11 12 sample_tq) (\<lambda>(lg, tq').
     tq_heap tq' 1 = Some ((new_Timer 0 5 60 0)\<lparr>tm_expiration := addTime 11 60\<rparr>))"
    by (rule post_mono [OF handleRead_outcome [OF sample_tq_ok small_alloc_ok h(1) _ h(3)]])
      (auto simp: new_Timer_def spares_def)
qed

text \<open>
  C16. A cancelled timer never runs again. Between the cancellation and any later time its address may
  be reused for other timers any number of times; no entry of any later history carries its sequence
  number.
\<close>

theorem cancelled_never_runs:
  assumes "alloc_ok alloc" and "tq_run alloc prog ops1 new_TimerQueue = Inr (l1, tq1)"
    and "addTimer alloc cb when interval now tq1 = Inr (tid, tq2)"
    and "tq_run alloc prog ops2 tq2 = Inr (l2, tq3)" and "cancelInLoop tid tq3 = Inr tq4"
    and "tq_run alloc prog ops3 tq4 = Inr (l3, tq5)"
  shows "snd tid \<notin> fst ` set l3"
proof -
  obtain p s where tid: "tid = (p, s)" by (cases tid)
  have 1: "tq_ok {} tq1" "\<not> tq_calling tq1"
    using postD [OF tq_run_ok [OF tq_ok_new assms(1)] assms(2)] by (auto simp: new_TimerQueue_def)
  have 2: "tq_ok {} tq2" "\<not> tq_calling tq2" "tq_heap tq2 p = Some (new_Timer cb when interval s)"
      "tq_numCreated tq2 = s + 1"
    using postD [OF addTimer_ok [OF 1(1) assms(1)] assms(3)] 1(2) tid by (auto simp: tq_frame_def)
  have 3: "tq_ok {} tq3" "tq_hist tq2 tq3" "\<not> tq_calling tq3"
    using postD [OF tq_run_ok [OF 2(1) assms(1) 2(2)] assms(4)] by auto
  have c: "tq_ok {} tq4" "tq_frame {} tq3 tq4"
    "tq_heap tq4 = (if tid \<in> tq_active tq3 then (tq_heap tq3)(fst tid := None) else tq_heap tq3)"
    "tq_numCreated tq4 = tq_numCreated tq3"
    using cancelInLoop_ok [OF 3(1), of tid] assms(5) by auto
  have gone: "tm_sequence a \<noteq> s" if a: "tq_heap tq4 r = Some a" for r a
  proof
    assume s: "tm_sequence a = s"
    have "tq_heap tq3 r = Some a" using a c(3) by (auto split: if_splits)
    moreover have "r = p"
    proof -
      have "\<not> tq_numCreated tq2 \<le> s" using 2(4) by simp
      with 3(2) \<open>tq_heap tq3 r = Some a\<close> s obtain b where "tq_heap tq2 r = Some b" "tm_sequence b = s"
        unfolding tq_hist_def by metis
      with tq_okD(8) [OF 2(1) _ 2(3)] show ?thesis by (simp add: new_Timer_def)
    qed
    ultimately have "tid \<in> tq_active tq3" using tq_okD(5) [OF 3(1)] s tid by auto
    with c(3) a \<open>r = p\<close> tid show False by simp
  qed
  have "log_ok tq4 l3"
    using postD [OF tq_run_ok [OF c(1) assms(1)] assms(6)] c(2) 3(3) by (simp add: tq_frame_def)
  moreover have "s < tq_numCreated tq4" using 2(4) 3(2) c(4) by (simp add: tq_hist_def)
  ultimately show ?thesis using gone tid by (fastforce simp: log_ok_def)
qed

lemmas tq_eval = tq_run_def addTimer_def createTimer_def small_alloc_def new_TimerQueue_def
  addTimerInLoop_def tq_insert_def deref_def resetTimerfd_def new_Timer_def tq_handleRead_def
  readTimerfd_def getExpired_def erase_active_def timer_run_def cancelInLoop_def tq_reset_def
  reset_one_def ts_valid_def ts_invalid_def UINTPTR_MAX_def insort_insert_key_def Let_def

theorem cancelled_never_runs_witness:
  "\<exists>tid tq2 tq4 l3 tq5.
     addTimer small_alloc 0 5 60 1 (new_TimerQueue :: nat timer_queue) = Inr (tid, tq2) \<and>
     cancelInLoop tid tq2 = Inr tq4 \<and>
     tq_run small_alloc (\<lambda>_ _. []) [OpAdd 3 7 0 2, OpFire 11 12] tq4 = Inr (l3, tq5) \<and>
     fst tid = 1 \<and> l3 = [(1, 3)] \<and> snd tid \<notin> fst ` set l3"
proof -
  obtain tq2 :: "nat timer_queue" where
    2: "addTimer small_alloc 0 5 60 1 new_TimerQueue = Inr ((1, 0), tq2)"
       "tq2 = \<lparr>tq_timers = [(5, 1)], tq_active = {(1, 0)}, tq_calling = False, tq_canceling = {},
          tq_heap = [1 \<mapsto> new_Timer 0 5 60 0], tq_numCreated = 1,
          tq_armed = Some (5, howMuchTimeFromNow 5 1)\<rparr>"
    by (simp add: tq_eval)
  obtain tq4 where 4: "cancelInLoop (1, 0) tq2 = Inr tq4"
       "tq4 = tq2\<lparr>tq_timers := [], tq_active := {}, tq_heap := Map.empty\<rparr>"
    unfolding 2 by (simp add: tq_eval)
  obtain tq5 where 5: "tq_run small_alloc (\<lambda>_ _. []) [OpAdd 3 7 0 2, OpFire 11 12] tq4 = Inr ([(1, 3)], tq5)"
    unfolding 4 2 by (simp add: tq_eval)
  have "tq_run small_alloc (\<lambda>_ _. []) [] (new_TimerQueue :: nat timer_queue) = Inr ([], new_TimerQueue)"
    "tq_run small_alloc (\<lambda>_ _. []) [] tq2 = Inr ([], tq2)" by (simp_all add: tq_run_def)
  from cancelled_never_runs [OF small_alloc_ok this(1) 2(1) this(2) 4(1) 5]
  have "snd (1 :: nat, 0 :: int) \<notin> fst ` set [(1 :: int, 3 :: nat)]" .
  with 2(1) 4(1) 5 show ?thesis by (intro exI [of _ "(1, 0)"] exI conjI) auto
qed



text \<open>
  The relative time given to the kernel is a normal timespec for every pair of time stamps, never
  shorter than 100 microseconds (a zero value would disarm the descriptor), and exact when the
  expiration is at least 100 microseconds away.
\<close>

theorem howMuchTimeFromNow_bounds:
  "case howMuchTimeFromNow when now of (sec, nsec) \<Rightarrow>
     0 \<le> sec \<and> 0 \<le> nsec \<and> nsec < 1000000000 \<and> 100000 \<le> sec * 1000000000 + nsec \<and>
     sec * 1000000000 + nsec = 1000 * max 100 (when - now)"
proof -
  define m where "m = max 100 (when - now)"
  have "100 \<le> m" by (simp add: m_def)
  have "howMuchTimeFromNow when now = (m div 1000000, m mod 1000000 * 1000)"
    by (auto simp: howMuchTimeFromNow_def Let_def m_def kMicroSecondsPerSecond_def tdiv_nonneg
        tmod_nonneg max_def)
  moreover have "m div 1000000 * 1000000 + m mod 1000000 = m" by (rule div_mult_mod_eq)
  moreover have "0 \<le> m mod 1000000" "m mod 1000000 < 1000000" "0 \<le> m div 1000000"
    using \<open>100 \<le> m\<close> by (simp_all add: pos_imp_zdiv_nonneg_iff)
  ultimately show ?thesis using \<open>100 \<le> m\<close> unfolding m_def [symmetric]
    by (simp only: prod.case) (intro conjI TrueI; linarith)
qed

end
