(* ===== verification/Channel.thy ===== *)
theory Channel
  imports Prelude
begin

unbundle bit_operations_syntax

text \<open>
  Channels (src/net/channel.h, src/net/channel.cpp) and their registration with epoll
  (\<open>EventLoop::updateChannel\<close>, \<open>EventLoop::removeChannel\<close> in src/net/event_loop.cpp). A channel is a
  descriptor, the events it asks for, the events last reported, and four optional callbacks.

  \<open>::epoll_ctl\<close> is the parameter \<open>ctl\<close>, from the operation, the descriptor, the event mask and the
  state of the kernel to an error number or none and the new state. What the program relies on is the
  named hypothesis \<open>epoll_ok\<close>, stated over a view \<open>interest\<close> of the kernel: the masks registered.
\<close>

subsection \<open>Events\<close>

definition EPOLLIN :: uint32 where "EPOLLIN = 1"
definition EPOLLOUT :: uint32 where "EPOLLOUT = 4"
definition EPOLLERR :: uint32 where "EPOLLERR = 8"
definition EPOLLHUP :: uint32 where "EPOLLHUP = 16"

lemmas epoll_masks = EPOLLIN_def EPOLLOUT_def EPOLLERR_def EPOLLHUP_def

datatype epoll_op = CTL_ADD | CTL_MOD | CTL_DEL

type_synonym 'k epoll_ctl = "epoll_op \<Rightarrow> fd \<Rightarrow> uint32 \<Rightarrow> 'k \<Rightarrow> errno option \<times> 'k"

subsection \<open>State\<close>

record 'cb channel =
  ch_fd :: fd
  ch_events :: uint32
  ch_revents :: uint32
  ch_index :: int
  read_callback :: "'cb option"
  write_callback :: "'cb option"
  close_callback :: "'cb option"
  error_callback :: "'cb option"

definition new_Channel :: "fd \<Rightarrow> 'cb channel" where
  "new_Channel f = \<lparr>ch_fd = f, ch_events = 0, ch_revents = 0, ch_index = - 1, read_callback = None,
     write_callback = None, close_callback = None, error_callback = None\<rparr>"

definition setReadCallback :: "'cb \<Rightarrow> 'cb channel \<Rightarrow> 'cb channel" where
  "setReadCallback cb ch = ch\<lparr>read_callback := Some cb\<rparr>"

definition setWriteCallback :: "'cb \<Rightarrow> 'cb channel \<Rightarrow> 'cb channel" where
  "setWriteCallback cb ch = ch\<lparr>write_callback := Some cb\<rparr>"

definition setCloseCallback :: "'cb \<Rightarrow> 'cb channel \<Rightarrow> 'cb channel" where
  "setCloseCallback cb ch = ch\<lparr>close_callback := Some cb\<rparr>"

definition setErrorCallback :: "'cb \<Rightarrow> 'cb channel \<Rightarrow> 'cb channel" where
  "setErrorCallback cb ch = ch\<lparr>error_callback := Some cb\<rparr>"

definition setRevents :: "uint32 \<Rightarrow> 'cb channel \<Rightarrow> 'cb channel" where
  "setRevents r ch = ch\<lparr>ch_revents := r\<rparr>"

definition isNoneEvent :: "'cb channel \<Rightarrow> bool" where
  "isNoneEvent ch \<longleftrightarrow> ch_events ch = 0"

definition isReading :: "'cb channel \<Rightarrow> bool" where
  "isReading ch \<longleftrightarrow> ch_events ch AND EPOLLIN \<noteq> 0"

definition isWriting :: "'cb channel \<Rightarrow> bool" where
  "isWriting ch \<longleftrightarrow> ch_events ch AND EPOLLOUT \<noteq> 0"

subsection \<open>Registration\<close>

definition updateChannel :: "'k epoll_ctl \<Rightarrow> 'cb channel \<Rightarrow> 'k \<Rightarrow> 'k" where
  "updateChannel ctl ch k =
     (case ctl CTL_ADD (ch_fd ch) (ch_events ch) k of
        (None, k1) \<Rightarrow> k1
      | (Some e, k1) \<Rightarrow>
          if e = EEXIST then snd (ctl CTL_MOD (ch_fd ch) (ch_events ch) k1) else k1)"

definition removeChannel :: "'k epoll_ctl \<Rightarrow> bool \<Rightarrow> bool \<Rightarrow> 'cb channel \<Rightarrow> 'k
    \<Rightarrow> ('cb channel \<times> 'k) res" where
  "removeChannel ctl looping in_loop_thread ch k =
     bind_res (cassert (\<not> looping \<or> in_loop_thread)) (\<lambda>_.
     if looping then
       (let k1 = (if ch_index ch \<noteq> - 1 then snd (ctl CTL_DEL (ch_fd ch) 0 k) else k)
        in Inr (ch\<lparr>ch_index := - 1\<rparr>, k1))
     else Inr (ch\<lparr>ch_index := - 1\<rparr>, k))"

definition set_events :: "'k epoll_ctl \<Rightarrow> uint32 \<Rightarrow> 'cb channel \<times> 'k \<Rightarrow> 'cb channel \<times> 'k" where
  "set_events ctl ev = (\<lambda>(ch, k). let ch' = ch\<lparr>ch_events := ev\<rparr> in (ch', updateChannel ctl ch' k))"

definition enableReading :: "'k epoll_ctl \<Rightarrow> 'cb channel \<times> 'k \<Rightarrow> 'cb channel \<times> 'k" where
  "enableReading ctl s = set_events ctl (ch_events (fst s) OR EPOLLIN) s"

definition disableReading :: "'k epoll_ctl \<Rightarrow> 'cb channel \<times> 'k \<Rightarrow> 'cb channel \<times> 'k" where
  "disableReading ctl s = set_events ctl (ch_events (fst s) AND NOT EPOLLIN) s"

definition enableWriting :: "'k epoll_ctl \<Rightarrow> 'cb channel \<times> 'k \<Rightarrow> 'cb channel \<times> 'k" where
  "enableWriting ctl s = set_events ctl (ch_events (fst s) OR EPOLLOUT) s"

definition disableWriting :: "'k epoll_ctl \<Rightarrow> 'cb channel \<times> 'k \<Rightarrow> 'cb channel \<times> 'k" where
  "disableWriting ctl s = set_events ctl (ch_events (fst s) AND NOT EPOLLOUT) s"

definition disableAll :: "'k epoll_ctl \<Rightarrow> 'cb channel \<times> 'k \<Rightarrow> 'cb channel \<times> 'k" where
  "disableAll ctl s = set_events ctl 0 s"

definition channel_remove :: "'k epoll_ctl \<Rightarrow> bool \<Rightarrow> bool \<Rightarrow> 'cb channel \<times> 'k
    \<Rightarrow> ('cb channel \<times> 'k) res" where
  "channel_remove ctl looping in_loop_thread = (\<lambda>(ch, k).
     bind_res (cassert (isNoneEvent ch)) (\<lambda>_. removeChannel ctl looping in_loop_thread ch k))"

subsection \<open>Dispatch\<close>

text \<open>
  \<open>handleEvent\<close> calls the callbacks the reported events select, each on the state the previous one
  left; \<open>run\<close> is what calling a callback does.
\<close>

definition call_if :: "bool \<Rightarrow> ('cb \<Rightarrow> 'w \<Rightarrow> 'w res) \<Rightarrow> 'cb option \<Rightarrow> 'w \<Rightarrow> 'w res" where
  "call_if c run cb w = (if c then (case cb of None \<Rightarrow> Inr w | Some f \<Rightarrow> run f w) else Inr w)"

definition handleEvent :: "('cb \<Rightarrow> 'w \<Rightarrow> 'w res) \<Rightarrow> 'cb channel \<Rightarrow> 'w \<Rightarrow> 'w res" where
  "handleEvent run ch w =
     bind_res (call_if (ch_revents ch AND (EPOLLERR OR EPOLLHUP) \<noteq> 0) run (error_callback ch) w) (\<lambda>w.
     bind_res (call_if (ch_revents ch AND EPOLLIN \<noteq> 0) run (read_callback ch) w) (\<lambda>w.
     call_if (ch_revents ch AND EPOLLOUT \<noteq> 0) run (write_callback ch) w))"

subsection \<open>What epoll promises\<close>

text \<open>
  epoll_ctl(2): adding a descriptor that is registered fails with EEXIST and changes nothing, adding
  one that is not registers it, modifying a registered one replaces its mask.
\<close>

definition epoll_ok :: "'k epoll_ctl \<Rightarrow> ('k \<Rightarrow> fd \<Rightarrow> uint32 option) \<Rightarrow> bool" where
  "epoll_ok ctl interest \<longleftrightarrow>
     (\<forall>k f ev. interest k f = None \<longrightarrow>
        (\<exists>k'. ctl CTL_ADD f ev k = (None, k') \<and> interest k' = (interest k)(f \<mapsto> ev))) \<and>
     (\<forall>k f ev. interest k f \<noteq> None \<longrightarrow>
        (\<exists>k'. ctl CTL_ADD f ev k = (Some EEXIST, k') \<and> interest k' = interest k) \<and>
        (\<exists>k'. ctl CTL_MOD f ev k = (None, k') \<and> interest k' = (interest k)(f \<mapsto> ev)))"

text \<open>A kernel that is nothing but its interest list, for the witnesses.\<close>

fun map_ctl :: "(fd \<Rightarrow> uint32 option) epoll_ctl" where
  "map_ctl CTL_ADD f ev k = (if k f = None then (None, k(f \<mapsto> ev)) else (Some EEXIST, k))"
| "map_ctl CTL_MOD f ev k = (if k f = None then (Some 2, k) else (None, k(f \<mapsto> ev)))"
| "map_ctl CTL_DEL f ev k = (if k f = None then (Some 2, k) else (None, k(f := None)))"

lemma map_ctl_ok: "epoll_ok map_ctl (\<lambda>k. k)"
  by (auto simp: epoll_ok_def)

lemma interest_updateChannel:
  assumes "epoll_ok ctl interest"
  shows "interest (updateChannel ctl ch k) = (interest k)(ch_fd ch \<mapsto> ch_events ch)"
proof (cases "interest k (ch_fd ch)")
  case None
  with assms obtain k' where "ctl CTL_ADD (ch_fd ch) (ch_events ch) k = (None, k')"
    "interest k' = (interest k)(ch_fd ch \<mapsto> ch_events ch)" unfolding epoll_ok_def by blast
  then show ?thesis by (simp add: updateChannel_def)
next
  case (Some ev)
  with assms obtain k1 where 1: "ctl CTL_ADD (ch_fd ch) (ch_events ch) k = (Some EEXIST, k1)"
    "interest k1 = interest k" unfolding epoll_ok_def by fastforce
  with Some have "interest k1 (ch_fd ch) \<noteq> None" by simp
  with assms obtain k2 where "ctl CTL_MOD (ch_fd ch) (ch_events ch) k1 = (None, k2)"
    "interest k2 = (interest k1)(ch_fd ch \<mapsto> ch_events ch)" unfolding epoll_ok_def by blast
  with 1 show ?thesis by (simp add: updateChannel_def)
qed

lemma set_events_simps [simp]:
  "fst (set_events ctl ev s) = (fst s)\<lparr>ch_events := ev\<rparr>"
  "epoll_ok ctl interest \<Longrightarrow>
     interest (snd (set_events ctl ev s)) = (interest (snd s))(ch_fd (fst s) \<mapsto> ev)"
  by (simp_all add: set_events_def Let_def interest_updateChannel split_beta fun_eq_iff)

text \<open>The mask read bit by bit.\<close>

lemma mask_bits:
  "isReading ch \<longleftrightarrow> bit (ch_events ch) 0" "isWriting ch \<longleftrightarrow> bit (ch_events ch) 2"
  using and_exp_eq_0_iff_not_bit [of "ch_events ch" 0] and_exp_eq_0_iff_not_bit [of "ch_events ch" 2]
  by (simp_all add: isReading_def isWriting_def epoll_masks)

lemma bit_masks:
  "bit EPOLLIN n \<longleftrightarrow> n = 0" "bit EPOLLOUT n \<longleftrightarrow> n = 2"
proof -
  have "bit ((2 ^ 2) :: uint32) n \<longleftrightarrow> n = 2" by (subst bit_exp_iff) auto
  then show "bit EPOLLOUT n \<longleftrightarrow> n = 2" by (simp add: EPOLLOUT_def)
qed (simp add: EPOLLIN_def bit_1_iff)

subsection \<open>Histories of a channel\<close>

datatype ch_op = EnableReading | DisableReading | EnableWriting | DisableWriting | DisableAll

fun ch_step :: "'k epoll_ctl \<Rightarrow> ch_op \<Rightarrow> 'cb channel \<times> 'k \<Rightarrow> 'cb channel \<times> 'k" where
  "ch_step ctl EnableReading = enableReading ctl"
| "ch_step ctl DisableReading = disableReading ctl"
| "ch_step ctl EnableWriting = enableWriting ctl"
| "ch_step ctl DisableWriting = disableWriting ctl"
| "ch_step ctl DisableAll = disableAll ctl"

text \<open>The specification: which of reading and writing the channel wants.\<close>

fun want_step :: "ch_op \<Rightarrow> bool \<times> bool \<Rightarrow> bool \<times> bool" where
  "want_step EnableReading (r, w) = (True, w)"
| "want_step DisableReading (r, w) = (False, w)"
| "want_step EnableWriting (r, w) = (r, True)"
| "want_step DisableWriting (r, w) = (r, False)"
| "want_step DisableAll (r, w) = (False, False)"

definition want_mask :: "bool \<times> bool \<Rightarrow> uint32" where
  "want_mask s = (if fst s then EPOLLIN else 0) OR (if snd s then EPOLLOUT else 0)"

lemma want_mask_inject: "want_mask (r, w) = 0 \<longleftrightarrow> \<not> r \<and> \<not> w"
  "want_mask (r, w) AND EPOLLIN \<noteq> 0 \<longleftrightarrow> r" "want_mask (r, w) AND EPOLLOUT \<noteq> 0 \<longleftrightarrow> w"
  by (simp_all add: want_mask_def epoll_masks)

lemma ch_step_mask:
  assumes "ch_events (fst s) = want_mask rw"
  shows "ch_events (fst (ch_step ctl op s)) = want_mask (want_step op rw)"
    and "ch_fd (fst (ch_step ctl op s)) = ch_fd (fst s)"
    and "epoll_ok ctl interest \<Longrightarrow> interest (snd (ch_step ctl op s)) =
      (interest (snd s))(ch_fd (fst s) \<mapsto> want_mask (want_step op rw))"
  using assms
  by (cases op; cases rw; auto simp: enableReading_def disableReading_def enableWriting_def
      disableWriting_def disableAll_def want_mask_def epoll_masks)+

lemma ch_steps_mask:
  assumes "epoll_ok ctl interest" and "ch_events (fst s) = want_mask rw"
    and "interest (snd s) (ch_fd (fst s)) = Some (want_mask rw)"
  shows "let s' = fold (ch_step ctl) ops s in ch_events (fst s') = want_mask (fold want_step ops rw) \<and>
    ch_fd (fst s') = ch_fd (fst s) \<and>
    interest (snd s') = (interest (snd s))(ch_fd (fst s) \<mapsto> want_mask (fold want_step ops rw))"
  using assms(2,3)
proof (induction ops arbitrary: s rw)
  case Nil
  then show ?case by (simp add: fun_upd_idem)
next
  case (Cons op ops)
  note st = ch_step_mask [OF Cons.prems(1), where ctl = ctl and op = op]
  have "interest (snd (ch_step ctl op s)) (ch_fd (fst (ch_step ctl op s))) =
    Some (want_mask (want_step op rw))" using st(2) st(3) [OF assms(1)] by simp
  from Cons.IH [OF st(1) this] st(2) st(3) [OF assms(1)] show ?case
    by (simp add: Let_def fun_eq_iff)
qed

lemma ch_steps_index: "ch_index (fst (fold (ch_step ctl) ops s)) = ch_index (fst s)"
proof (induction ops arbitrary: s)
  case (Cons op ops)
  have "ch_index (fst (ch_step ctl op s)) = ch_index (fst s)"
    by (cases op) (simp_all add: enableReading_def disableReading_def enableWriting_def
        disableWriting_def disableAll_def)
  with Cons show ?case by simp
qed simp

subsection \<open>Properties\<close>

text \<open>
  C29. The kernel always watches what the channel says: after any non-empty sequence of enable and
  disable calls on a new channel, \<open>isReading\<close>, \<open>isWriting\<close> and \<open>isNoneEvent\<close> answer what the
  sequence asked for last, epoll has registered exactly that mask for the descriptor, by an addition
  the first time and by modifications afterwards, and other descriptors are untouched.
\<close>

theorem channel_registration_tracks:
  assumes "epoll_ok ctl interest"
  shows "let (ch, k') = fold (ch_step ctl) (op # ops) (new_Channel f :: 'cb channel, k);
             (r, w) = fold want_step (op # ops) (False, False)
    in isReading ch = r \<and> isWriting ch = w \<and> isNoneEvent ch = (\<not> r \<and> \<not> w) \<and>
       interest k' = (interest k)(f \<mapsto> want_mask (r, w))"
proof -
  let ?s = "ch_step ctl op (new_Channel f :: 'cb channel, k)" and ?rw = "want_step op (False, False)"
  have 0: "ch_events (fst (new_Channel f :: 'cb channel, k)) = want_mask (False, False)"
    by (simp add: new_Channel_def want_mask_def)
  note st = ch_step_mask [OF 0, where ctl = ctl and op = op]
  have "interest (snd ?s) (ch_fd (fst ?s)) = Some (want_mask ?rw)"
    unfolding st(2) st(3) [OF assms] by (simp add: new_Channel_def)
  note all = ch_steps_mask [OF assms st(1) this, of ops]
  obtain ch k' where s': "fold (ch_step ctl) (op # ops) (new_Channel f :: 'cb channel, k) = (ch, k')"
    by (cases "fold (ch_step ctl) (op # ops) (new_Channel f :: 'cb channel, k)")
  obtain r w where rw: "fold want_step (op # ops) (False, False) = (r, w)"
    by (cases "fold want_step (op # ops) (False, False)")
  have fd: "ch_fd (new_Channel f :: 'cb channel) = f" by (simp add: new_Channel_def)
  have "ch_events ch = want_mask (r, w)" "interest k' = (interest k)(f \<mapsto> want_mask (r, w))"
    using all s' rw st(2) st(3) [OF assms] by (simp_all add: Let_def fd fun_eq_iff)
  then show ?thesis unfolding s' rw
    by (simp add: isReading_def isWriting_def isNoneEvent_def want_mask_inject)
qed

theorem channel_registration_tracks_witness:
  "let (ch, k') = fold (ch_step map_ctl) [EnableReading, EnableWriting, DisableReading]
                    (new_Channel 7 :: nat channel, Map.empty)
   in \<not> isReading ch \<and> isWriting ch \<and> \<not> isNoneEvent ch \<and> k' = [7 \<mapsto> EPOLLOUT]"
  using channel_registration_tracks [OF map_ctl_ok, of EnableReading "[EnableWriting, DisableReading]"
      7 Map.empty]
  by (auto simp: want_mask_def split_beta Let_def)

text \<open>
  Removal forgets nothing: \<open>remove\<close> asserts that the channel wants no event, and since no code
  ever sets \<open>index_\<close> to anything but -1 it never reaches \<open>EPOLL_CTL_DEL\<close>; the descriptor stays
  registered, with an empty mask, until it is closed.
\<close>

theorem channel_remove_keeps_registration:
  assumes "epoll_ok ctl interest"
    and "fold (ch_step ctl) ops (new_Channel f :: 'cb channel, k) = (ch, k1)"
    and "channel_remove ctl True True (ch, k1) = Inr (ch', k2)"
  shows "isNoneEvent ch \<and> k2 = k1 \<and> ch_index ch' = - 1"
proof -
  from ch_steps_index [of ctl ops "(new_Channel f :: 'cb channel, k)"] have "ch_index ch = - 1"
    using assms(2) by (simp add: new_Channel_def)
  with assms(3) show ?thesis
    by (auto simp: channel_remove_def removeChannel_def cassert_def res_simps split: if_splits)
qed

theorem channel_remove_keeps_registration_witness:
  "\<exists>ch k1 ch'. fold (ch_step map_ctl) [EnableReading, DisableAll] (new_Channel 7 :: nat channel, Map.empty) = (ch, k1) \<and>
    channel_remove map_ctl True True (ch, k1) = Inr (ch', k1) \<and> k1 7 = Some 0"
proof -
  let ?s = "fold (ch_step map_ctl) [EnableReading, DisableAll] (new_Channel 7 :: nat channel, Map.empty)"
  obtain ch k1 where 1: "?s = (ch, k1)" by (cases ?s)
  then have ev: "ch_events ch = 0" "k1 7 = Some 0"
    by (auto simp: enableReading_def disableAll_def set_events_def updateChannel_def new_Channel_def
        Let_def EEXIST_def)
  then obtain ch' k2 where 2: "channel_remove map_ctl True True (ch, k1) = Inr (ch', k2)"
    by (auto simp: channel_remove_def removeChannel_def isNoneEvent_def Let_def)
  from channel_remove_keeps_registration [OF map_ctl_ok 1 2] 1 2 ev show ?thesis by blast
qed

text \<open>
  Dispatch runs the callbacks the reported events select, each at most once, errors first, then reads,
  then writes, and stops at the first fault; the close callback is never among them.
\<close>

definition select_if :: "bool \<Rightarrow> 'cb option \<Rightarrow> 'cb list" where
  "select_if c cb = (case cb of None \<Rightarrow> [] | Some f \<Rightarrow> if c then [f] else [])"

definition selected_callbacks :: "'cb channel \<Rightarrow> 'cb list" where
  "selected_callbacks ch =
     select_if (ch_revents ch AND (EPOLLERR OR EPOLLHUP) \<noteq> 0) (error_callback ch) @
     select_if (ch_revents ch AND EPOLLIN \<noteq> 0) (read_callback ch) @
     select_if (ch_revents ch AND EPOLLOUT \<noteq> 0) (write_callback ch)"

lemma call_if_fold: "call_if c run cb = fold_res run (select_if c cb)"
proof
  show "call_if c run cb w = fold_res run (select_if c cb) w" for w
    by (cases cb; cases "run (the cb) w") (simp_all add: call_if_def select_if_def)
qed

lemma handleEvent_selected: "handleEvent run ch w = fold_res run (selected_callbacks ch) w"
proof -
  have app: "fold_res run (xs @ ys) = (\<lambda>w. bind_res (fold_res run xs w) (fold_res run ys))" for xs ys
    by (simp add: fun_eq_iff fold_res_append)
  show ?thesis by (simp only: handleEvent_def selected_callbacks_def call_if_fold app)
qed

end
