(* ===== verification/EventLoop.thy ===== *)
theory EventLoop
  imports Channel
begin

text \<open>
  The event loop (src/net/event_loop.h, src/net/event_loop.cpp) as a concurrent program: the loop
  thread executes \<open>loop\<close> statement by statement, and other threads call \<open>runInLoop\<close> and \<open>quit\<close> at
  any moment. A step is what one thread does between two accesses to shared state, so
  \<open>runInLoop\<close> of another thread is two steps, the insertion under the mutex and the write to the
  eventfd, with anything in between.

  Code that runs in the loop thread (functors and event handlers) is a list of the actions through
  which it touches the loop, given by the parameter \<open>prog\<close>. The eventfd is the parameter functions
  \<open>wr\<close>, \<open>rd\<close> and \<open>readable\<close>; the program relies on one documented fact, \<open>eventfd_ok\<close>: after a
  write the descriptor is readable.
\<close>

subsection \<open>State\<close>

datatype 'f loop_action = RunInLoop 'f | WriteWakeup | QuitLoopAction

datatype 'f loop_event = WakeupEvent | Ready 'f

datatype loop_pc = Outside | AtTest | AtSwap | InFunctors | AtWait | InEvents

text \<open>
  \<open>functors\<close> is the local queue of \<open>doPendingFunctors\<close>, \<open>el_events\<close> what is left of the events
  \<open>epoll_wait\<close> returned, \<open>todo\<close> the rest of the code the loop thread is running, \<open>owed\<close> the number of
  other threads between their insertion and their \<open>wakeup\<close>. The last three fields only record
  history: what was inserted, what was started from the queue, and whether another thread has asked
  to quit since \<open>loop\<close> was entered.
\<close>

record ('f, 'k) event_loop =
  el_thread :: nat
  el_looping :: bool
  el_quit :: bool
  calling_pending :: bool
  pending_functors :: "'f list"
  wakeup_fd :: 'k
  el_pc :: loop_pc
  functors :: "'f list"
  el_events :: "'f loop_event list"
  todo :: "'f loop_action list"
  owed :: nat
  posted :: "'f list"
  ran :: "'f list"
  quit_asked :: bool

text \<open>The constructor does not initialise \<open>calling_pending_functors_\<close>: its value is an argument.\<close>

definition new_EventLoop :: "nat \<Rightarrow> bool \<Rightarrow> 'k \<Rightarrow> ('f, 'k) event_loop" where
  "new_EventLoop t calling0 k = \<lparr>el_thread = t, el_looping = False, el_quit = False,
     calling_pending = calling0, pending_functors = [], wakeup_fd = k, el_pc = Outside,
     functors = [], el_events = [], todo = [], owed = 0, posted = [], ran = [], quit_asked = False\<rparr>"

definition isInLoopThread :: "nat \<Rightarrow> ('f, 'k) event_loop \<Rightarrow> bool" where
  "isInLoopThread t s \<longleftrightarrow> el_thread s = t"

subsection \<open>Operations\<close>

definition wakeup :: "('k \<Rightarrow> 'k) \<Rightarrow> ('f, 'k) event_loop \<Rightarrow> ('f, 'k) event_loop" where
  "wakeup wr s = s\<lparr>wakeup_fd := wr (wakeup_fd s)\<rparr>"

definition handleWakeup :: "('k \<Rightarrow> 'k) \<Rightarrow> ('f, 'k) event_loop \<Rightarrow> ('f, 'k) event_loop" where
  "handleWakeup rd s = s\<lparr>wakeup_fd := rd (wakeup_fd s)\<rparr>"

text \<open>
  \<open>runInLoop\<close> called by thread \<open>t\<close>: the callback is run at once, or inserted; the \<open>wakeup\<close> that
  follows the insertion is the caller's next action.
\<close>

definition runInLoop :: "('f \<Rightarrow> 'f loop_action list) \<Rightarrow> nat \<Rightarrow> 'f \<Rightarrow> ('f, 'k) event_loop
    \<Rightarrow> ('f, 'k) event_loop" where
  "runInLoop prog t cb s =
     (if isInLoopThread t s \<and> \<not> calling_pending s then s\<lparr>todo := prog cb @ todo s\<rparr>
      else
        (let s' = s\<lparr>pending_functors := pending_functors s @ [cb], posted := posted s @ [cb]\<rparr> in
         if isInLoopThread t s then s'\<lparr>todo := WriteWakeup # todo s\<rparr>
         else s'\<lparr>owed := owed s + 1\<rparr>))"

definition el_quit_by :: "nat \<Rightarrow> ('f, 'k) event_loop \<Rightarrow> ('f, 'k) event_loop" where
  "el_quit_by t s =
     (let s' = s\<lparr>el_quit := True\<rparr> in
      if \<not> isInLoopThread t s then s'\<lparr>owed := owed s + 1, quit_asked := True\<rparr> else s')"

definition exec_action :: "('f \<Rightarrow> 'f loop_action list) \<Rightarrow> ('k \<Rightarrow> 'k) \<Rightarrow> 'f loop_action
    \<Rightarrow> ('f, 'k) event_loop \<Rightarrow> ('f, 'k) event_loop" where
  "exec_action prog wr a s =
     (case a of RunInLoop cb \<Rightarrow> runInLoop prog (el_thread s) cb s
      | WriteWakeup \<Rightarrow> wakeup wr s
      | QuitLoopAction \<Rightarrow> el_quit_by (el_thread s) s)"

text \<open>\<open>doPendingFunctors\<close>, statement by statement.\<close>

definition doPendingFunctors_begin :: "('f, 'k) event_loop \<Rightarrow> ('f, 'k) event_loop" where
  "doPendingFunctors_begin s = s\<lparr>calling_pending := True, functors := [], el_pc := AtSwap\<rparr>"

definition doPendingFunctors_swap :: "('f, 'k) event_loop \<Rightarrow> ('f, 'k) event_loop" where
  "doPendingFunctors_swap s =
     s\<lparr>functors := pending_functors s, pending_functors := [], el_pc := InFunctors\<rparr>"

definition doPendingFunctors_next :: "('f \<Rightarrow> 'f loop_action list) \<Rightarrow> ('f, 'k) event_loop
    \<Rightarrow> ('f, 'k) event_loop" where
  "doPendingFunctors_next prog s =
     (case functors s of f # fs \<Rightarrow> s\<lparr>functors := fs, todo := prog f, ran := ran s @ [f]\<rparr>
      | [] \<Rightarrow> s\<lparr>calling_pending := False, el_pc := AtWait\<rparr>)"

text \<open>\<open>loop\<close>: its entry, the test of the \<open>while\<close>, and the dispatch of the events.\<close>

definition loop_enter :: "nat \<Rightarrow> ('f, 'k) event_loop \<Rightarrow> ('f, 'k) event_loop res" where
  "loop_enter t s =
     bind_res (cassert (\<not> el_looping s)) (\<lambda>_.
     bind_res (cassert (isInLoopThread t s)) (\<lambda>_.
     Inr (s\<lparr>el_looping := True, el_quit := False, el_pc := AtTest, quit_asked := False\<rparr>)))"

definition loop_test :: "('f, 'k) event_loop \<Rightarrow> ('f, 'k) event_loop" where
  "loop_test s = (if \<not> el_quit s then doPendingFunctors_begin s
                  else s\<lparr>el_looping := False, el_pc := Outside\<rparr>)"

definition loop_dispatch :: "('f \<Rightarrow> 'f loop_action list) \<Rightarrow> ('k \<Rightarrow> 'k) \<Rightarrow> ('f, 'k) event_loop
    \<Rightarrow> ('f, 'k) event_loop" where
  "loop_dispatch prog rd s =
     (case el_events s of [] \<Rightarrow> s\<lparr>el_pc := AtTest\<rparr>
      | WakeupEvent # es \<Rightarrow> handleWakeup rd (s\<lparr>el_events := es\<rparr>)
      | Ready f # es \<Rightarrow> s\<lparr>el_events := es, todo := prog f\<rparr>)"

definition loop_wait :: "'f loop_event list \<Rightarrow> ('f, 'k) event_loop \<Rightarrow> ('f, 'k) event_loop" where
  "loop_wait evs s = s\<lparr>el_events := evs, el_pc := InEvents\<rparr>"

text \<open>The loop thread's next step when it is not blocked in \<open>epoll_wait\<close>.\<close>

definition loop_next :: "('f \<Rightarrow> 'f loop_action list) \<Rightarrow> ('k \<Rightarrow> 'k) \<Rightarrow> ('k \<Rightarrow> 'k) \<Rightarrow> ('f, 'k) event_loop
    \<Rightarrow> ('f, 'k) event_loop" where
  "loop_next prog wr rd s =
     (case todo s of a # as \<Rightarrow> exec_action prog wr a (s\<lparr>todo := as\<rparr>)
      | [] \<Rightarrow>
        (case el_pc s of AtTest \<Rightarrow> loop_test s
         | AtSwap \<Rightarrow> doPendingFunctors_swap s
         | InFunctors \<Rightarrow> doPendingFunctors_next prog s
         | InEvents \<Rightarrow> loop_dispatch prog rd s
         | _ \<Rightarrow> s))"

text \<open>
  One step of one thread. \<open>epoll_wait\<close> reports the eventfd only when it is readable, and returns
  events when it is; it may also time out or be interrupted (no event). Outside \<open>loop\<close>, the owner of
  the loop may run code of its own before it enters \<open>loop\<close>.
\<close>

inductive el_step :: "('f \<Rightarrow> 'f loop_action list) \<Rightarrow> ('k \<Rightarrow> 'k) \<Rightarrow> ('k \<Rightarrow> 'k) \<Rightarrow> ('k \<Rightarrow> bool)
    \<Rightarrow> ('f, 'k) event_loop \<Rightarrow> ('f, 'k) event_loop \<Rightarrow> bool"
  for prog wr rd readable where
  run: "el_pc s \<noteq> AtWait \<Longrightarrow> el_pc s \<noteq> Outside \<or> todo s \<noteq> [] \<Longrightarrow>
    el_step prog wr rd readable s (loop_next prog wr rd s)"
| own: "el_pc s = Outside \<Longrightarrow> todo s = [] \<Longrightarrow> el_step prog wr rd readable s (s\<lparr>todo := as\<rparr>)"
| enter: "el_pc s = Outside \<Longrightarrow> todo s = [] \<Longrightarrow> loop_enter (el_thread s) s = Inr s' \<Longrightarrow>
    el_step prog wr rd readable s s'"
| wait: "el_pc s = AtWait \<Longrightarrow> (WakeupEvent \<in> set evs \<longrightarrow> readable (wakeup_fd s)) \<Longrightarrow>
    (readable (wakeup_fd s) \<longrightarrow> evs \<noteq> []) \<Longrightarrow> el_step prog wr rd readable s (loop_wait evs s)"
| post: "\<not> isInLoopThread t s \<Longrightarrow> el_step prog wr rd readable s (runInLoop prog t cb s)"
| wake: "0 < owed s \<Longrightarrow> el_step prog wr rd readable s (wakeup wr (s\<lparr>owed := owed s - 1\<rparr>))"
| quit: "\<not> isInLoopThread t s \<Longrightarrow> el_step prog wr rd readable s (el_quit_by t s)"

inductive_cases el_stepE: "el_step prog wr rd readable s s'"

inductive el_reach :: "('f \<Rightarrow> 'f loop_action list) \<Rightarrow> ('k \<Rightarrow> 'k) \<Rightarrow> ('k \<Rightarrow> 'k) \<Rightarrow> ('k \<Rightarrow> bool)
    \<Rightarrow> ('f, 'k) event_loop \<Rightarrow> bool"
  for prog wr rd readable where
  start: "el_reach prog wr rd readable (new_EventLoop t c k)"
| step: "el_reach prog wr rd readable s \<Longrightarrow> el_step prog wr rd readable s s' \<Longrightarrow>
    el_reach prog wr rd readable s'"

definition eventfd_ok :: "('k \<Rightarrow> 'k) \<Rightarrow> ('k \<Rightarrow> bool) \<Rightarrow> bool" where
  "eventfd_ok wr readable \<longleftrightarrow> (\<forall>k. readable (wr k))"

lemmas el_defs = loop_next_def exec_action_def runInLoop_def el_quit_by_def wakeup_def
  handleWakeup_def doPendingFunctors_begin_def doPendingFunctors_swap_def doPendingFunctors_next_def
  loop_test_def loop_dispatch_def loop_wait_def isInLoopThread_def Let_def

subsection \<open>Invariants\<close>

text \<open>
  The queue: what was inserted is what was started, what is left of the batch, and what is pending,
  in that order.
\<close>

definition queue_ok :: "('f, 'k) event_loop \<Rightarrow> bool" where
  "queue_ok s \<longleftrightarrow> posted s = ran s @ functors s @ pending_functors s \<and>
     (el_pc s \<noteq> InFunctors \<longrightarrow> functors s = [])"

text \<open>
  The wake-up: between the swap and \<open>epoll_wait\<close>, where nobody reads the eventfd, a pending functor
  or a request to quit means that the eventfd is readable, or that somebody is about to write it.
\<close>

definition wake_ok :: "('k \<Rightarrow> bool) \<Rightarrow> ('f, 'k) event_loop \<Rightarrow> bool" where
  "wake_ok readable s \<longleftrightarrow>
     (el_pc s \<in> {InFunctors, AtWait} \<longrightarrow> pending_functors s \<noteq> [] \<longrightarrow>
        readable (wakeup_fd s) \<or> 0 < owed s \<or> WriteWakeup \<in> set (todo s)) \<and>
     (quit_asked s \<longrightarrow> el_pc s \<noteq> Outside \<longrightarrow> el_quit s) \<and>
     (el_pc s \<in> {AtSwap, InFunctors, AtWait} \<longrightarrow> quit_asked s \<longrightarrow> readable (wakeup_fd s) \<or> 0 < owed s) \<and>
     (el_pc s = AtWait \<longrightarrow> todo s = []) \<and> (el_looping s \<longleftrightarrow> el_pc s \<noteq> Outside)"

text \<open>One lemma per operation, then one per step.\<close>

lemma queue_ok_ops:
  "queue_ok (s\<lparr>todo := as\<rparr>) = queue_ok s"
  "queue_ok s \<Longrightarrow> queue_ok (runInLoop prog t cb s)"
  "queue_ok (el_quit_by t s) = queue_ok s"
  "queue_ok (wakeup wr s) = queue_ok s"
  "queue_ok (s\<lparr>owed := n\<rparr>) = queue_ok s"
  "queue_ok s \<Longrightarrow> el_pc s = AtTest \<Longrightarrow> queue_ok (loop_test s)"
  "queue_ok s \<Longrightarrow> el_pc s = AtSwap \<Longrightarrow> queue_ok (doPendingFunctors_swap s)"
  "queue_ok s \<Longrightarrow> el_pc s = InFunctors \<Longrightarrow> queue_ok (doPendingFunctors_next prog s)"
  "queue_ok s \<Longrightarrow> el_pc s = InEvents \<Longrightarrow> queue_ok (loop_dispatch prog rd s)"
  "queue_ok s \<Longrightarrow> el_pc s = AtWait \<Longrightarrow> queue_ok (loop_wait evs s)"
  "queue_ok s \<Longrightarrow> el_pc s = Outside \<Longrightarrow> loop_enter t s = Inr s' \<Longrightarrow> queue_ok s'"
  by (auto simp: queue_ok_def el_defs loop_enter_def cassert_def
      split: list.splits loop_event.splits if_splits)

lemma queue_ok_next: "queue_ok s \<Longrightarrow> queue_ok (loop_next prog wr rd s)"
  by (cases "todo s"; cases "el_pc s")
    (auto simp: loop_next_def exec_action_def queue_ok_ops split: loop_action.splits)

lemma queue_ok_step: "el_step prog wr rd readable s s' \<Longrightarrow> queue_ok s \<Longrightarrow> queue_ok s'"
  by (induction rule: el_step.induct) (auto simp: queue_ok_ops queue_ok_next)

lemma wake_ok_ops:
  assumes "wake_ok readable s" and "eventfd_ok wr readable"
  shows "el_pc s \<noteq> AtWait \<Longrightarrow> wake_ok readable (runInLoop prog t cb s)"
    and "\<not> isInLoopThread t s \<Longrightarrow> wake_ok readable (runInLoop prog t cb s)"
    and "wake_ok readable (el_quit_by t s)"
    and "0 < owed s \<Longrightarrow> wake_ok readable (wakeup wr (s\<lparr>owed := owed s - 1\<rparr>))"
    and "el_pc s = AtTest \<Longrightarrow> wake_ok readable (loop_test s)"
    and "el_pc s = AtSwap \<Longrightarrow> wake_ok readable (doPendingFunctors_swap s)"
    and "el_pc s = InFunctors \<Longrightarrow> todo s = [] \<Longrightarrow> wake_ok readable (doPendingFunctors_next prog s)"
    and "el_pc s = InEvents \<Longrightarrow> wake_ok readable (loop_dispatch prog rd s)"
    and "el_pc s = AtWait \<Longrightarrow> wake_ok readable (loop_wait evs s)"
    and "el_pc s = Outside \<Longrightarrow> wake_ok readable (s\<lparr>todo := as\<rparr>)"
    and "el_pc s = Outside \<Longrightarrow> loop_enter t s = Inr s' \<Longrightarrow> wake_ok readable s'"
  using assms
  by (auto simp: wake_ok_def eventfd_ok_def el_defs loop_enter_def cassert_def
      split: list.splits loop_event.splits if_splits)

lemma wake_ok_action:
  assumes "wake_ok readable s" and "eventfd_ok wr readable" and "todo s = a # as"
  shows "wake_ok readable (exec_action prog wr a (s\<lparr>todo := as\<rparr>))"
  using assms
  by (cases a) (auto simp: wake_ok_def eventfd_ok_def el_defs split: if_splits)

lemma wake_ok_next:
  assumes "wake_ok readable s" and "eventfd_ok wr readable" and "el_pc s \<noteq> AtWait"
  shows "wake_ok readable (loop_next prog wr rd s)"
  using assms wake_ok_ops [OF assms(1,2)] wake_ok_action [OF assms(1,2)]
  by (cases "todo s"; cases "el_pc s") (auto simp: loop_next_def)

lemma wake_ok_step:
  assumes "el_step prog wr rd readable s s'" and "eventfd_ok wr readable" and "wake_ok readable s"
  shows "wake_ok readable s'"
  using assms
  by (induction rule: el_step.induct) (auto intro: wake_ok_ops wake_ok_next simp del: One_nat_def)

lemma el_reach_queue: "el_reach prog wr rd readable s \<Longrightarrow> queue_ok s"
proof (induction rule: el_reach.induct)
  case (start t c k)
  then show ?case by (simp add: queue_ok_def new_EventLoop_def)
next
  case (step s s')
  then show ?case by (blast intro: queue_ok_step)
qed

lemma el_reach_wake:
  assumes "eventfd_ok wr readable"
  shows "el_reach prog wr rd readable s \<Longrightarrow> wake_ok readable s"
proof (induction rule: el_reach.induct)
  case (start t c k)
  then show ?case by (simp add: wake_ok_def new_EventLoop_def)
next
  case (step s s')
  then show ?case by (blast intro: wake_ok_step assms)
qed

subsection \<open>Properties\<close>


text \<open>
  C8. No lost wake-up: whenever the loop thread is about to block in \<open>epoll_wait\<close> and every other
  thread has finished its call, a pending functor or a request to quit made since \<open>loop\<close> was entered
  leaves the eventfd readable, so \<open>epoll_wait\<close> cannot block on it, whatever the interleaving was.
\<close>

theorem no_lost_wakeup:
  assumes "eventfd_ok wr readable" and "el_reach prog wr rd readable s"
    and "el_pc s = AtWait" and "owed s = 0" and "pending_functors s \<noteq> [] \<or> quit_asked s"
  shows "readable (wakeup_fd s)"
  using el_reach_wake [OF assms(1,2)] assms(3-) by (auto simp: wake_ok_def)

text \<open>A kernel whose eventfd is its counter, for the witnesses, and a few ways to reach a state.\<close>

definition ev_wr :: "nat \<Rightarrow> nat" where "ev_wr k = k + 1"
definition ev_rd :: "nat \<Rightarrow> nat" where "ev_rd k = 0"
definition ev_readable :: "nat \<Rightarrow> bool" where "ev_readable k \<longleftrightarrow> 0 < k"

lemma ev_ok: "eventfd_ok ev_wr ev_readable"
  by (simp add: eventfd_ok_def ev_wr_def ev_readable_def)

abbreviation "reach0 prog \<equiv> el_reach prog ev_wr ev_rd ev_readable"

lemma reach_run:
  "reach0 prog s \<Longrightarrow> el_pc s \<noteq> AtWait \<Longrightarrow> el_pc s \<noteq> Outside \<or> todo s \<noteq> [] \<Longrightarrow>
    loop_next prog ev_wr ev_rd s = s' \<Longrightarrow> reach0 prog s'"
  using el_reach.step el_step.run by metis

lemma reach_enter:
  "reach0 prog (new_EventLoop t c k\<lparr>el_looping := True, el_pc := AtTest\<rparr>)"
proof -
  have "loop_enter (el_thread (new_EventLoop t c k)) (new_EventLoop t c k) =
    Inr (new_EventLoop t c k\<lparr>el_looping := True, el_pc := AtTest\<rparr>)"
    by (simp add: loop_enter_def new_EventLoop_def isInLoopThread_def)
  then show ?thesis
    by (auto intro!: el_reach.step [OF el_reach.start [of _ _ _ _ t c k]] el_step.enter
        simp: new_EventLoop_def)
qed

text \<open>
  A loop whose thread is in the functor phase when another thread inserts functor 5: the state in
  front of \<open>epoll_wait\<close> after that thread has written the eventfd.
\<close>

definition idle_prog :: "nat \<Rightarrow> nat loop_action list" where "idle_prog f = []"

definition woken_state :: "(nat, nat) event_loop" where
  "woken_state = new_EventLoop 0 False 0\<lparr>el_looping := True, calling_pending := False, el_pc := AtWait,
     pending_functors := [5], posted := [5], wakeup_fd := 1\<rparr>"

lemma woken_state_reachable: "reach0 prog woken_state"
proof -
  let ?next = "loop_next prog ev_wr ev_rd"
  let ?s0 = "new_EventLoop 0 False 0\<lparr>el_looping := True, el_pc := AtTest\<rparr> :: (nat, nat) event_loop"
  let ?s1 = "?next ?s0"
  let ?s2 = "?next ?s1"
  let ?s3 = "runInLoop prog 1 5 ?s2"
  let ?s4 = "wakeup ev_wr (?s3\<lparr>owed := owed ?s3 - 1\<rparr>)"
  note simps = el_defs new_EventLoop_def ev_wr_def ev_rd_def
  have "reach0 prog ?s1" by (rule reach_run [OF reach_enter _ _ refl]) (simp_all add: simps)
  then have "reach0 prog ?s2" by (rule reach_run [OF _ _ _ refl]) (simp_all add: simps)
  then have "reach0 prog ?s3"
    by (rule el_reach.step) (rule el_step.post, simp add: simps)
  then have "reach0 prog ?s4"
    by (rule el_reach.step) (rule el_step.wake, simp add: simps)
  then have "reach0 prog (?next ?s4)" by (rule reach_run [OF _ _ _ refl]) (simp_all add: simps)
  moreover have "?next ?s4 = woken_state" by (simp add: simps woken_state_def)
  ultimately show ?thesis by simp
qed


theorem no_lost_wakeup_witness: "ev_readable (wakeup_fd woken_state)"
  by (rule no_lost_wakeup [OF ev_ok woken_state_reachable [of idle_prog]])
    (simp_all add: woken_state_def new_EventLoop_def)

text \<open>
  A request to quit that comes before \<open>loop\<close> is entered is lost: \<open>loop\<close> resets \<open>quit_\<close> first,
  so the loop runs on. \<open>EventLoopThread::startLoop\<close> returns before its thread enters \<open>loop\<close>, so the
  destructors of \<open>EventLoopThread\<close> and \<open>threadPool\<close>, which ask to quit and then join, can block.
\<close>

theorem quit_before_loop_is_lost:
  assumes "el_pc s = Outside" and "todo s = []" and "\<not> el_looping s" and "\<not> isInLoopThread t s"
    and "loop_enter (el_thread s) (el_quit_by t s) = Inr s'"
  shows "el_looping s' \<and> \<not> el_quit s' \<and> el_pc (loop_next prog wr rd s') = AtSwap"
  using assms by (auto simp: loop_enter_def cassert_def el_defs split: if_splits)

theorem quit_before_loop_is_lost_witness:
  "\<exists>s'. loop_enter 0 (el_quit_by 1 (new_EventLoop 0 False (0 :: nat))) = Inr s' \<and>
    el_looping s' \<and> \<not> el_quit s' \<and> el_pc (loop_next idle_prog ev_wr ev_rd s') = AtSwap"
proof -
  let ?s = "new_EventLoop 0 False (0 :: nat) :: (nat, nat) event_loop"
  obtain s' where 1: "loop_enter (el_thread ?s) (el_quit_by 1 ?s) = Inr s'"
    by (simp add: loop_enter_def el_defs new_EventLoop_def)
  have "el_looping s' \<and> \<not> el_quit s' \<and> el_pc (loop_next idle_prog ev_wr ev_rd s') = AtSwap"
    by (rule quit_before_loop_is_lost [OF _ _ _ _ 1]) (simp_all add: new_EventLoop_def isInLoopThread_def)
  with 1 show ?thesis by (auto simp: new_EventLoop_def)
qed

text \<open>
  \<open>quit\<close> called by a functor takes effect late: it does not write the eventfd, and the loop
  tests \<open>quit_\<close> only after \<open>epoll_wait\<close>, so the thread can block there (for its time-out of ten
  seconds) although it has been told to quit.
\<close>

theorem quit_in_functor_waits:
  "\<exists>prog s. el_reach prog ev_wr ev_rd ev_readable (s :: (nat, nat) event_loop) \<and> el_pc s = AtWait \<and>
     el_quit s \<and> owed s = 0 \<and> \<not> ev_readable (wakeup_fd s)"
proof -
  let ?p = "\<lambda>f :: nat. [QuitLoopAction :: nat loop_action]"
  let ?next = "loop_next ?p ev_wr ev_rd"
  note simps = el_defs new_EventLoop_def ev_wr_def ev_rd_def woken_state_def
  let ?s1 = "loop_wait [WakeupEvent] woken_state"
  have "reach0 ?p ?s1"
    by (rule el_reach.step [OF woken_state_reachable el_step.wait])
      (simp_all add: woken_state_def new_EventLoop_def ev_readable_def)
  then have "reach0 ?p (?next ?s1)" by (rule reach_run [OF _ _ _ refl]) (simp_all add: simps)
  then have "reach0 ?p (?next (?next ?s1))" by (rule reach_run [OF _ _ _ refl]) (simp_all add: simps)
  moreover have "?next (?next ?s1) = woken_state\<lparr>wakeup_fd := 0, el_pc := AtTest\<rparr>"
    by (simp add: simps)
  ultimately have "reach0 ?p (woken_state\<lparr>wakeup_fd := 0, el_pc := AtTest\<rparr>)" by simp
  then have "reach0 ?p (?next (woken_state\<lparr>wakeup_fd := 0, el_pc := AtTest\<rparr>))" (is "reach0 ?p ?s2")
    by (rule reach_run [OF _ _ _ refl]) (simp_all add: simps)
  then have "reach0 ?p (?next ?s2)" (is "reach0 ?p ?s3")
    by (rule reach_run [OF _ _ _ refl]) (simp_all add: simps)
  then have "reach0 ?p (?next ?s3)" (is "reach0 ?p ?s4")
    by (rule reach_run [OF _ _ _ refl]) (simp_all add: simps)
  then have "reach0 ?p (?next ?s4)" (is "reach0 ?p ?s5")
    by (rule reach_run [OF _ _ _ refl]) (simp_all add: simps)
  then have "reach0 ?p (?next ?s5)" by (rule reach_run [OF _ _ _ refl]) (simp_all add: simps)
  then show ?thesis
    by (intro exI [of _ ?p] exI [of _ "?next ?s5"]) (simp add: simps ev_readable_def)
qed

end
