(* ===== verification/LoopTimers.thy ===== *)
theory LoopTimers
  imports TimerExpiry
begin

text \<open>
  The timer interface of the event loop (\<open>runAt\<close>, \<open>runAfter\<close>, \<open>runEvery\<close>, \<open>cancel\<close> in
  src/net/event_loop.cpp), and the service it promises its clients, the health checker and the
  load balancer's handler: a map from identifiers to what is pending. The timer queue, with its
  heap, its two sets and its cancelling set, refines this service.
\<close>

subsection \<open>The interface of the loop\<close>

definition runAt :: "((nat \<Rightarrow> 'cb timer option) \<Rightarrow> nat option) \<Rightarrow> timestamp \<Rightarrow> 'cb \<Rightarrow> timestamp
    \<Rightarrow> 'cb timer_queue \<Rightarrow> (timer_id \<times> 'cb timer_queue) res" where
  "runAt alloc time cb now tq = addTimer alloc cb time 0 now tq"

text \<open>The clock is read once for the expiration, \<open>now\<close>, and again when the descriptor is armed.\<close>

definition runAfter :: "((nat \<Rightarrow> 'cb timer option) \<Rightarrow> nat option) \<Rightarrow> rat \<Rightarrow> 'cb \<Rightarrow> timestamp \<Rightarrow> timestamp
    \<Rightarrow> 'cb timer_queue \<Rightarrow> (timer_id \<times> 'cb timer_queue) res" where
  "runAfter alloc delay cb now now' tq = runAt alloc (addTime now delay) cb now' tq"

definition runEvery :: "((nat \<Rightarrow> 'cb timer option) \<Rightarrow> nat option) \<Rightarrow> rat \<Rightarrow> 'cb \<Rightarrow> timestamp \<Rightarrow> timestamp
    \<Rightarrow> 'cb timer_queue \<Rightarrow> (timer_id \<times> 'cb timer_queue) res" where
  "runEvery alloc interval cb now now' tq = addTimer alloc cb (addTime now interval) interval now' tq"

definition loop_cancel :: "timer_id \<Rightarrow> 'cb timer_queue \<Rightarrow> 'cb timer_queue res" where
  "loop_cancel timer tq = cancelInLoop timer tq"

subsection \<open>The abstract service\<close>

text \<open>
  A pending timer is its callback and whether it repeats. \<open>ts_add\<close> is given the address part of the
  new identifier, \<open>ts_fire\<close> is what running a timer leaves: a repeating one stays.
\<close>

record 'cb timers =
  pending :: "timer_id \<Rightarrow> (bool \<times> 'cb) option"
  next_timer :: int

definition new_timers :: "'cb timers" where
  "new_timers = \<lparr>pending = (\<lambda>_. None), next_timer = 0\<rparr>"

definition ts_add :: "nat \<Rightarrow> bool \<Rightarrow> 'cb \<Rightarrow> 'cb timers \<Rightarrow> timer_id \<times> 'cb timers" where
  "ts_add p rep cb t = ((p, next_timer t),
     t\<lparr>pending := (pending t)((p, next_timer t) \<mapsto> (rep, cb)), next_timer := next_timer t + 1\<rparr>)"

definition ts_cancel :: "timer_id \<Rightarrow> 'cb timers \<Rightarrow> 'cb timers" where
  "ts_cancel tid t = t\<lparr>pending := (pending t)(tid := None)\<rparr>"

definition ts_fire :: "timer_id \<Rightarrow> 'cb timers \<Rightarrow> 'cb timers" where
  "ts_fire tid t = (case pending t tid of Some (False, _) \<Rightarrow> ts_cancel tid t | _ \<Rightarrow> t)"

text \<open>What a callback does with its commands.\<close>

fun ts_exec :: "'cb timer_cmd \<Rightarrow> 'cb timers \<Rightarrow> 'cb timers \<Rightarrow> bool" where
  "ts_exec (CAdd cb when interval now) t t' \<longleftrightarrow>
     (\<exists>p. 0 < p \<and> t' = snd (ts_add p (0 < interval) cb t))"
| "ts_exec (CCancel tid) t t' \<longleftrightarrow> t' = ts_cancel tid t"

fun ts_execs :: "'cb timer_cmd list \<Rightarrow> 'cb timers \<Rightarrow> 'cb timers \<Rightarrow> bool" where
  "ts_execs [] t t' \<longleftrightarrow> t' = t"
| "ts_execs (c # cs) t t' \<longleftrightarrow> (\<exists>u. ts_exec c t u \<and> ts_execs cs u t')"

lemma ts_execs_append: "ts_execs (cs @ ds) t v \<longleftrightarrow> (\<exists>u. ts_execs cs t u \<and> ts_execs ds u v)"
  by (induction cs arbitrary: t) auto

text \<open>
  One step of the service, with what ran. An expiry runs distinct pending timers, removes the single
  ones, and the commands of the callbacks that ran follow.
\<close>

fun ts_step :: "('cb \<Rightarrow> 'cb timer_queue \<Rightarrow> 'cb timer_cmd list) \<Rightarrow> 'cb tq_op \<Rightarrow> (int \<times> 'cb) list
    \<Rightarrow> 'cb timers \<Rightarrow> 'cb timers \<Rightarrow> bool" where
  "ts_step prog (OpAdd cb when interval now) lg t t' \<longleftrightarrow>
     lg = [] \<and> ts_exec (CAdd cb when interval now) t t'"
| "ts_step prog (OpCancel tid) lg t t' \<longleftrightarrow> lg = [] \<and> ts_exec (CCancel tid) t t'"
| "ts_step prog (OpFire now now') lg t t' \<longleftrightarrow>
     (\<exists>ids cs. distinct ids \<and> map fst lg = map snd ids \<and>
        list_all2 (\<lambda>tid (s, cb). \<exists>rep. pending t tid = Some (rep, cb)) ids lg \<and>
        (\<forall>c\<in>set cs. \<exists>x\<in>set lg. \<exists>q. c \<in> set (prog (snd x) q)) \<and>
        ts_execs cs (fold ts_fire ids t) t')"

inductive ts_run :: "('cb \<Rightarrow> 'cb timer_queue \<Rightarrow> 'cb timer_cmd list) \<Rightarrow> 'cb tq_op list \<Rightarrow> (int \<times> 'cb) list
    \<Rightarrow> 'cb timers \<Rightarrow> 'cb timers \<Rightarrow> bool"
  for prog where
  ts_done: "ts_run prog [] [] t t"
| ts_more: "ts_run prog ops lg t u \<Longrightarrow> ts_step prog op lg' u v \<Longrightarrow>
    ts_run prog (ops @ [op]) (lg @ lg') t v"

subsection \<open>The abstraction\<close>

text \<open>
  \<open>ts_abs E\<close> reads the service off a queue while the timers at the addresses \<open>E\<close> are in flight: of
  these, the repeating ones that nobody has cancelled are still pending.
\<close>

definition ts_abs :: "nat set \<Rightarrow> 'cb timer_queue \<Rightarrow> 'cb timers" where
  "ts_abs E tq = \<lparr>pending = (\<lambda>(p, s). case tq_heap tq p of None \<Rightarrow> None
      | Some tm \<Rightarrow> if tm_sequence tm = s \<and> (p \<in> E \<longrightarrow> tm_repeat tm \<and> (p, s) \<notin> tq_canceling tq)
          then Some (tm_repeat tm, tm_callback tm) else None),
    next_timer = tq_numCreated tq\<rparr>"

lemma ts_eqI: "pending t = pending u \<Longrightarrow> next_timer t = next_timer u \<Longrightarrow> t = (u :: 'cb timers)"
  by simp

lemma ts_abs_addTimer:
  assumes "tq_ok E tq" and "alloc_ok alloc"
  shows "post {BadAlloc} (addTimer alloc cb when interval now tq) (\<lambda>(tid, tq').
    tq_ok E tq' \<and> tq_frame E tq tq' \<and> 0 < fst tid \<and>
    tid = (fst tid, next_timer (ts_abs E tq)) \<and>
    ts_abs E tq' = snd (ts_add (fst tid) (0 < interval) cb (ts_abs E tq)))"
proof (rule post_mono [OF addTimer_ok [OF assms]], clarify, goal_cases)
  case (1 p s tq')
  have "tq_canceling tq' = tq_canceling tq" using 1(1) by (rule addTimer_canceling)
  moreover have "0 < p" using tq_okD(7) [OF 1(2), of p] 1(6) by auto
  ultimately show ?case using 1 by (auto simp: ts_abs_def ts_add_def fun_eq_iff new_Timer_def split: option.splits)
qed

lemma ts_abs_cancel:
  assumes ok: "tq_ok E tq" and E: "E \<noteq> {} \<Longrightarrow> tq_calling tq"
  shows "\<exists>tq'. cancelInLoop tid tq = Inr tq' \<and> tq_ok E tq' \<and> tq_frame E tq tq' \<and>
    ts_abs E tq' = ts_cancel tid (ts_abs E tq)"
proof -
  obtain p s where tid: "tid = (p, s)" by (cases tid)
  from cancelInLoop_ok [OF ok, of tid] obtain tq' where q: "cancelInLoop tid tq = Inr tq'"
    "tq_ok E tq'" "tq_frame E tq tq'" "tq_numCreated tq' = tq_numCreated tq"
    "tq_heap tq' = (if tid \<in> tq_active tq then (tq_heap tq)(fst tid := None) else tq_heap tq)" by blast
  have c: "tq_canceling tq' = (if tid \<notin> tq_active tq \<and> tq_calling tq then insert tid (tq_canceling tq)
      else tq_canceling tq)"
    using q(1) by (auto simp: cancelInLoop_def deref_def res_simps split: if_splits option.splits)
  have a: "tid \<in> tq_active tq \<longleftrightarrow> (\<exists>tm. tq_heap tq p = Some tm \<and> p \<notin> E \<and> tm_sequence tm = s)"
    unfolding tid by (rule tq_okD(5) [OF ok])
  have "ts_abs E tq' = ts_cancel tid (ts_abs E tq)"
  proof (rule ts_eqI, rule ext, clarify)
    fix r u
    show "pending (ts_abs E tq') (r, u) = pending (ts_cancel tid (ts_abs E tq)) (r, u)"
    proof (cases "tid \<in> tq_active tq")
      case True
      then have "tq_canceling tq' = tq_canceling tq" using c by simp
      with True a show ?thesis by (auto simp: ts_abs_def ts_cancel_def q(5) tid split: option.splits)
    next
      case False
      with a E show ?thesis
        by (cases "tq_heap tq r") (auto simp: ts_abs_def ts_cancel_def q(5) c tid)
    qed
  qed (simp add: ts_abs_def ts_cancel_def q(4))
  with q show ?thesis by blast
qed

lemma ts_abs_cmds:
  assumes "alloc_ok alloc" and "tq_ok E tq" and "E \<noteq> {} \<Longrightarrow> tq_calling tq"
  shows "post {BadAlloc} (fold_res (exec_cmd alloc) cs tq) (\<lambda>tq'. tq_ok E tq' \<and> tq_frame E tq tq' \<and>
    ts_execs cs (ts_abs E tq) (ts_abs E tq'))"
  using assms(2,3)
proof (induction cs arbitrary: tq)
  case Nil
  then show ?case by simp
next
  case (Cons c cs)
  have "post {BadAlloc} (exec_cmd alloc c tq) (\<lambda>q. tq_ok E q \<and> tq_frame E tq q \<and>
      ts_exec c (ts_abs E tq) (ts_abs E q))"
  proof (cases c)
    case (CAdd cb w iv now)
    show ?thesis unfolding CAdd exec_cmd.simps
      by (rule post_bind [OF ts_abs_addTimer [OF Cons.prems(1) assms(1)]])
        auto
  next
    case (CCancel tid)
    with ts_abs_cancel [OF Cons.prems, of tid] show ?thesis by auto
  qed
  then show ?case unfolding fold_res.simps
  proof (rule post_bind)
    fix q assume q: "tq_ok E q \<and> tq_frame E tq q \<and> ts_exec c (ts_abs E tq) (ts_abs E q)"
    then have "E \<noteq> {} \<Longrightarrow> tq_calling q" using Cons.prems(2) by (simp add: tq_frame_def)
    from Cons.IH [OF _ this] q show "post {BadAlloc} (fold_res (exec_cmd alloc) cs q)
        (\<lambda>tq'. tq_ok E tq' \<and> tq_frame E tq tq' \<and> ts_execs (c # cs) (ts_abs E tq) (ts_abs E tq'))"
      by (auto elim!: post_mono intro: tq_frame_trans)
  qed
qed

lemma pending_fold_fire:
  "pending (fold ts_fire ids t) x =
     (if x \<in> set ids \<and> (\<exists>cb. pending t x = Some (False, cb)) then None else pending t x)"
  "next_timer (fold ts_fire ids t) = next_timer t"
proof (induction ids arbitrary: t)
  case (Cons i ids)
  {
    case 1
    show ?case using Cons.IH(1) [of "ts_fire i t"]
      by (auto simp: ts_fire_def ts_cancel_def split: option.splits bool.splits)
  next
    case 2
    show ?case using Cons.IH(2) [of "ts_fire i t"]
      by (simp add: ts_fire_def ts_cancel_def split: option.splits bool.splits)
  }
qed simp_all

text \<open>The callbacks of an expiry: their commands, one after the other, on the service.\<close>

lemma ts_abs_run:
  fixes q0 :: "'cb timer_queue"
  assumes ok: "tq_ok (snd ` set due) q0" and al: "alloc_ok alloc" and call: "tq_calling q0"
  shows "post {BadAlloc} (fold_res (\<lambda>(t, p). timer_run alloc prog p) due ([], q0)) (\<lambda>(lg, q).
    tq_frame (snd ` set due) q0 q \<and> (\<exists>cs. (\<forall>c\<in>set cs. \<exists>e\<in>set due. \<exists>q. c \<in> set (prog (snd (tq_entry q0 e)) q)) \<and>
      ts_execs cs (ts_abs (snd ` set due) q0) (ts_abs (snd ` set due) q)))"
proof -
  let ?E = "snd ` set due"
  let ?from = "\<lambda>cs. \<forall>c\<in>set cs. \<exists>e\<in>set due. \<exists>q. c \<in> set (prog (snd (tq_entry q0 e)) q)"
  let ?I = "\<lambda>rest (lg :: (int \<times> 'cb) list, q :: 'cb timer_queue). tq_ok ?E q \<and> tq_frame ?E q0 q \<and>
    set rest \<subseteq> set due \<and> (\<exists>cs. ?from cs \<and> ts_execs cs (ts_abs ?E q0) (ts_abs ?E q))"
  have "post {BadAlloc} (fold_res (\<lambda>(t, p). timer_run alloc prog p) due ([], q0)) (?I [])"
  proof (rule post_fold_res)
    show "?I due ([], q0)" using ok by (auto intro!: exI [of _ "[]"])
  next
    fix e rest s
    assume I: "?I (e # rest) s"
    obtain lg q where s: "s = (lg, q)" by (cases s)
    obtain t p where e: "e = (t, p)" by (cases e)
    from I s obtain cs where cs: "?from cs" "ts_execs cs (ts_abs ?E q0) (ts_abs ?E q)"
      and okq: "tq_ok ?E q" and fr: "tq_frame ?E q0 q" and ed: "e \<in> set due" by auto
    have p: "p \<in> ?E" using ed e by force
    then obtain tm where tm0: "tq_heap q0 p = Some tm" using deref_ex [OF ok] by blast
    have tm: "tq_heap q p = Some tm" using fr p tm0 unfolding tq_frame_def by metis
    have en: "snd (tq_entry q0 e) = tm_callback tm" using tm0 e by (simp add: tq_entry_def)
    have "tq_calling q" using fr call by (simp add: tq_frame_def)
    note cmds = ts_abs_cmds [OF al okq this, of "prog (tm_callback tm) q"]
    show "post {BadAlloc} ((case e of (t, p) \<Rightarrow> timer_run alloc prog p) s) (?I rest)"
      unfolding e s timer_run_def prod.case deref_Some [OF tm] bind_res.simps
    proof (rule post_bind [OF cmds], clarsimp, goal_cases)
      case (1 q')
      have "?from (cs @ prog (tm_callback tm) q)" unfolding set_append using cs(1) ed en by (metis Un_iff)
      moreover have "ts_execs (cs @ prog (tm_callback tm) q) (ts_abs ?E q0) (ts_abs ?E q')"
        using cs(2) 1 by (auto simp: ts_execs_append)
      ultimately have "\<exists>cs. ?from cs \<and> ts_execs cs (ts_abs ?E q0) (ts_abs ?E q')" by blast
      moreover have "tq_frame ?E q0 q'" using 1 fr by (blast intro: tq_frame_trans)
      ultimately show ?case using 1 I by (simp add: s)
    qed
  qed
  then show ?thesis by (rule post_mono) auto
qed

text \<open>Restarting and deleting the timers in flight is invisible: the abstraction already says so.\<close>

lemma ts_abs_reset:
  assumes "\<forall>p\<in>E. tq_heap q p = tq_outcome now q0 p" and "\<forall>p. p \<notin> E \<longrightarrow> tq_heap q p = tq_heap q0 p"
    and "tq_numCreated q = tq_numCreated q0"
  shows "ts_abs {} q = ts_abs E q0"
proof (rule ts_eqI, rule ext, clarify)
  fix p s
  show "pending (ts_abs {} q) (p, s) = pending (ts_abs E q0) (p, s)"
    using assms(1,2) by (cases "p \<in> E"; cases "tq_heap q0 p")
      (auto simp: ts_abs_def tq_outcome_def timer_restart_def)
qed (simp add: ts_abs_def assms(3))

lemma ts_abs_expiry:
  fixes tq :: "'cb timer_queue"
  assumes ok: "tq_ok {} tq" and al: "alloc_ok alloc"
  shows "post {BadAlloc} (tq_handleRead alloc prog now now' tq) (\<lambda>(lg, tq').
    ts_step prog (OpFire now now') lg (ts_abs {} tq) (ts_abs {} tq'))"
proof -
  let ?due = "tq_due now tq"
  let ?E = "snd ` set ?due"
  let ?id = "\<lambda>e. (snd e, fst (tq_entry tq e))"
  have okr: "tq_ok {} (readTimerfd tq)" using ok by (simp add: tq_ok_def readTimerfd_def)
  have due: "tq_due now (readTimerfd tq) = ?due" by (simp add: tq_due_def readTimerfd_def)
  from getExpired_ok [OF okr, of now, unfolded due] obtain q1 where q1:
    "getExpired now (readTimerfd tq) = Inr (?due, q1)" "tq_ok ?E q1" "distinct (map snd ?due)"
    "tq_heap q1 = tq_heap tq" "tq_numCreated q1 = tq_numCreated tq"
    by (auto simp: readTimerfd_def)
  define q0 where "q0 = q1\<lparr>tq_calling := True, tq_canceling := {}\<rparr>"
  have ok0: "tq_ok ?E q0" using q1(2) by (simp add: tq_ok_def q0_def)
  have en: "tq_entry q0 = tq_entry tq" by (simp add: tq_entry_def fun_eq_iff q0_def q1)
  have due_heap: "tq_heap tq p = Some tm \<Longrightarrow> (p, tm_sequence tm) \<in> ?id ` set ?due \<longleftrightarrow> p \<in> ?E" for p tm
    by (force simp: tq_entry_def)
  have due_id: "(p, s) \<in> ?id ` set ?due \<Longrightarrow> p \<in> ?E \<and> (\<exists>tm. tq_heap tq p = Some tm \<and> tm_sequence tm = s)"
    for p s using tq_okD(6) [OF ok0, of p] by (force simp: tq_entry_def q0_def q1)
  have abs0: "ts_abs ?E q0 = fold ts_fire (map ?id ?due) (ts_abs {} tq)"
  proof (rule ts_eqI, rule ext, clarify)
    fix p s
    show "pending (ts_abs ?E q0) (p, s) = pending (fold ts_fire (map ?id ?due) (ts_abs {} tq)) (p, s)"
      unfolding pending_fold_fire set_map
      using due_heap [of p] due_id [of p s]
      by (cases "tq_heap tq p") (auto simp: ts_abs_def q0_def q1)
  qed (simp add: pending_fold_fire ts_abs_def q0_def q1)
  let ?run = "fold_res (\<lambda>(t, p). timer_run alloc prog p) ?due ([], q0)"
  have call: "tq_calling q0" by (simp add: q0_def)
  note both = post_conj [OF run_phase [OF ok0 al, of prog] ts_abs_run [OF ok0 al call, of prog]]
  show ?thesis unfolding tq_handleRead_def q1(1) bind_res.simps prod.case q0_def [symmetric]
  proof (rule post_bind [OF both], clarify, goal_cases)
    case (1 x q2 cs)
    have ok2: "tq_ok ?E (q2\<lparr>tq_calling := False\<rparr>)" using \<open>tq_ok ?E q2\<close> by (simp add: tq_ok_def)
    have out: "tq_outcome now (q2\<lparr>tq_calling := False\<rparr>) = tq_outcome now q2"
      by (auto simp: fun_eq_iff tq_outcome_def split: option.splits)
    from tq_reset_ok [OF ok2 q1(3), of now now'] obtain q3 where q3:
      "tq_reset ?due now now' (q2\<lparr>tq_calling := False\<rparr>) = Inr q3"
      "\<forall>p\<in>?E. tq_heap q3 p = tq_outcome now q2 p"
      "\<forall>p. p \<notin> ?E \<longrightarrow> tq_heap q3 p = tq_heap q2 p" "tq_numCreated q3 = tq_numCreated q2"
      by (auto simp: out)
    have fin: "ts_abs {} q3 = ts_abs ?E q2" by (rule ts_abs_reset) (use q3 in auto)
    define lg where lg: "lg = map (tq_entry tq) ?due"
    have "ts_step prog (OpFire now now') lg (ts_abs {} tq) (ts_abs {} q3)"
      unfolding ts_step.simps
    proof (intro exI conjI)
      show "distinct (map ?id ?due)"
        using q1(3) by (auto simp: distinct_map inj_on_def)
      show "map fst lg = map snd (map ?id ?due)" by (simp add: lg)
      show "list_all2 (\<lambda>tid (s, cb). \<exists>rep. pending (ts_abs {} tq) tid = Some (rep, cb)) (map ?id ?due) lg"
      proof -
        have "\<exists>rep. pending (ts_abs {} tq) (?id e) = Some (rep, snd (tq_entry tq e))" if "e \<in> set ?due" for e
        proof -
          have "snd e \<in> ?E" using that by simp
          from tq_okD(6) [OF ok0 this] show ?thesis
            by (auto simp: q0_def q1 ts_abs_def tq_entry_def)
        qed
        then show ?thesis unfolding lg list_all2_map1 list_all2_map2
          by (auto simp: list_all2_same split_beta)
      qed
      show "\<forall>c\<in>set cs. \<exists>x\<in>set lg. \<exists>q. c \<in> set (prog (snd x) q)" using 1 by (fastforce simp: lg en)
      show "ts_execs cs (fold ts_fire (map ?id ?due) (ts_abs {} tq)) (ts_abs {} q3)"
        using 1 by (simp add: fin flip: abs0)
    qed
    with q3(1) show ?case using 1 by (simp add: en lg del: ts_step.simps)
  qed
qed

lemma ts_abs_step:
  assumes "tq_ok {} tq" and "alloc_ok alloc"
  shows "post {BadAlloc} (tq_step alloc prog op (lg, tq)) (\<lambda>(lg', tq').
    \<exists>l. lg' = lg @ l \<and> ts_step prog op l (ts_abs {} tq) (ts_abs {} tq'))"
proof (cases op)
  case (OpAdd cb w iv now)
  show ?thesis unfolding OpAdd tq_step.simps
    by (rule post_bind [OF ts_abs_addTimer [OF assms]]) auto
next
  case (OpCancel tid)
  from ts_abs_cancel [OF assms(1), of tid] show ?thesis unfolding OpCancel by auto
next
  case (OpFire now now')
  show ?thesis unfolding OpFire tq_step.simps
    by (rule post_bind [OF ts_abs_expiry [OF assms]]) (auto simp del: ts_step.simps)
qed

lemma ts_abs_new: "ts_abs {} new_TimerQueue = new_timers"
  by (simp add: ts_abs_def new_TimerQueue_def new_timers_def fun_eq_iff)

subsection \<open>Properties\<close>



text \<open>
  A delayed call is never early, and runs once: a timer made by \<open>runAfter\<close> with a delay in whole
  seconds does not run at an expiry before the delay has passed since the clock was read, runs at the
  first expiry from then on, and is gone after it.
\<close>

theorem runAfter_runs_once:
  assumes "tq_ok {} tq" and "alloc_ok alloc" and "0 \<le> secs" and "secs * 1000000 < 2 ^ 53"
    and add: "runAfter alloc (of_int secs) cb t0 t1 tq = Inr (tid, tq1)"
    and fire: "tq_handleRead alloc prog now now' tq1 = Inr (lg, tq2)"
  shows "((snd tid, cb) \<in> set lg \<longleftrightarrow> t0 + secs * 1000000 \<le> now) \<and>
    (t0 + secs * 1000000 \<le> now \<longrightarrow> tq_heap tq2 (fst tid) = None)"
proof -
  obtain p s where tid: "tid = (p, s)" by (cases tid)
  define due where "due = t0 + secs * 1000000"
  have "\<bar>secs\<bar> * 1000000 < 2 ^ 53" using assms(3,4) by simp
  then have "addTimer alloc cb due 0 t1 tq = Inr ((p, s), tq1)"
    using add tid by (simp add: runAfter_def runAt_def addTime_seconds due_def)
  with addTimer_ok [OF assms(1,2), of cb due 0 t1] have ok: "tq_ok {} tq1"
    and heap: "tq_heap tq1 p = Some (new_Timer cb due 0 s)" by auto
  from handleRead_ok [OF ok assms(2), of prog now now'] fire
  have lg: "lg = map (tq_entry tq1) (tq_due now tq1)"
    and gone: "(due, p) \<in> set (tq_due now tq1) \<longrightarrow> tq_heap tq2 p = None"
    using heap by (auto simp: new_Timer_def)
  have mem: "(due, p) \<in> set (tq_timers tq1)"
    using tq_okD(4) [OF ok, of due p] heap by (simp add: new_Timer_def)
  have "(s, cb) \<in> set lg \<longleftrightarrow> due \<le> now"
  proof
    assume "due \<le> now"
    with mem have "(due, p) \<in> set (tq_due now tq1)" by (simp add: tq_due_def)
    moreover have "tq_entry tq1 (due, p) = (s, cb)" by (simp add: tq_entry_def heap new_Timer_def)
    ultimately show "(s, cb) \<in> set lg" unfolding lg by force
  next
    assume "(s, cb) \<in> set lg"
    then obtain t r where e: "(t, r) \<in> set (tq_timers tq1)" "t \<le> now" "fst (tq_entry tq1 (t, r)) = s"
      unfolding lg by (auto simp: tq_due_def) (metis fst_conv)
    then obtain tm where tm: "tq_heap tq1 r = Some tm" "tm_expiration tm = t"
      using deref_timers [OF ok] by blast
    then have "r = p" using tq_okD(8) [OF ok tm(1) heap] e(3) by (simp add: tq_entry_def new_Timer_def)
    with tm heap e(2) show "due \<le> now" by (auto simp: new_Timer_def)
  qed
  moreover have "due \<le> now \<Longrightarrow> tq_heap tq2 p = None" using mem gone by (simp add: tq_due_def)
  ultimately show ?thesis by (simp add: tid due_def)
qed

theorem runAfter_runs_once_witness:
  "\<exists>tq1 tq2. runAfter small_alloc 60 7 1000 1001 (new_TimerQueue :: nat timer_queue) = Inr ((1, 0), tq1) \<and>
     tq_handleRead small_alloc sample_prog 60001000 60001001 tq1 = Inr ([(0, 7)], tq2) \<and>
     tq_heap tq2 1 = None"
proof -
  have due: "addTime 1000 60 = 60001000" using addTime_seconds [of 60 1000] by simp
  obtain tq1 :: "nat timer_queue" where 1:
    "runAfter small_alloc 60 7 1000 1001 (new_TimerQueue :: nat timer_queue) = Inr ((1, 0), tq1)"
    "tq1 = \<lparr>tq_timers = [(60001000, 1)], tq_active = {(1, 0)}, tq_calling = False, tq_canceling = {},
       tq_heap = [1 \<mapsto> new_Timer 7 60001000 0 0], tq_numCreated = 1,
       tq_armed = Some (60001000, howMuchTimeFromNow 60001000 1001)\<rparr>"
    by (simp add: runAfter_def runAt_def due tq_eval)
  obtain tq2 where 2: "tq_handleRead small_alloc sample_prog 60001000 60001001 tq1 = Inr ([(0, 7)], tq2)"
    unfolding 1(2) by (simp add: tq_eval sample_prog_def)
  have "runAfter small_alloc (of_int 60) 7 1000 1001 (new_TimerQueue :: nat timer_queue) = Inr ((1, 0), tq1)"
    using 1(1) by simp
  from runAfter_runs_once [OF tq_ok_new small_alloc_ok _ _ this 2] have "tq_heap tq2 1 = None" by simp
  with 1(1) 2 show ?thesis by blast
qed

end
