(* ===== verification/HealthCheck.thy ===== *)
theory HealthCheck
  imports LoadBalancer Channel LoopTimers
begin

text \<open>
  The health checker (src/app/health_checker.h, src/app/health_checker.cpp): a repeating timer
  connects to every configured backend and reports the outcome to the load balancer. A connection
  that does not complete at once becomes a probe: a channel that waits for writability and a timer
  of one second; whichever comes first decides, and the other must not decide again.

  The system calls are the fields of \<open>probe_env\<close>, functions on the kernel \<open>'k\<close>. The timers of the
  loop are the service of theory LoopTimers, which the timer queue refines; \<open>pe_addr\<close> is the address
  part of the next identifier. What the closures of a probe capture is its record \<open>probe\<close>; its last
  two fields only record history. One call of \<open>epoll_wait\<close> returns a batch of events, and the loop
  handles them one after the other.
\<close>

subsection \<open>State\<close>

datatype hc_timer = CheckTick | ProbeTimeout nat

datatype hc_event = TimerEvent | ProbeEvent nat

datatype probe_cb = OnProbeWritable

record probe =
  pr_addr :: inet_address
  pr_fd :: fd
  pr_channel :: "probe_cb channel"
  pr_timer :: timer_id
  pr_reports :: "bool list"
  pr_closes :: nat

record 'k checker =
  hc_lb :: load_balancer
  hc_timers :: "hc_timer timers"
  hc_probes :: "probe list"
  hc_kern :: 'k
  hc_batch :: "hc_event list"

record 'k probe_env =
  pe_socket :: "'k \<Rightarrow> fd \<times> 'k"
  pe_connect :: "fd \<Rightarrow> inet_address \<Rightarrow> 'k \<Rightarrow> int \<times> errno \<times> 'k"
  pe_so_error :: "fd \<Rightarrow> 'k \<Rightarrow> int \<times> errno \<times> 'k"
  pe_close :: "fd \<Rightarrow> 'k \<Rightarrow> 'k"
  pe_epoll :: "'k epoll_ctl"
  pe_looping :: "'k \<Rightarrow> bool"
  pe_in_loop :: "'k \<Rightarrow> bool"
  pe_addr :: "hc_timer timers \<Rightarrow> nat"

definition new_HealthChecker :: "load_balancer \<Rightarrow> 'k \<Rightarrow> 'k checker" where
  "new_HealthChecker lb k = \<lparr>hc_lb = lb, hc_timers = new_timers, hc_probes = [], hc_kern = k, hc_batch = []\<rparr>"

subsection \<open>Operations\<close>

definition hc_runTimer :: "'k probe_env \<Rightarrow> bool \<Rightarrow> hc_timer \<Rightarrow> 'k checker \<Rightarrow> timer_id \<times> 'k checker" where
  "hc_runTimer env rep cb s = (case ts_add (pe_addr env (hc_timers s)) rep cb (hc_timers s) of
     (tid, t) \<Rightarrow> (tid, s\<lparr>hc_timers := t\<rparr>))"

definition hc_start :: "'k probe_env \<Rightarrow> 'k checker \<Rightarrow> 'k checker" where
  "hc_start env s = snd (hc_runTimer env True CheckTick s)"

text \<open>A report of a running probe, and the end of a probe: off, removed, closed.\<close>

definition probe_report :: "nat \<Rightarrow> bool \<Rightarrow> 'k checker \<Rightarrow> 'k checker" where
  "probe_report i up s = (let p = hc_probes s ! i in
     s\<lparr>hc_lb := updateHealthStatus (pr_addr p) up (hc_lb s),
       hc_probes := (hc_probes s)[i := p\<lparr>pr_reports := pr_reports p @ [up]\<rparr>]\<rparr>)"

definition probe_finish :: "'k probe_env \<Rightarrow> nat \<Rightarrow> 'k checker \<Rightarrow> 'k checker res" where
  "probe_finish env i s =
     (let p = hc_probes s ! i in
      case disableAll (pe_epoll env) (pr_channel p, hc_kern s) of (ch, k1) \<Rightarrow>
      bind_res (channel_remove (pe_epoll env) (pe_looping env k1) (pe_in_loop env k1) (ch, k1))
        (\<lambda>(ch, k2). Inr (s\<lparr>hc_kern := pe_close env (pr_fd p) k2,
           hc_probes := (hc_probes s)[i := p\<lparr>pr_channel := ch, pr_closes := pr_closes p + 1\<rparr>]\<rparr>)))"

text \<open>The timer's closure, guarded by \<open>isWriting\<close>, and the channel's, which has no guard.\<close>

definition probe_timeout :: "'k probe_env \<Rightarrow> nat \<Rightarrow> 'k checker \<Rightarrow> 'k checker res" where
  "probe_timeout env i s =
     (if isWriting (pr_channel (hc_probes s ! i)) then probe_finish env i (probe_report i False s) else Inr s)"

definition probe_writable :: "'k probe_env \<Rightarrow> nat \<Rightarrow> 'k checker \<Rightarrow> 'k checker res" where
  "probe_writable env i s =
     (let p = hc_probes s ! i; s = s\<lparr>hc_timers := ts_cancel (pr_timer p) (hc_timers s)\<rparr> in
      case pe_so_error env (pr_fd p) (hc_kern s) of (ret, error, k) \<Rightarrow>
        probe_finish env i (probe_report i (\<not> (ret < 0 \<or> error \<noteq> 0)) (s\<lparr>hc_kern := k\<rparr>)))"

definition probe_open :: "'k probe_env \<Rightarrow> inet_address \<Rightarrow> fd \<Rightarrow> 'k checker \<Rightarrow> 'k checker" where
  "probe_open env addr sockfd s =
     (case hc_runTimer env False (ProbeTimeout (length (hc_probes s))) s of (tid, s1) \<Rightarrow>
      case enableWriting (pe_epoll env) (setWriteCallback OnProbeWritable (new_Channel sockfd), hc_kern s1) of
        (ch, k) \<Rightarrow>
        s1\<lparr>hc_kern := k, hc_probes := hc_probes s1 @ [\<lparr>pr_addr = addr, pr_fd = sockfd, pr_channel = ch,
             pr_timer = tid, pr_reports = [], pr_closes = 0\<rparr>]\<rparr>)"

definition probe :: "'k probe_env \<Rightarrow> inet_address \<Rightarrow> 'k checker \<Rightarrow> 'k checker" where
  "probe env addr s =
     (case pe_socket env (hc_kern s) of (sockfd, k1) \<Rightarrow>
        if sockfd < 0 then s\<lparr>hc_kern := k1\<rparr>
        else (case pe_connect env sockfd addr k1 of (ret, err, k2) \<Rightarrow>
          let s2 = s\<lparr>hc_kern := k2\<rparr> in
          if ret = 0 then
            s2\<lparr>hc_lb := updateHealthStatus addr True (hc_lb s2), hc_kern := pe_close env sockfd k2\<rparr>
          else if err = EINPROGRESS then probe_open env addr sockfd s2
          else s2\<lparr>hc_lb := updateHealthStatus addr False (hc_lb s2), hc_kern := pe_close env sockfd k2\<rparr>))"

definition checkBackends :: "'k probe_env \<Rightarrow> 'k checker \<Rightarrow> 'k checker" where
  "checkBackends env s = fold (probe env) (getAllBackends (hc_lb s)) s"

fun hc_run_timer :: "'k probe_env \<Rightarrow> hc_timer \<Rightarrow> 'k checker \<Rightarrow> 'k checker res" where
  "hc_run_timer env CheckTick s = Inr (checkBackends env s)"
| "hc_run_timer env (ProbeTimeout i) s = probe_timeout env i s"

text \<open>
  The timer descriptor is readable: the timers \<open>ids\<close> have expired; single ones leave the queue before
  any callback runs.
\<close>

definition hc_expire :: "'k probe_env \<Rightarrow> timer_id list \<Rightarrow> 'k checker \<Rightarrow> 'k checker res" where
  "hc_expire env ids s =
     fold_res (hc_run_timer env) (map (\<lambda>tid. snd (the (pending (hc_timers s) tid))) ids)
       (s\<lparr>hc_timers := fold ts_fire ids (hc_timers s)\<rparr>)"

subsection \<open>Steps\<close>

text \<open>
  epoll reports a probe only while its channel is registered for writing and its descriptor open.
  \<open>batch\<close> says which batches can occur: \<open>timer_last\<close> those in which the timer descriptor comes after
  every probe. Other threads use the load balancer at any time.
\<close>

definition reportable :: "'k checker \<Rightarrow> hc_event \<Rightarrow> bool" where
  "reportable s e = (case e of TimerEvent \<Rightarrow> True | ProbeEvent i \<Rightarrow>
     i < length (hc_probes s) \<and> isWriting (pr_channel (hc_probes s ! i)) \<and> pr_closes (hc_probes s ! i) = 0)"

definition timer_last :: "hc_event list \<Rightarrow> bool" where
  "timer_last es \<longleftrightarrow> TimerEvent \<notin> set (butlast es)"

inductive hc_step :: "'k probe_env \<Rightarrow> (hc_event list \<Rightarrow> bool) \<Rightarrow> 'k checker \<Rightarrow> 'k checker res \<Rightarrow> bool"
  for env batch where
  wait: "hc_batch s = [] \<Longrightarrow> distinct es \<Longrightarrow> \<forall>e\<in>set es. reportable s e \<Longrightarrow> batch es \<Longrightarrow>
    hc_step env batch s (Inr (s\<lparr>hc_batch := es\<rparr>))"
| writable: "hc_batch s = ProbeEvent i # es \<Longrightarrow>
    hc_step env batch s (probe_writable env i (s\<lparr>hc_batch := es\<rparr>))"
| expire: "hc_batch s = TimerEvent # es \<Longrightarrow> distinct ids \<Longrightarrow> \<forall>tid\<in>set ids. pending (hc_timers s) tid \<noteq> None \<Longrightarrow>
    hc_step env batch s (hc_expire env ids (s\<lparr>hc_batch := es\<rparr>))"
| other: "lb_step x (hc_lb s) = Inr (out, lb) \<Longrightarrow> hc_step env batch s (Inr (s\<lparr>hc_lb := lb\<rparr>))"

inductive hc_reach :: "'k probe_env \<Rightarrow> (hc_event list \<Rightarrow> bool) \<Rightarrow> load_balancer \<Rightarrow> 'k \<Rightarrow> 'k checker \<Rightarrow> bool"
  for env batch lb k where
  hc_init: "hc_reach env batch lb k (hc_start env (new_HealthChecker lb k))"
| hc_more: "hc_reach env batch lb k s \<Longrightarrow> hc_step env batch s (Inr s') \<Longrightarrow> hc_reach env batch lb k s'"

inductive_cases hc_stepE: "hc_step env batch s r"

subsection \<open>Invariant\<close>

text \<open>
  A probe is running, with its channel waiting and its timer pending or, while an expiry is being
  handled, among the timers \<open>F\<close> in flight; or it is over, after one report and one close, with nothing
  left that could call it.
\<close>

definition running :: "timer_id set \<Rightarrow> hc_timer timers \<Rightarrow> nat \<Rightarrow> probe \<Rightarrow> bool" where
  "running F t i p \<longleftrightarrow> pr_reports p = [] \<and> pr_closes p = 0 \<and> isWriting (pr_channel p) \<and>
     (pending t (pr_timer p) = Some (False, ProbeTimeout i) \<or> pr_timer p \<in> F)"

definition over :: "timer_id set \<Rightarrow> hc_timer timers \<Rightarrow> probe \<Rightarrow> bool" where
  "over F t p \<longleftrightarrow> length (pr_reports p) = 1 \<and> pr_closes p = 1 \<and> \<not> isWriting (pr_channel p) \<and>
     pending t (pr_timer p) = None \<and> pr_timer p \<notin> F"

text \<open>What a pending timer, or one in flight, is there for.\<close>

definition meant_for :: "probe list \<Rightarrow> timer_id \<Rightarrow> bool \<times> hc_timer \<Rightarrow> bool" where
  "meant_for ps tid x \<longleftrightarrow> x = (True, CheckTick) \<or>
     (\<exists>i<length ps. x = (False, ProbeTimeout i) \<and> pr_timer (ps ! i) = tid)"

definition hc_inv :: "timer_id set \<Rightarrow> 'k checker \<Rightarrow> bool" where
  "hc_inv F s \<longleftrightarrow>
     (\<forall>i<length (hc_probes s). running F (hc_timers s) i (hc_probes s ! i) \<or> over F (hc_timers s) (hc_probes s ! i)) \<and>
     distinct (map pr_timer (hc_probes s)) \<and>
     (\<forall>p\<in>set (hc_probes s). snd (pr_timer p) < next_timer (hc_timers s)) \<and>
     (\<forall>tid x. pending (hc_timers s) tid = Some x \<longrightarrow>
        snd tid < next_timer (hc_timers s) \<and> tid \<notin> F \<and> meant_for (hc_probes s) tid x) \<and>
     (\<forall>tid\<in>F. snd tid < next_timer (hc_timers s))"

lemma hc_invD:
  assumes "hc_inv F s"
  shows "i < length (hc_probes s) \<Longrightarrow>
      running F (hc_timers s) i (hc_probes s ! i) \<or> over F (hc_timers s) (hc_probes s ! i)"
    and "i < length (hc_probes s) \<Longrightarrow> j < length (hc_probes s) \<Longrightarrow>
      pr_timer (hc_probes s ! i) = pr_timer (hc_probes s ! j) \<Longrightarrow> i = j"
    and "pending (hc_timers s) tid = Some x \<Longrightarrow>
      snd tid < next_timer (hc_timers s) \<and> tid \<notin> F \<and> meant_for (hc_probes s) tid x"
proof -
  show "i < length (hc_probes s) \<Longrightarrow>
      running F (hc_timers s) i (hc_probes s ! i) \<or> over F (hc_timers s) (hc_probes s ! i)"
    using assms unfolding hc_inv_def by blast
  have "distinct (map pr_timer (hc_probes s))" using assms unfolding hc_inv_def by blast
  from nth_eq_iff_index_eq [OF this, of i j]
  show "i < length (hc_probes s) \<Longrightarrow> j < length (hc_probes s) \<Longrightarrow>
      pr_timer (hc_probes s ! i) = pr_timer (hc_probes s ! j) \<Longrightarrow> i = j" by simp
  show "pending (hc_timers s) tid = Some x \<Longrightarrow>
      snd tid < next_timer (hc_timers s) \<and> tid \<notin> F \<and> meant_for (hc_probes s) tid x"
    using assms unfolding hc_inv_def by blast
qed

text \<open>The loop thread owns the checker: \<open>Channel::remove\<close> cannot fail its assertion.\<close>

definition probe_env_ok :: "'k probe_env \<Rightarrow> bool" where
  "probe_env_ok env \<longleftrightarrow> (\<forall>k. pe_in_loop env k)"

lemma enable_disable_writing:
  "isWriting (fst (enableWriting ctl s))" "\<not> isWriting (fst (disableAll ctl s))"
  "isNoneEvent (fst (disableAll ctl s))"
  by (auto simp: mask_bits enableWriting_def disableAll_def bit_or_iff bit_masks isNoneEvent_def)

lemma probe_finish_ok:
  assumes "probe_env_ok env"
  shows "\<exists>ch k. probe_finish env i s = Inr (s\<lparr>hc_kern := k, hc_probes := (hc_probes s)
      [i := (hc_probes s ! i)\<lparr>pr_channel := ch, pr_closes := pr_closes (hc_probes s ! i) + 1\<rparr>]\<rparr>) \<and> \<not> isWriting ch"
proof -
  obtain ch k1 where d: "disableAll (pe_epoll env) (pr_channel (hc_probes s ! i), hc_kern s) = (ch, k1)"
    by fastforce
  then have ch: "isNoneEvent ch" "\<not> isWriting ch"
    using enable_disable_writing(2,3) [of "pe_epoll env" "(pr_channel (hc_probes s ! i), hc_kern s)"] by simp_all
  obtain k2 where "channel_remove (pe_epoll env) (pe_looping env k1) (pe_in_loop env k1) (ch, k1) =
      Inr (ch\<lparr>ch_index := - 1\<rparr>, k2)"
    using ch(1) assms unfolding probe_env_ok_def
    by (cases "pe_looping env k1") (simp_all add: channel_remove_def removeChannel_def Let_def)
  moreover have "\<not> isWriting (ch\<lparr>ch_index := - 1\<rparr>)" using ch(2) by (simp add: isWriting_def)
  ultimately show ?thesis using d by (auto simp: probe_finish_def Let_def)
qed

lemma probe_report_frame [simp]:
  "hc_timers (probe_report i up s) = hc_timers s" "hc_batch (probe_report i up s) = hc_batch s"
  by (simp_all add: probe_report_def Let_def)

text \<open>Deciding a running probe makes it over.\<close>

lemma decide_ok:
  assumes env: "probe_env_ok env" and inv: "hc_inv F s" and i: "i < length (hc_probes s)"
    and open_i: "pr_closes (hc_probes s ! i) = 0"
    and t: "t = ts_cancel (pr_timer (hc_probes s ! i)) (hc_timers s)"
  shows "\<exists>s'. probe_finish env i (probe_report i up (s\<lparr>hc_timers := t, hc_kern := k\<rparr>)) = Inr s' \<and>
    hc_inv (F - {pr_timer (hc_probes s ! i)}) s' \<and> hc_batch s' = hc_batch s \<and>
    length (hc_probes s') = length (hc_probes s) \<and>
    (\<forall>j<length (hc_probes s). pr_timer (hc_probes s' ! j) = pr_timer (hc_probes s ! j) \<and>
      (j \<noteq> i \<longrightarrow> hc_probes s' ! j = hc_probes s ! j))"
proof -
  let ?p = "hc_probes s ! i" and ?s = "probe_report i up (s\<lparr>hc_timers := t, hc_kern := k\<rparr>)"
  from probe_finish_ok [OF env, of i ?s] obtain ch k' where
    fin: "probe_finish env i ?s = Inr (?s\<lparr>hc_kern := k', hc_probes := (hc_probes s)
      [i := ?p\<lparr>pr_reports := pr_reports ?p @ [up], pr_channel := ch, pr_closes := pr_closes ?p + 1\<rparr>]\<rparr>)"
    and ch: "\<not> isWriting ch" using i by (auto simp: probe_report_def Let_def)
  have run: "running F (hc_timers s) i ?p" using hc_invD(1) [OF inv i] open_i by (auto simp: over_def)
  let ?s' = "?s\<lparr>hc_kern := k', hc_probes := (hc_probes s)
      [i := ?p\<lparr>pr_reports := pr_reports ?p @ [up], pr_channel := ch, pr_closes := pr_closes ?p + 1\<rparr>]\<rparr>"
  have tm: "pr_timer (hc_probes ?s' ! j) = pr_timer (hc_probes s ! j)" if "j < length (hc_probes s)" for j
    using that by (cases "j = i") simp_all
  then have mt: "map pr_timer (hc_probes ?s') = map pr_timer (hc_probes s)"
    by (intro nth_equalityI) simp_all
  have set_t: "pr_timer ` set (hc_probes ?s') = pr_timer ` set (hc_probes s)"
    using mt by (metis set_map)
  have pt: "pending t tid = (if tid = pr_timer ?p then None else pending (hc_timers s) tid)" for tid
    by (simp add: t ts_cancel_def)
  have nt: "next_timer t = next_timer (hc_timers s)" by (simp add: t ts_cancel_def)
  have tt: "hc_timers ?s' = t" by (simp add: probe_report_def Let_def)
  have "hc_inv (F - {pr_timer ?p}) ?s'"
    unfolding hc_inv_def
  proof (intro conjI allI impI)
    fix j assume j: "j < length (hc_probes ?s')"
    show "running (F - {pr_timer ?p}) (hc_timers ?s') j (hc_probes ?s' ! j) \<or>
      over (F - {pr_timer ?p}) (hc_timers ?s') (hc_probes ?s' ! j)"
    proof (cases "j = i")
      case True
      then show ?thesis using i run ch by (auto simp: over_def running_def tt pt)
    next
      case False
      then have "pr_timer (hc_probes s ! j) \<noteq> pr_timer ?p" using hc_invD(2) [OF inv _ i, of j] j by auto
      with False j hc_invD(1) [OF inv, of j] show ?thesis
        by (auto simp: over_def running_def tt pt)
    qed
  next
    show "distinct (map pr_timer (hc_probes ?s'))" unfolding mt using inv by (simp add: hc_inv_def)
    have "\<forall>tid\<in>pr_timer ` set (hc_probes s). snd tid < next_timer (hc_timers s)"
      using inv unfolding hc_inv_def by blast
    then show "\<forall>p\<in>set (hc_probes ?s'). snd (pr_timer p) < next_timer (hc_timers ?s')"
      unfolding tt nt set_t [symmetric] by blast
    show "\<forall>tid\<in>F - {pr_timer ?p}. snd tid < next_timer (hc_timers ?s')"
      unfolding tt nt using inv unfolding hc_inv_def by blast
    fix tid x assume "pending (hc_timers ?s') tid = Some x"
    then have p: "pending (hc_timers s) tid = Some x" by (simp add: tt pt split: if_splits)
    from hc_invD(3) [OF inv p] show "tid \<notin> F - {pr_timer ?p}" by simp
    from hc_invD(3) [OF inv p] show "snd tid < next_timer (hc_timers ?s')"
      by (simp add: tt nt)
    from hc_invD(3) [OF inv p] tm show "meant_for (hc_probes ?s') tid x"
      unfolding meant_for_def by auto
  qed
  with fin tm show ?thesis by (intro exI [of _ ?s']) simp
qed

text \<open>New probes are appended, and run.\<close>

definition grown :: "'k checker \<Rightarrow> 'k checker \<Rightarrow> bool" where
  "grown s s' \<longleftrightarrow> hc_batch s' = hc_batch s \<and> (\<exists>ps. hc_probes s' = hc_probes s @ ps)"

lemma grown_refl [simp]: "grown s s"
  by (simp add: grown_def)

lemma grown_trans: "grown s t \<Longrightarrow> grown t u \<Longrightarrow> grown s u"
  by (auto simp: grown_def)

lemma grown_nth: "grown s s' \<Longrightarrow> i < length (hc_probes s) \<Longrightarrow>
    hc_probes s' ! i = hc_probes s ! i \<and> i < length (hc_probes s')"
  by (auto simp: grown_def nth_append)

lemma probe_open_ok:
  assumes inv: "hc_inv F s"
  shows "hc_inv F (probe_open env addr f s) \<and> grown s (probe_open env addr f s)"
proof -
  let ?n = "length (hc_probes s)"
  let ?tid = "(pe_addr env (hc_timers s), next_timer (hc_timers s))"
  let ?t = "snd (ts_add (pe_addr env (hc_timers s)) False (ProbeTimeout ?n) (hc_timers s))"
  obtain ch k where en: "enableWriting (pe_epoll env) (setWriteCallback OnProbeWritable (new_Channel f), hc_kern s) = (ch, k)"
    by fastforce
  then have ch: "isWriting ch" using enable_disable_writing(1)
      [of "pe_epoll env" "(setWriteCallback OnProbeWritable (new_Channel f), hc_kern s)"] by simp
  let ?p = "\<lparr>pr_addr = addr, pr_fd = f, pr_channel = ch, pr_timer = ?tid, pr_reports = [], pr_closes = 0\<rparr>"
  have eq: "probe_open env addr f s = s\<lparr>hc_timers := ?t, hc_kern := k, hc_probes := hc_probes s @ [?p]\<rparr>"
    using en by (simp add: probe_open_def hc_runTimer_def ts_add_def)
  have pt: "pending ?t tid = (if tid = ?tid then Some (False, ProbeTimeout ?n) else pending (hc_timers s) tid)" for tid
    by (simp add: ts_add_def)
  have nt: "next_timer ?t = next_timer (hc_timers s) + 1" by (simp add: ts_add_def)
  have old: "pr_timer p \<noteq> ?tid" if "p \<in> set (hc_probes s)" for p using inv that by (auto simp: hc_inv_def)
  have fresh: "?tid \<notin> F" using inv by (auto simp: hc_inv_def)
  have mf: "meant_for (hc_probes s @ [?p]) tid x" if "meant_for (hc_probes s) tid x" for tid x
    using that unfolding meant_for_def by (metis length_append_singleton less_SucI nth_append_left)
  let ?s' = "s\<lparr>hc_timers := ?t, hc_kern := k, hc_probes := hc_probes s @ [?p]\<rparr>"
  have "hc_inv F ?s'"
    unfolding hc_inv_def
  proof (intro conjI allI impI)
    fix i assume "i < length (hc_probes ?s')"
    show "running F (hc_timers ?s') i (hc_probes ?s' ! i) \<or> over F (hc_timers ?s') (hc_probes ?s' ! i)"
    proof (cases "i = ?n")
      case True
      then show ?thesis using ch by (simp add: running_def pt del: prod.collapse)
    next
      case False
      then have i: "i < ?n" using \<open>i < length (hc_probes ?s')\<close> by simp
      with hc_invD(1) [OF inv i] old [OF nth_mem [OF i]] show ?thesis
        by (auto simp: running_def over_def pt nth_append)
    qed
  next
    have "?tid \<notin> pr_timer ` set (hc_probes s)" using old by force
    then show "distinct (map pr_timer (hc_probes ?s'))" using inv by (simp add: hc_inv_def)
    show "\<forall>p\<in>set (hc_probes ?s'). snd (pr_timer p) < next_timer (hc_timers ?s')"
      and "\<forall>tid\<in>F. snd tid < next_timer (hc_timers ?s')"
      using inv by (auto simp: hc_inv_def nt)
    fix tid x assume p: "pending (hc_timers ?s') tid = Some x"
    show "snd tid < next_timer (hc_timers ?s')" "tid \<notin> F" "meant_for (hc_probes ?s') tid x"
      using p hc_invD(3) [OF inv, of tid x] fresh mf [of tid x]
      by (auto simp: pt nt meant_for_def split: if_splits)
  qed
  then show ?thesis unfolding eq by (simp add: grown_def)
qed

lemma hc_inv_frame:
  "hc_timers s' = hc_timers s \<Longrightarrow> hc_probes s' = hc_probes s \<Longrightarrow> hc_inv F s' = hc_inv F s"
  by (simp add: hc_inv_def)

lemma probe_ok:
  assumes "hc_inv F s"
  shows "hc_inv F (probe env addr s) \<and> grown s (probe env addr s)"
proof -
  obtain sock k1 where k1: "pe_socket env (hc_kern s) = (sock, k1)" by fastforce
  obtain ret err k2 where k2: "pe_connect env sock addr k1 = (ret, err, k2)" by (metis prod_cases3)
  have "hc_inv F (s\<lparr>hc_kern := k2\<rparr>)" using assms by (simp add: hc_inv_def)
  from probe_open_ok [OF this, of env addr sock] show ?thesis
    using k1 k2 assms by (auto simp: probe_def Let_def hc_inv_def grown_def)
qed

lemma checkBackends_ok:
  assumes "hc_inv F s"
  shows "hc_inv F (checkBackends env s) \<and> grown s (checkBackends env s)"
proof -
  have "hc_inv F s \<Longrightarrow> hc_inv F (fold (probe env) as s) \<and> grown s (fold (probe env) as s)" for as
  proof (induction as arbitrary: s)
    case Nil
    then show ?case by simp
  next
    case (Cons a as)
    note p = probe_ok [OF Cons.prems, of env a]
    from Cons.IH [OF conjunct1 [OF p]] p grown_trans [of s "probe env a s"] show ?case by simp
  qed
  then show ?thesis using assms by (simp add: checkBackends_def)
qed

subsection \<open>The invariant is kept\<close>

lemma expire_fold:
  assumes env: "probe_env_ok env"
  shows "hc_inv F s \<Longrightarrow> distinct ids \<Longrightarrow> F \<subseteq> set ids \<Longrightarrow>
    \<forall>tid\<in>set ids. f tid = CheckTick \<and> tid \<notin> F \<or>
      (\<exists>i<length (hc_probes s). f tid = ProbeTimeout i \<and> pr_timer (hc_probes s ! i) = tid \<and> tid \<in> F) \<Longrightarrow>
    \<exists>s'. fold_res (hc_run_timer env) (map f ids) s = Inr s' \<and> hc_inv {} s' \<and> hc_batch s' = hc_batch s"
proof (induction ids arbitrary: F s)
  case Nil
  then show ?case by simp
next
  case (Cons tid ids)
  from Cons.prems(4) have "f tid = CheckTick \<and> tid \<notin> F \<or>
      (\<exists>i<length (hc_probes s). f tid = ProbeTimeout i \<and> pr_timer (hc_probes s ! i) = tid \<and> tid \<in> F)" by simp
  then show ?case
  proof (elim disjE conjE exE)
    assume tick: "f tid = CheckTick" "tid \<notin> F"
    note c = checkBackends_ok [OF Cons.prems(1), of env]
    from grown_nth [OF conjunct2 [OF c]] Cons.prems(4) have
      "\<forall>tid\<in>set ids. f tid = CheckTick \<and> tid \<notin> F \<or> (\<exists>i<length (hc_probes (checkBackends env s)).
        f tid = ProbeTimeout i \<and> pr_timer (hc_probes (checkBackends env s) ! i) = tid \<and> tid \<in> F)"
      by (metis list.set_intros(2))
    moreover have "F \<subseteq> set ids" using Cons.prems(3) tick(2) by auto
    ultimately show ?thesis using Cons.IH [OF conjunct1 [OF c]] Cons.prems(2) c tick(1)
      by (simp add: grown_def)
  next
    fix i assume i: "i < length (hc_probes s)" "f tid = ProbeTimeout i"
      "pr_timer (hc_probes s ! i) = tid" "tid \<in> F"
    have "running F (hc_timers s) i (hc_probes s ! i)"
      using hc_invD(1) [OF Cons.prems(1) i(1)] i(3,4) by (simp add: over_def)
    then have run: "isWriting (pr_channel (hc_probes s ! i))" "pr_closes (hc_probes s ! i) = 0"
      by (simp_all add: running_def)
    have "pending (hc_timers s) tid = None"
      using hc_invD(3) [OF Cons.prems(1), of tid] i(4) by (cases "pending (hc_timers s) tid") auto
    then have "hc_timers s = ts_cancel (pr_timer (hc_probes s ! i)) (hc_timers s)"
      using i(3) by (simp add: ts_cancel_def fun_upd_idem)
    from decide_ok [OF env Cons.prems(1) i(1) run(2) this, of False "hc_kern s"] obtain s' where
      s': "probe_finish env i (probe_report i False s) = Inr s'" "hc_inv (F - {tid}) s'"
        "hc_batch s' = hc_batch s" "length (hc_probes s') = length (hc_probes s)"
        "\<forall>j<length (hc_probes s). pr_timer (hc_probes s' ! j) = pr_timer (hc_probes s ! j)"
      using i(3) by auto
    have "\<forall>t\<in>set ids. f t = CheckTick \<and> t \<notin> F - {tid} \<or> (\<exists>i<length (hc_probes s').
        f t = ProbeTimeout i \<and> pr_timer (hc_probes s' ! i) = t \<and> t \<in> F - {tid})"
    proof
      fix t assume t: "t \<in> set ids"
      then have "t \<noteq> tid" using Cons.prems(2) by auto
      with t Cons.prems(4) s'(4,5) show "f t = CheckTick \<and> t \<notin> F - {tid} \<or> (\<exists>i<length (hc_probes s').
        f t = ProbeTimeout i \<and> pr_timer (hc_probes s' ! i) = t \<and> t \<in> F - {tid})" by fastforce
    qed
    moreover have "F - {tid} \<subseteq> set ids" using Cons.prems(3) by auto
    ultimately show ?thesis using Cons.IH [OF s'(2)] Cons.prems(2) s'(1,3) i(2) run(1)
      by (simp add: probe_timeout_def)
  qed
qed

lemma hc_expire_ok:
  assumes env: "probe_env_ok env" and inv: "hc_inv {} s" and d: "distinct ids"
    and pend: "\<forall>tid\<in>set ids. pending (hc_timers s) tid \<noteq> None"
  shows "\<exists>s'. hc_expire env ids s = Inr s' \<and> hc_inv {} s' \<and> hc_batch s' = hc_batch s"
proof -
  let ?f = "\<lambda>tid. snd (the (pending (hc_timers s) tid))"
  let ?F = "{tid \<in> set ids. \<exists>cb. pending (hc_timers s) tid = Some (False, cb)}"
  let ?s = "s\<lparr>hc_timers := fold ts_fire ids (hc_timers s)\<rparr>"
  have "hc_inv ?F ?s"
    using inv unfolding hc_inv_def running_def over_def
    by (auto simp: pending_fold_fire split: if_splits)
  moreover have "\<forall>tid\<in>set ids. ?f tid = CheckTick \<and> tid \<notin> ?F \<or>
      (\<exists>i<length (hc_probes ?s). ?f tid = ProbeTimeout i \<and> pr_timer (hc_probes ?s ! i) = tid \<and> tid \<in> ?F)"
  proof
    fix tid assume t: "tid \<in> set ids"
    with pend obtain x where x: "pending (hc_timers s) tid = Some x" by blast
    with hc_invD(3) [OF inv x] t show "?f tid = CheckTick \<and> tid \<notin> ?F \<or>
      (\<exists>i<length (hc_probes ?s). ?f tid = ProbeTimeout i \<and> pr_timer (hc_probes ?s ! i) = tid \<and> tid \<in> ?F)"
      by (auto simp: meant_for_def)
  qed
  moreover have "?F \<subseteq> set ids" by blast
  ultimately show ?thesis using expire_fold [OF env _ d, of ?F ?s ?f] by (simp add: hc_expire_def)
qed

definition hc_ok :: "'k checker \<Rightarrow> bool" where
  "hc_ok s \<longleftrightarrow> hc_inv {} s \<and> distinct (hc_batch s) \<and> timer_last (hc_batch s) \<and>
     (\<forall>i. ProbeEvent i \<in> set (hc_batch s) \<longrightarrow> i < length (hc_probes s) \<and> pr_closes (hc_probes s ! i) = 0)"

lemma timer_last_Cons: "timer_last (e # es) \<Longrightarrow> timer_last es \<and> (e = TimerEvent \<longrightarrow> es = [])"
  by (auto simp: timer_last_def split: if_splits)

lemma probe_writable_ok:
  assumes env: "probe_env_ok env" and inv: "hc_inv {} s" and i: "i < length (hc_probes s)"
    and o: "pr_closes (hc_probes s ! i) = 0"
  shows "\<exists>s'. probe_writable env i s = Inr s' \<and> hc_inv {} s' \<and> hc_batch s' = hc_batch s \<and>
    length (hc_probes s') = length (hc_probes s) \<and>
    (\<forall>j<length (hc_probes s). j \<noteq> i \<longrightarrow> hc_probes s' ! j = hc_probes s ! j)"
proof -
  obtain ret err k where so: "pe_so_error env (pr_fd (hc_probes s ! i)) (hc_kern s) = (ret, err, k)"
    by (metis prod_cases3)
  from decide_ok [OF env inv i o refl, of "\<not> (ret < 0 \<or> err \<noteq> 0)" k] show ?thesis
    by (auto simp: probe_writable_def Let_def so)
qed

lemma hc_step_ok:
  assumes env: "probe_env_ok env" and ok: "hc_ok s" and st: "hc_step env timer_last s r"
  shows "\<exists>s'. r = Inr s' \<and> hc_ok s'"
  using st
proof cases
  case (wait es)
  then show ?thesis using ok by (auto simp: hc_ok_def hc_inv_def reportable_def)
next
  case (writable i es)
  let ?s = "s\<lparr>hc_batch := es\<rparr>"
  have "i < length (hc_probes ?s)" "pr_closes (hc_probes ?s ! i) = 0" "hc_inv {} ?s"
    using ok writable(2) by (auto simp: hc_ok_def hc_inv_def)
  from probe_writable_ok [OF env this(3,1,2)] obtain s' where s': "probe_writable env i ?s = Inr s'"
    "hc_inv {} s'" "hc_batch s' = es" "length (hc_probes s') = length (hc_probes s)"
    "\<forall>j<length (hc_probes s). j \<noteq> i \<longrightarrow> hc_probes s' ! j = hc_probes s ! j" by auto
  have "timer_last es" "distinct es" "ProbeEvent i \<notin> set es"
    using ok writable(2) timer_last_Cons [of "ProbeEvent i" es] by (auto simp: hc_ok_def)
  moreover have "j < length (hc_probes s) \<and> pr_closes (hc_probes s' ! j) = 0" if "ProbeEvent j \<in> set es" for j
  proof -
    have "j < length (hc_probes s) \<and> pr_closes (hc_probes s ! j) = 0"
      using that ok writable(2) by (simp add: hc_ok_def)
    with s'(5) \<open>ProbeEvent i \<notin> set es\<close> that show ?thesis by metis
  qed
  ultimately show ?thesis using s' writable(1) by (simp add: hc_ok_def)
next
  case (expire es ids)
  let ?s = "s\<lparr>hc_batch := es\<rparr>"
  have "es = []" using ok expire(2) timer_last_Cons [of TimerEvent es] by (simp add: hc_ok_def)
  moreover have "hc_inv {} ?s" using ok by (simp add: hc_ok_def hc_inv_def)
  ultimately show ?thesis using hc_expire_ok [OF env, of ?s ids] expire
    by (auto simp: hc_ok_def timer_last_def)
next
  case (other x out lb)
  then show ?thesis using ok by (auto simp: hc_ok_def hc_inv_def)
qed

lemma hc_reach_ok:
  assumes "probe_env_ok env" and "hc_reach env timer_last lb k s"
  shows "hc_ok s"
  using assms(2)
proof induction
  case hc_init
  show ?case by (simp add: hc_ok_def hc_inv_def hc_start_def hc_runTimer_def new_HealthChecker_def ts_add_def
      new_timers_def timer_last_def meant_for_def)
next
  case (hc_more s s')
  from hc_step_ok [OF assms(1) hc_more.IH hc_more.hyps(2)] show ?case by auto
qed

subsection \<open>Properties\<close>


text \<open>A kernel on which every connection is in progress and then succeeds, and one backend.\<close>

definition busy_env :: "nat probe_env" where
  "busy_env = \<lparr>pe_socket = (\<lambda>k. (int k, k + 1)), pe_connect = (\<lambda>f a k. (- 1, EINPROGRESS, k)),
     pe_so_error = (\<lambda>f k. (0, 0, k)), pe_close = (\<lambda>f k. k), pe_epoll = (\<lambda>op f ev k. (None, k)),
     pe_looping = (\<lambda>k. True), pe_in_loop = (\<lambda>k. True), pe_addr = (\<lambda>t. 1)\<rparr>"

definition one_backend :: load_balancer where
  "one_backend = addBackend (InetAddress (127, 0, 0, 1) 8001) new_LoadBalancer"

lemma busy_env_ok: "probe_env_ok busy_env"
  by (simp add: probe_env_ok_def busy_env_def)

text \<open>After its first tick the checker waits for one probe.\<close>

lemma busy_reach:
  assumes "batch [TimerEvent]"
  shows "\<exists>s. hc_reach busy_env batch one_backend 5 s \<and> hc_batch s = [] \<and> length (hc_probes s) = 1 \<and>
    running {} (hc_timers s) 0 (hc_probes s ! 0)"
proof -
  let ?s0 = "hc_start busy_env (new_HealthChecker one_backend 5)"
  let ?s1 = "?s0\<lparr>hc_batch := [TimerEvent]\<rparr>"
  obtain s where s: "hc_expire busy_env [(1, 0)] (?s1\<lparr>hc_batch := []\<rparr>) = Inr s"
    "hc_batch s = []" "length (hc_probes s) = 1" "running {} (hc_timers s) 0 (hc_probes s ! 0)"
    by (simp add: hc_expire_def hc_start_def hc_runTimer_def new_HealthChecker_def ts_add_def new_timers_def
      busy_env_def checkBackends_def getAllBackends_def one_backend_def addBackend_def new_LoadBalancer_def
      insort_insert_key_def probe_def probe_open_def Let_def ts_fire_def running_def isWriting_def
      enableWriting_def set_events_def new_Channel_def setWriteCallback_def epoll_masks)
  have "hc_reach busy_env batch one_backend 5 ?s0" by (rule hc_init)
  moreover have "hc_step busy_env batch ?s0 (Inr ?s1)"
    by (rule wait) (simp_all add: assms reportable_def hc_start_def hc_runTimer_def new_HealthChecker_def ts_add_def)
  ultimately have r1: "hc_reach busy_env batch one_backend 5 ?s1" by (rule hc_more)
  have "hc_step busy_env batch ?s1 (hc_expire busy_env [(1, 0)] (?s1\<lparr>hc_batch := []\<rparr>))"
    by (rule expire) (simp_all add: hc_start_def hc_runTimer_def new_HealthChecker_def ts_add_def
      busy_env_def new_timers_def)
  with r1 have "hc_reach busy_env batch one_backend 5 s" unfolding s(1) by (rule hc_more)
  with s(2-4) show ?thesis by blast
qed


text \<open>
  Without that order the probe decides twice: when the timer descriptor precedes the probe in one
  batch, the timeout reports the backend down and closes the descriptor, and then the write callback,
  which has no guard, reports again and closes the same descriptor number a second time.
\<close>

theorem probe_decides_twice:
  assumes "probe_env_ok env" and r: "hc_reach env (\<lambda>_. True) lb k s" and b: "hc_batch s = []"
    and i: "i < length (hc_probes s)" and run: "running {} (hc_timers s) i (hc_probes s ! i)"
  shows "\<exists>s'. hc_reach env (\<lambda>_. True) lb k s' \<and> length (pr_reports (hc_probes s' ! i)) = 2 \<and>
    pr_closes (hc_probes s' ! i) = 2"
proof -
  let ?p = "hc_probes s ! i"
  let ?s1 = "s\<lparr>hc_batch := [TimerEvent, ProbeEvent i]\<rparr>"
  have pend: "pending (hc_timers s) (pr_timer ?p) = Some (False, ProbeTimeout i)"
    and w: "isWriting (pr_channel ?p)" "pr_closes ?p = 0" "pr_reports ?p = []"
    using run by (simp_all add: running_def)
  have "hc_step env (\<lambda>_. True) s (Inr ?s1)"
    by (rule wait) (use b i w in \<open>simp_all add: reportable_def\<close>)
  with r have r1: "hc_reach env (\<lambda>_. True) lb k ?s1" by (rule hc_more)
  let ?s2 = "?s1\<lparr>hc_batch := [ProbeEvent i], hc_timers := fold ts_fire [pr_timer ?p] (hc_timers s)\<rparr>"
  from probe_finish_ok [OF assms(1), of i "probe_report i False ?s2"] obtain s3 where
    3: "probe_finish env i (probe_report i False ?s2) = Inr s3" "length (pr_reports (hc_probes s3 ! i)) = 1"
      "pr_closes (hc_probes s3 ! i) = 1" "hc_batch s3 = [ProbeEvent i]" "i < length (hc_probes s3)"
    using i w by (auto simp: probe_report_def Let_def)
  have "hc_step env (\<lambda>_. True) ?s1 (hc_expire env [pr_timer ?p] (?s1\<lparr>hc_batch := [ProbeEvent i]\<rparr>))"
    by (rule expire) (simp_all add: pend)
  moreover have "hc_expire env [pr_timer ?p] (?s1\<lparr>hc_batch := [ProbeEvent i]\<rparr>) = Inr s3"
    using 3(1) w by (simp add: hc_expire_def pend probe_timeout_def)
  ultimately have r3: "hc_reach env (\<lambda>_. True) lb k s3" using hc_more [OF r1] by simp
  obtain ret err k' where so: "pe_so_error env (pr_fd (hc_probes s3 ! i)) (hc_kern s3) = (ret, err, k')"
    by (metis prod_cases3)
  let ?up = "\<not> (ret < 0 \<or> err \<noteq> 0)"
  let ?s4 = "s3\<lparr>hc_batch := [], hc_timers := ts_cancel (pr_timer (hc_probes s3 ! i)) (hc_timers s3), hc_kern := k'\<rparr>"
  from probe_finish_ok [OF assms(1), of i "probe_report i ?up ?s4"] obtain s5 where
    5: "probe_finish env i (probe_report i ?up ?s4) = Inr s5"
      "length (pr_reports (hc_probes s5 ! i)) = 2" "pr_closes (hc_probes s5 ! i) = 2"
    using 3(2,3,5) by (auto simp: probe_report_def Let_def)
  have "hc_step env (\<lambda>_. True) s3 (probe_writable env i (s3\<lparr>hc_batch := []\<rparr>))"
    by (rule writable) (rule 3(4))
  moreover have "probe_writable env i (s3\<lparr>hc_batch := []\<rparr>) = Inr s5"
    using 5(1) by (simp add: probe_writable_def Let_def so)
  ultimately show ?thesis using hc_more [OF r3] 5(2,3) by auto
qed

theorem probe_decides_twice_witness:
  "\<exists>s'. hc_reach busy_env (\<lambda>_. True) one_backend 5 s' \<and> length (pr_reports (hc_probes s' ! 0)) = 2 \<and>
     pr_closes (hc_probes s' ! 0) = 2"
proof -
  from busy_reach [where batch = "\<lambda>_. True"] obtain s where s: "hc_reach busy_env (\<lambda>_. True) one_backend 5 s"
    "hc_batch s = []" "length (hc_probes s) = 1" "running {} (hc_timers s) 0 (hc_probes s ! 0)" by blast
  have "0 < length (hc_probes s)" using s(3) by simp
  from probe_decides_twice [OF busy_env_ok s(1,2) this s(4)] show ?thesis .
qed

lemma lb_update_abs:
  assumes "lb_inv lb"
  shows "lb_inv (updateHealthStatus a h lb) \<and> lb_abs (updateHealthStatus a h lb) =
    (fst (lb_abs lb), if h then insert a (snd (lb_abs lb)) else snd (lb_abs lb) - {a})"
  using lb_step_refines [OF assms, of "UpdateHealth a h"] by (cases "lb_abs lb") auto

lemma probe_results:
  assumes sock: "\<And>k. 0 \<le> fst (pe_socket env k)" and disj: "up \<inter> down = {}"
    and conn: "\<And>f a k. \<exists>k'. pe_connect env f a k =
      (if a \<in> up then 0 else - 1, if a \<in> down then 111 else EINPROGRESS, k')"
    and inv: "lb_inv (hc_lb s)"
  shows "lb_inv (hc_lb (probe env a s)) \<and> lb_abs (hc_lb (probe env a s)) =
      (fst (lb_abs (hc_lb s)), (snd (lb_abs (hc_lb s)) \<union> ({a} \<inter> up)) - ({a} \<inter> down)) \<and>
    map pr_addr (hc_probes (probe env a s)) =
      map pr_addr (hc_probes s) @ (if a \<in> up \<union> down then [] else [a])"
proof -
  obtain f k1 where k1: "pe_socket env (hc_kern s) = (f, k1)" "0 \<le> f" using sock [of "hc_kern s"] by (cases "pe_socket env (hc_kern s)") auto
  obtain k2 where k2: "pe_connect env f a k1 = (if a \<in> up then 0 else - 1, if a \<in> down then 111 else EINPROGRESS, k2)"
    using conn by blast
  have po: "map pr_addr (hc_probes (probe_open env a f s')) = map pr_addr (hc_probes s') @ [a]"
    "hc_lb (probe_open env a f s') = hc_lb s'" for s'
    by (simp_all add: probe_open_def hc_runTimer_def ts_add_def split: prod.split)
  have ne: "(111 :: errno) \<noteq> EINPROGRESS" by (simp add: EINPROGRESS_def)
  show ?thesis
    using k1 k2 ne disj lb_update_abs [OF inv, of a] inv
    by (cases "a \<in> up"; cases "a \<in> down") (auto simp: probe_def Let_def po)
qed

lemma checkBackends_exact:
  assumes "\<And>k. 0 \<le> fst (pe_socket env k)" and "up \<inter> down = {}"
    and "\<And>f a k. \<exists>k'. pe_connect env f a k =
      (if a \<in> up then 0 else - 1, if a \<in> down then 111 else EINPROGRESS, k')"
    and "lb_inv (hc_lb s)"
  shows "lb_abs (hc_lb (checkBackends env s)) = (fst (lb_abs (hc_lb s)),
      (snd (lb_abs (hc_lb s)) \<union> (set (getAllBackends (hc_lb s)) \<inter> up)) - (set (getAllBackends (hc_lb s)) \<inter> down)) \<and>
    lb_inv (hc_lb (checkBackends env s)) \<and>
    map pr_addr (hc_probes (checkBackends env s)) =
      map pr_addr (hc_probes s) @ filter (\<lambda>a. a \<notin> up \<union> down) (getAllBackends (hc_lb s))"
proof -
  have "lb_inv (hc_lb s) \<Longrightarrow> lb_abs (hc_lb (fold (probe env) as s)) = (fst (lb_abs (hc_lb s)),
      (snd (lb_abs (hc_lb s)) \<union> (set as \<inter> up)) - (set as \<inter> down)) \<and> lb_inv (hc_lb (fold (probe env) as s)) \<and>
    map pr_addr (hc_probes (fold (probe env) as s)) = map pr_addr (hc_probes s) @ filter (\<lambda>a. a \<notin> up \<union> down) as" for as s
  proof (induction as arbitrary: s)
    case Nil
    then show ?case by simp
  next
    case (Cons a as)
    note p = probe_results [where env = env and up = up and down = down, OF assms(1-3) Cons.prems, of a]
    from Cons.IH [OF conjunct1 [OF p]] p assms(2) show ?case by auto
  qed
  with assms(4) show ?thesis unfolding checkBackends_def by blast
qed

text \<open>
  C6. One round of checks does to the balancer what the kernel's answers say: on every history of
  configuration changes, the backends whose connection succeeds at once are healthy afterwards, those
  whose connection fails at once are not, nothing else changes, and for each of the others, in order,
  a probe is opened.
\<close>

theorem checkBackends_results:
  assumes "\<And>k. 0 \<le> fst (pe_socket env k)" and "up \<inter> down = {}"
    and "\<And>f a k. \<exists>k'. pe_connect env f a k =
      (if a \<in> up then 0 else - 1, if a \<in> down then 111 else EINPROGRESS, k')"
    and "lb_inv (hc_lb s)"
  defines "bs \<equiv> getAllBackends (hc_lb s)" and "s' \<equiv> checkBackends env s"
  shows "lb_abs (hc_lb s') = (fst (lb_abs (hc_lb s)),
      (snd (lb_abs (hc_lb s)) \<union> (set bs \<inter> up)) - (set bs \<inter> down)) \<and> lb_inv (hc_lb s') \<and>
    map pr_addr (hc_probes s') = map pr_addr (hc_probes s) @ filter (\<lambda>a. a \<notin> up \<union> down) bs"
  unfolding bs_def s'_def by (rule checkBackends_exact [OF assms(1-4)])

theorem checkBackends_results_witness:
  "let s = new_HealthChecker one_backend 5; s' = checkBackends busy_env s in
     lb_abs (hc_lb s') = lb_abs one_backend \<and> map pr_addr (hc_probes s') = [InetAddress (127, 0, 0, 1) 8001]"
proof -
  have s: "0 \<le> fst (pe_socket busy_env k)" for k by (simp add: busy_env_def)
  have c: "\<exists>k'. pe_connect busy_env f a k = (if a \<in> {} then 0 else - 1, if a \<in> {} then 111 else EINPROGRESS, k')"
    for f a k by (simp add: busy_env_def)
  have i: "lb_inv (hc_lb (new_HealthChecker one_backend (5 :: nat)))"
    unfolding new_HealthChecker_def one_backend_def by (simp add: inv_intros)
  from checkBackends_results [where up = "{}" and down = "{}", OF s _ c i] show ?thesis
    by (simp add: Let_def new_HealthChecker_def getAllBackends_def)
      (simp add: one_backend_def addBackend_def new_LoadBalancer_def insort_insert_key_def)
qed

end
