(* ===== verification/HttpParse.thy ===== *)
theory HttpParse
  imports InetAddr
begin

text \<open>
  The text side of the HTTP proxy: header and path extraction, the rewriting of the Host header, the
  route lookup and the parsing of backend addresses (src/app/http_proxy_handler.cpp), and the route
  table (src/app/route_table.h). \<open>std::string\<close> is a list of characters, \<open>npos\<close> is \<open>None\<close>, and
  \<open>substr\<close> and \<open>replace\<close> past the end are the fault \<open>OutOfRange\<close>.
\<close>

subsection \<open>Strings\<close>

definition occurs :: "string \<Rightarrow> string \<Rightarrow> nat \<Rightarrow> bool" where
  "occurs needle s i \<longleftrightarrow> take (length needle) (drop i s) = needle"

definition str_find :: "string \<Rightarrow> string \<Rightarrow> nat \<Rightarrow> nat option" where
  "str_find needle s pos = List.find (occurs needle s) [pos..<Suc (length s)]"

definition str_substr :: "nat \<Rightarrow> nat \<Rightarrow> string \<Rightarrow> string res" where
  "str_substr pos n s = (if length s < pos then Inl OutOfRange else Inr (take n (drop pos s)))"

definition str_replace :: "nat \<Rightarrow> nat \<Rightarrow> string \<Rightarrow> string \<Rightarrow> string res" where
  "str_replace pos n new s =
     (if length s < pos then Inl OutOfRange else Inr (take pos s @ new @ drop (pos + n) s))"

definition CRLF :: string where "CRLF = [CHR 0x0D, CHR 0x0A]"

definition is_space :: "char \<Rightarrow> bool" where
  "is_space c \<longleftrightarrow> c \<in> {CHR '' '', CHR 0x09, CHR 0x0A, CHR 0x0B, CHR 0x0C, CHR 0x0D}"

text \<open>\<open>std::stoi\<close>: leading space, a sign, digits; what follows the digits is ignored.\<close>

definition stoi :: "string \<Rightarrow> int res" where
  "stoi str =
     (let s = dropWhile is_space str;
          neg = (s \<noteq> [] \<and> hd s = CHR ''-'');
          t = (if s \<noteq> [] \<and> (hd s = CHR ''-'' \<or> hd s = CHR ''+'') then tl s else s);
          ds = takeWhile is_digit t;
          v = (if neg then - int (dec_value ds) else int (dec_value ds))
      in if ds = [] then Inl InvalidArgument
         else if v < - (2 ^ 31) \<or> 2 ^ 31 - 1 < v then Inl OutOfRange else Inr v)"

subsection \<open>Requests\<close>

definition parseHeader :: "string \<Rightarrow> string \<Rightarrow> string res" where
  "parseHeader req key =
     (case str_find (key @ '': '') req 0 of None \<Rightarrow> Inr []
      | Some pos \<Rightarrow>
          (let start = pos + length key + 2 in
           case str_find CRLF req start of None \<Rightarrow> Inr []
           | Some eol \<Rightarrow> str_substr start (eol - start) req))"

definition parsePath :: "string \<Rightarrow> string res" where
  "parsePath req =
     (case str_find '' '' req 0 of None \<Rightarrow> Inr []
      | Some first_space \<Rightarrow>
          (case str_find '' '' req (first_space + 1) of None \<Rightarrow> Inr []
           | Some second_space \<Rightarrow>
               str_substr (first_space + 1) (second_space - first_space - 1) req))"

definition modifyRequestForBackend :: "string \<Rightarrow> string \<Rightarrow> string res" where
  "modifyRequestForBackend request backend_addr =
     (case str_find ''Host: '' request 0 of None \<Rightarrow> Inr request
      | Some host_pos \<Rightarrow>
          (case str_find CRLF request host_pos of None \<Rightarrow> Inr request
           | Some eol \<Rightarrow>
               (let new_host_line = ''Host: '' @ backend_addr @ CRLF in
                str_replace host_pos (eol - host_pos + 2) new_host_line request)))"

subsection \<open>Routes\<close>

type_synonym route_map = "string \<Rightarrow> string option"

definition getBackend :: "string \<Rightarrow> route_map \<Rightarrow> string" where
  "getBackend host routes = (case routes host of Some addr \<Rightarrow> addr | None \<Rightarrow> [])"

definition updateRoute :: "string \<Rightarrow> string \<Rightarrow> route_map \<Rightarrow> route_map" where
  "updateRoute host backend_addr routes = routes(host \<mapsto> backend_addr)"

text \<open>The lookup of \<open>startForwarding\<close>: the exact path, else the route of \<open>/\<close>, else no route.\<close>

definition lookup_route :: "route_map \<Rightarrow> string \<Rightarrow> string option" where
  "lookup_route routing_table path =
     (case routing_table path of Some backend \<Rightarrow> Some backend | None \<Rightarrow> routing_table ''/'')"

text \<open>
  A backend address is split at its first colon; an \<open>int\<close> port becomes a \<open>uint16_t\<close> when it is
  passed to the constructor of \<open>InetAddress\<close>.
\<close>

definition parse_backend :: "(string \<Rightarrow> ipv4) \<Rightarrow> string \<Rightarrow> inet_address option" where
  "parse_backend inet_addr backend_addr =
     (case str_find '':'' backend_addr 0 of None \<Rightarrow> None
      | Some pos \<Rightarrow>
          (case bind_res (str_substr (pos + 1) (length backend_addr) backend_addr) stoi of
             Inl _ \<Rightarrow> None
           | Inr port \<Rightarrow> Some (new_InetAddress inet_addr (take pos backend_addr) (word_of_int port))))"

subsection \<open>Lemmas\<close>

lemma str_find_iff:
  "str_find needle s pos = Some i \<longleftrightarrow>
     pos \<le> i \<and> i \<le> length s \<and> occurs needle s i \<and> (\<forall>j. pos \<le> j \<and> j < i \<longrightarrow> \<not> occurs needle s j)"
proof -
  let ?xs = "[pos..<Suc (length s)]"
  have nth: "?xs ! k = pos + k" if "k < Suc (length s) - pos" for k
    using that by (subst nth_upt) auto
  have len: "length ?xs = Suc (length s) - pos" by (rule length_upt)
  show ?thesis
  proof
    assume "str_find needle s pos = Some i"
    then obtain k where k: "k < Suc (length s) - pos" "occurs needle s (?xs ! k)" "i = ?xs ! k"
      "\<forall>j<k. \<not> occurs needle s (?xs ! j)" unfolding str_find_def find_Some_iff len by blast
    then have i: "i = pos + k" using nth by simp
    have "\<not> occurs needle s j" if "pos \<le> j" "j < i" for j
      using k(4) [rule_format, of "j - pos"] nth [of "j - pos"] that i k(1) by simp
    with k i nth [of k] show "pos \<le> i \<and> i \<le> length s \<and> occurs needle s i \<and>
      (\<forall>j. pos \<le> j \<and> j < i \<longrightarrow> \<not> occurs needle s j)" by auto
  next
    assume r: "pos \<le> i \<and> i \<le> length s \<and> occurs needle s i \<and>
      (\<forall>j. pos \<le> j \<and> j < i \<longrightarrow> \<not> occurs needle s j)"
    then have k: "i - pos < Suc (length s) - pos" by auto
    have "\<not> occurs needle s (?xs ! j)" if "j < i - pos" for j
      using nth [of j] that k r by simp
    moreover have "?xs ! (i - pos) = i" using nth [OF k] r by simp
    ultimately show "str_find needle s pos = Some i"
      unfolding str_find_def find_Some_iff len using k r by (intro exI [of _ "i - pos"]) simp
  qed
qed

lemma str_find_None:
  "str_find needle s pos = None \<longleftrightarrow> (\<forall>i. pos \<le> i \<and> i \<le> length s \<longrightarrow> \<not> occurs needle s i)"
  by (auto simp: str_find_def find_None_iff)

lemma str_find_bound: "str_find needle s pos = Some i \<Longrightarrow> i + length needle \<le> length s"
  by (auto simp: str_find_iff occurs_def dest!: arg_cong [of _ _ length])

lemma occurs_hd: "occurs (c # cs) s j \<Longrightarrow> j < length s \<and> s ! j = c"
  by (cases "drop j s") (auto simp: occurs_def nth_via_drop intro: ccontr)

text \<open>The first occurrence of a needle whose first character does not occur before it.\<close>

lemma str_find_first:
  assumes "c \<notin> set a"
  shows "str_find (c # cs) (pre @ a @ (c # cs) @ rest) (length pre) = Some (length pre + length a)"
  unfolding str_find_iff
proof (intro conjI allI impI)
  fix j
  assume j: "length pre \<le> j \<and> j < length pre + length a"
  then obtain k where k: "j = length pre + k" "k < length a"
    using le_Suc_ex by auto
  then have "(pre @ a @ (c # cs) @ rest) ! j = a ! k" by (simp add: nth_append)
  then show "\<not> occurs (c # cs) (pre @ a @ (c # cs) @ rest) j"
    using assms k(2) occurs_hd [of c cs "pre @ a @ (c # cs) @ rest" j] by auto
qed (auto simp: occurs_def)

lemma length_CRLF [simp]: "length CRLF = 2"
  by (simp add: CRLF_def)

lemma str_find_CRLF:
  "CHR 0x0D \<notin> set a \<Longrightarrow>
    str_find CRLF (pre @ a @ CRLF @ rest) (length pre) = Some (length pre + length a)"
  unfolding CRLF_def by (rule str_find_first)

lemma occurs_prefix: "j + length needle \<le> length p \<Longrightarrow> occurs needle (p @ r) j = occurs needle p j"
  by (simp add: occurs_def)

lemma occurs_take: "i + length needle \<le> m \<Longrightarrow> occurs needle (take m s) i = occurs needle s i"
  by (simp add: occurs_def drop_take min_def)

lemma occurs_drop: "occurs needle (drop k s) i = occurs needle s (k + i)"
  by (simp add: occurs_def add.commute)

lemma occurs_self: "occurs needle (pre @ needle @ rest) (length pre)"
  by (simp add: occurs_def)

text \<open>Whether the first occurrence is at the end of \<open>pre\<close> does not depend on what follows it.\<close>

lemma str_find_here:
  assumes "\<forall>j<length pre. \<not> occurs needle (pre @ needle) j"
  shows "str_find needle (pre @ needle @ rest) 0 = Some (length pre)"
  using assms occurs_prefix [of _ needle "pre @ needle" rest] occurs_self
  by (auto simp: str_find_iff)

lemma occurs_split:
  assumes "occurs needle s i"
  shows "s = take i s @ needle @ drop (i + length needle) s"
proof -
  have "s = take i s @ take (length needle) (drop i s) @ drop (length needle) (drop i s)"
    by (simp only: append_take_drop_id)
  then show ?thesis using assms by (simp only: occurs_def drop_drop add.commute)
qed

lemma str_substr_ok: "pos \<le> length s \<Longrightarrow> str_substr pos n s = Inr (take n (drop pos s))"
  by (simp add: str_substr_def)

lemma parseHeader_cases:
  obtains (none) "parseHeader req key = Inr []"
  | (found) pos eol where "parseHeader req key = Inr (take (eol - (pos + length key + 2)) (drop (pos + length key + 2) req))"
      "str_find (key @ '': '') req 0 = Some pos" "str_find CRLF req (pos + length key + 2) = Some eol"
proof (cases "str_find (key @ '': '') req 0")
  case None
  then show ?thesis by (auto simp: parseHeader_def intro: none)
next
  case (Some pos)
  show ?thesis
  proof (cases "str_find CRLF req (pos + length key + 2)")
    case None
    with Some show ?thesis by (auto simp: parseHeader_def intro: none)
  next
    case (Some eol)
    with \<open>str_find (key @ '': '') req 0 = Some pos\<close> show ?thesis
      using str_find_bound [of "key @ '': ''" req 0 pos]
      by (intro found) (auto simp: parseHeader_def Let_def str_substr_def)
  qed
qed

lemma stoi_show_nat: "n < 2 ^ 31 \<Longrightarrow> stoi (show_nat n) = Inr (int n)"
proof -
  assume n: "n < 2 ^ 31"
  have d: "\<forall>c\<in>set (show_nat n). is_digit c" using show_nat_digits by blast
  have hd: "is_digit (hd (show_nat n))" using d by simp
  have sp: "\<not> is_space c \<and> c \<noteq> CHR ''-'' \<and> c \<noteq> CHR ''+''" if "is_digit c" for c
    using that by (auto simp: is_space_def is_digit_def)
  have "dropWhile is_space (show_nat n) = show_nat n"
    using sp [OF hd] by (cases "show_nat n") simp_all
  moreover have "takeWhile is_digit (show_nat n) = show_nat n" using d by simp
  ultimately show ?thesis using n sp [OF hd]
    by (simp add: stoi_def Let_def del: takeWhile_eq_all_conv)
qed

lemma host_rewrite:
  assumes "\<forall>j<length pre. \<not> occurs ''Host: '' (pre @ ''Host: '') j"
    and "CHR 0x0D \<notin> set old" and "CHR 0x0D \<notin> set addr"
  shows "modifyRequestForBackend (pre @ ''Host: '' @ old @ CRLF @ rest) addr =
      Inr (pre @ ''Host: '' @ addr @ CRLF @ rest) \<and>
    parseHeader (pre @ ''Host: '' @ addr @ CRLF @ rest) ''Host'' = Inr addr"
proof -
  define H where "H = ''Host: ''"
  have H: "length H = 6" "CHR 0x0D \<notin> set H" "''Host'' @ '': '' = H" by (simp_all add: H_def)
  have host: "str_find H (pre @ H @ x) 0 = Some (length pre)" for x
    unfolding H_def by (rule str_find_here [OF assms(1)])
  have "CHR 0x0D \<notin> set (H @ old)" using assms(2) H(2) by auto
  from str_find_CRLF [OF this, of pre rest]
  have "str_find CRLF (pre @ H @ old @ CRLF @ rest) (length pre) = Some (length pre + (6 + length old))"
    by (simp add: H(1))
  then have 1: "modifyRequestForBackend (pre @ H @ old @ CRLF @ rest) addr =
      Inr (pre @ H @ addr @ CRLF @ rest)"
    using host by (simp add: modifyRequestForBackend_def str_replace_def H(1) flip: H_def)
  have "str_find CRLF (pre @ H @ addr @ CRLF @ rest) (length pre + 6) = Some (length pre + 6 + length addr)"
    using str_find_CRLF [OF assms(3), of "pre @ H" rest] by (simp add: H(1))
  moreover have e: "length pre + length ''Host'' + 2 = length pre + 6" by simp
  ultimately have 2: "parseHeader (pre @ H @ addr @ CRLF @ rest) ''Host'' = Inr addr"
    unfolding parseHeader_def H(3) host option.case Let_def e by (simp add: str_substr_def H(1))
  show ?thesis using 1 2 unfolding H_def by blast
qed

lemma occurs_nth:
  assumes "occurs needle s j" and "k < length needle"
  shows "s ! (j + k) = needle ! k"
proof -
  have n: "take (length needle) (drop j s) = needle" using assms(1) by (simp add: occurs_def)
  then have "length (take (length needle) (drop j s)) = length needle" by simp
  then have "j \<le> length s" using assms(2) by simp
  then have "s ! (j + k) = drop j s ! k" by simp
  also have "\<dots> = take (length needle) (drop j s) ! k" using assms(2) by simp
  finally show ?thesis using n by simp
qed

subsection \<open>Properties\<close>

text \<open>
  C33. Rewriting the Host header does what it says: when the first \<open>Host: \<close> of a request starts a
  header ended by CR LF, the rewritten request is the same text before and after, with the backend
  address as the value, and parsing it back yields that address.
\<close>

theorem host_rewrite_roundtrip:
  assumes "\<forall>j<length pre. \<not> occurs ''Host: '' (pre @ ''Host: '') j"
    and "CHR 0x0D \<notin> set old" and "CHR 0x0D \<notin> set addr"
  shows "modifyRequestForBackend (pre @ ''Host: '' @ old @ CRLF @ rest) addr =
      Inr (pre @ ''Host: '' @ addr @ CRLF @ rest) \<and>
    parseHeader (pre @ ''Host: '' @ addr @ CRLF @ rest) ''Host'' = Inr addr"
  by (rule host_rewrite [OF assms])

definition sample_line :: string where "sample_line = ''GET /a HTTP/1.1'' @ CRLF"

theorem host_rewrite_roundtrip_witness:
  "modifyRequestForBackend (sample_line @ ''Host: '' @ ''x.org'' @ CRLF @ CRLF) ''10.0.0.1:80'' =
      Inr (sample_line @ ''Host: '' @ ''10.0.0.1:80'' @ CRLF @ CRLF) \<and>
    parseHeader (sample_line @ ''Host: '' @ ''10.0.0.1:80'' @ CRLF @ CRLF) ''Host'' = Inr ''10.0.0.1:80''"
  by (rule host_rewrite_roundtrip) code_simp+

text \<open>
  Header extraction is total and honest: it never throws, and a non-empty answer is the text
  between an occurrence of the key with its colon and the next CR LF.
\<close>

theorem parseHeader_sound:
  "\<exists>v. parseHeader req key = Inr v \<and>
    (v = [] \<or> (\<exists>pre post. req = pre @ key @ '': '' @ v @ CRLF @ post \<and> (\<forall>i. \<not> occurs CRLF v i)))"
proof (cases rule: parseHeader_cases [of req key])
  case none
  then show ?thesis by simp
next
  case (found pos eol)
  let ?st = "pos + length key + 2"
  let ?v = "take (eol - ?st) (drop ?st req)"
  have p: "occurs (key @ '': '') req pos" "?st \<le> length req"
    using found(2) str_find_bound [OF found(2)] by (auto simp: str_find_iff)
  have e: "?st \<le> eol" "occurs CRLF req eol" "eol + 2 \<le> length req"
    "\<And>j. ?st \<le> j \<Longrightarrow> j < eol \<Longrightarrow> \<not> occurs CRLF req j"
    using found(3) str_find_bound [OF found(3)] by (auto simp: str_find_iff CRLF_def)
  have "req = take pos req @ (key @ '': '') @ drop ?st req"
    using occurs_split [OF p(1)] by (simp add: add.commute add.left_commute)
  moreover have "drop ?st req = ?v @ drop eol req"
    using e(1) by (metis append_take_drop_id drop_drop le_add_diff_inverse2)
  moreover have "drop eol req = CRLF @ drop (eol + 2) req"
    using e(2) by (metis (no_types) append_take_drop_id drop_drop occurs_def CRLF_def add.commute
        length_Cons list.size(3) numeral_2_eq_2)
  ultimately have "req = take pos req @ key @ '': '' @ ?v @ CRLF @ drop (eol + 2) req" by simp
  moreover have "\<not> occurs CRLF ?v i" for i
  proof
    assume o: "occurs CRLF ?v i"
    then have "i + 2 \<le> length ?v" by (auto simp: occurs_def CRLF_def dest!: arg_cong [of _ _ length])
    then have i: "i + 2 \<le> eol - ?st" by simp
    have "occurs CRLF req (?st + i)"
      using o i by (simp add: occurs_take occurs_drop)
    with e(4) [of "?st + i"] i show False by simp
  qed
  ultimately show ?thesis using found(1) by blast
qed

text \<open>
  The path of a well-formed request line is what \<open>parsePath\<close> returns: for a method and a path
  without spaces, whatever follows the second space.
\<close>

theorem parsePath_request_line:
  assumes "CHR '' '' \<notin> set meth" and "CHR '' '' \<notin> set path"
  shows "parsePath (meth @ '' '' @ path @ '' '' @ rest) = Inr path"
proof -
  have 1: "str_find '' '' (meth @ '' '' @ path @ '' '' @ rest) 0 = Some (length meth)"
    using str_find_first [OF assms(1), of "[]" "[]" "path @ '' '' @ rest"] by simp
  have 2: "str_find '' '' (meth @ '' '' @ path @ '' '' @ rest) (length meth + 1) =
      Some (length meth + 1 + length path)"
    using str_find_first [OF assms(2), of "[]" "meth @ '' ''" rest] by simp
  show ?thesis unfolding parsePath_def 1 option.case 2 by (simp add: str_substr_def)
qed

theorem parsePath_request_line_witness:
  "parsePath (''GET'' @ '' '' @ ''/index.html'' @ '' '' @ ''HTTP/1.1'') = Inr ''/index.html''"
  by (rule parsePath_request_line) code_simp+

text \<open>
  C40. The key is searched as a bare substring, so a header whose name merely ends in the key is
  mistaken for it: after a request line without a colon, an \<open>X-Host\<close> header in front of \<open>Host\<close> both
  decides the parsed host and is the one that is rewritten, while the real \<open>Host\<close> goes to the
  backend unchanged.
\<close>

theorem host_header_confusion:
  assumes "CHR '':'' \<notin> set line" and "CHR 0x0D \<notin> set a" and "CHR 0x0D \<notin> set addr"
  shows "parseHeader (line @ CRLF @ ''X-Host: '' @ a @ CRLF @ ''Host: '' @ b @ rest) ''Host'' = Inr a \<and>
    modifyRequestForBackend (line @ CRLF @ ''X-Host: '' @ a @ CRLF @ ''Host: '' @ b @ rest) addr =
      Inr (line @ CRLF @ ''X-Host: '' @ addr @ CRLF @ ''Host: '' @ b @ rest)"
proof -
  define pre where "pre = line @ CRLF @ ''X-''"
  have "CHR '':'' \<notin> set pre" using assms(1) by (simp add: pre_def CRLF_def)
  have first: "\<forall>j<length pre. \<not> occurs ''Host: '' (pre @ ''Host: '') j"
  proof (intro allI impI notI)
    fix j
    assume j: "j < length pre" and o: "occurs ''Host: '' (pre @ ''Host: '') j"
    have c: "(pre @ ''Host: '') ! (j + 4) = CHR '':''" using occurs_nth [OF o, of 4] by simp
    show False
    proof (cases "j + 4 < length pre")
      case True
      with c \<open>CHR '':'' \<notin> set pre\<close> show False by (simp add: nth_append) (metis nth_mem)
    next
      case False
      define k where "k = j + 4 - length pre"
      have "k < 4" "''Host: '' ! k = CHR '':''"
        using False j c by (auto simp: k_def nth_append)
      then have "k = 0 \<or> k = 1 \<or> k = 2 \<or> k = 3" by linarith
      with \<open>''Host: '' ! k = CHR '':''\<close> show False by auto
    qed
  qed
  have split: "line @ CRLF @ ''X-Host: '' @ x = pre @ ''Host: '' @ x" for x
    by (simp add: pre_def)
  have "parseHeader (pre @ ''Host: '' @ a @ CRLF @ ''Host: '' @ b @ rest) ''Host'' = Inr a"
    using host_rewrite [OF first assms(2,2), of "''Host: '' @ b @ rest"] by blast
  moreover have "modifyRequestForBackend (pre @ ''Host: '' @ a @ CRLF @ ''Host: '' @ b @ rest) addr =
      Inr (pre @ ''Host: '' @ addr @ CRLF @ ''Host: '' @ b @ rest)" if "CHR 0x0D \<notin> set addr"
    using host_rewrite [OF first assms(2) that, of "''Host: '' @ b @ rest"] by blast
  ultimately show ?thesis unfolding split using assms(3) by blast
qed

theorem host_header_confusion_witness:
  "parseHeader (''GET / HTTP/1.1'' @ CRLF @ ''X-Host: '' @ ''evil'' @ CRLF @ ''Host: '' @ ''good'' @ CRLF)
     ''Host'' = Inr ''evil'' \<and>
   modifyRequestForBackend (''GET / HTTP/1.1'' @ CRLF @ ''X-Host: '' @ ''evil'' @ CRLF @ ''Host: '' @ ''good'' @ CRLF)
     ''10.0.0.1:80'' =
     Inr (''GET / HTTP/1.1'' @ CRLF @ ''X-Host: '' @ ''10.0.0.1:80'' @ CRLF @ ''Host: '' @ ''good'' @ CRLF)"
  by (rule host_header_confusion) code_simp+

text \<open>
  Backend addresses in the routing table are read as they are written: parsing the text of an
  address gives the address back, for every address and port, if \<open>::inet_addr\<close> reads the dotted
  form that \<open>::inet_ntop\<close> writes.
\<close>

theorem parse_backend_roundtrip:
  assumes "inet_addr (toIp a) = sin_addr a"
  shows "parse_backend inet_addr (toIpPort a) = Some a"
proof -
  obtain q1 q2 q3 q4 p where a: "a = InetAddress (q1, q2, q3, q4) p"
    by (metis inet_address.exhaust prod_cases4)
  have "CHR '':'' \<notin> set (show_nat n)" for n
    using show_nat_digits sep_not_digit(2) by blast
  then have "CHR '':'' \<notin> set (toIp a)" by (simp add: a toIp_def)
  moreover have t: "toIpPort a = toIp a @ '':'' @ show_nat (unat (toPort a))"
    by (simp add: toIpPort_def toIp_def toPort_def Let_def)
  ultimately have f: "str_find '':'' (toIpPort a) 0 = Some (length (toIp a))"
    using str_find_first [of "CHR '':''" "toIp a" "[]" "[]"] by simp
  have "unat (toPort a) < 2 ^ 16" using unsigned_less [of "toPort a"] by simp
  then have "stoi (show_nat (unat (toPort a))) = Inr (int (unat (toPort a)))"
    by (intro stoi_show_nat) simp
  then have "parse_backend inet_addr (toIpPort a) =
      Some (new_InetAddress inet_addr (toIp a) (word_of_int (int (unat (toPort a)))))"
    unfolding parse_backend_def f option.case by (simp add: t str_substr_def)
  moreover have "word_of_int (int (unat (toPort a))) = toPort a" by simp
  ultimately show ?thesis using assms
    by (cases a) (simp add: new_InetAddress_def toPort_def)
qed

theorem parse_backend_roundtrip_witness:
  "parse_backend (\<lambda>s. (127, 0, 0, 1)) (toIpPort (InetAddress (127, 0, 0, 1) (htons 9000))) =
    Some (InetAddress (127, 0, 0, 1) (htons 9000))"
  by (rule parse_backend_roundtrip) simp

text \<open>
  A port out of range is not refused: \<open>stoi\<close> accepts any \<open>int\<close> and the conversion to
  \<open>uint16_t\<close> drops the high bits, so a route to port \<open>65536 + p\<close> silently goes to port \<open>p\<close>.
\<close>

theorem backend_port_truncated:
  assumes "CHR '':'' \<notin> set ip" and "p < 65536"
  shows "\<exists>a. parse_backend inet_addr (ip @ '':'' @ show_nat (65536 + p)) = Some a \<and>
    unat (toPort a) = p"
proof -
  have f: "str_find '':'' (ip @ '':'' @ show_nat (65536 + p)) 0 = Some (length ip)"
    using str_find_first [OF assms(1), of "[]" "[]"] by simp
  have "stoi (show_nat (65536 + p)) = Inr (int (65536 + p))"
    by (rule stoi_show_nat) (use assms(2) in simp)
  then have "parse_backend inet_addr (ip @ '':'' @ show_nat (65536 + p)) =
      Some (new_InetAddress inet_addr ip (word_of_int (int (65536 + p))))"
    unfolding parse_backend_def f option.case by (simp add: str_substr_def)
  moreover have "unat (word_of_int (int (65536 + p)) :: uint16) = p"
  proof -
    have "unat (word_of_nat (65536 + p) :: uint16) = (65536 + p) mod 65536"
      by (simp only: unsigned_of_nat take_bit_eq_mod) simp
    also have "\<dots> = p" using assms(2) by (simp only: mod_add_self1 mod_less)
    finally show ?thesis by (simp only: of_int_of_nat_eq)
  qed
  ultimately show ?thesis by (simp add: new_InetAddress_def toPort_def)
qed

theorem backend_port_truncated_witness:
  "\<exists>a. parse_backend (\<lambda>s. (10, 0, 0, 1)) (''10.0.0.1'' @ '':'' @ show_nat (65536 + 80)) = Some a \<and>
    unat (toPort a) = 80"
  by (rule backend_port_truncated) simp_all

end
