(* ===== verification/Acceptor.thy ===== *)
theory Acceptor
  imports Channel InetAddr
begin

text \<open>
  The acceptor of the listening socket (src/net/acceptor.h, src/net/acceptor.cpp): setting it up,
  and the loop that accepts connections, with the reserve descriptor that lets it shed connections
  when the process has run out of descriptors.

  The system calls are the fields of \<open>accept_env\<close>, functions on the world \<open>'w\<close>; so is the callback
  the server installs. \<open>acc_accept\<close> is both \<open>::accept4\<close> and \<open>::accept\<close>.
\<close>

subsection \<open>State and operations\<close>

datatype accept_cb = OnAcceptable

record acceptor =
  listen_addr :: inet_address
  listening :: bool
  idle_fd :: fd
  listen_socketFd :: fd
  listen_channel :: "accept_cb channel"
  has_new_connection_callback :: bool

record 'w accept_env =
  acc_socket :: "'w \<Rightarrow> fd \<times> 'w"
  acc_open_null :: "'w \<Rightarrow> fd \<times> 'w"
  acc_bind :: "fd \<Rightarrow> inet_address \<Rightarrow> 'w \<Rightarrow> int \<times> 'w"
  acc_listen :: "fd \<Rightarrow> 'w \<Rightarrow> int \<times> 'w"
  acc_accept :: "fd \<Rightarrow> 'w \<Rightarrow> (errno + fd \<times> inet_address) \<times> 'w"
  acc_close :: "fd \<Rightarrow> 'w \<Rightarrow> 'w"
  acc_epoll :: "'w epoll_ctl"
  acc_looping :: "'w \<Rightarrow> bool"
  acc_in_loop :: "'w \<Rightarrow> bool"
  acc_callback :: "fd \<Rightarrow> inet_address \<Rightarrow> 'w \<Rightarrow> 'w res"

definition new_Acceptor :: "'w accept_env \<Rightarrow> inet_address \<Rightarrow> 'w \<Rightarrow> acceptor \<times> 'w" where
  "new_Acceptor env addr w =
     (case acc_open_null env w of (idle, w1) \<Rightarrow>
      case acc_socket env w1 of (sock, w2) \<Rightarrow>
        (let ch = new_Channel sock;
             a = \<lparr>listen_addr = addr, listening = False, idle_fd = idle, listen_socketFd = sock,
                  listen_channel = ch, has_new_connection_callback = False\<rparr>
         in (if sock < 0 then a else a\<lparr>listen_channel := setReadCallback OnAcceptable ch\<rparr>, w2)))"

definition setNewConnectCallback :: "acceptor \<Rightarrow> acceptor" where
  "setNewConnectCallback a = a\<lparr>has_new_connection_callback := True\<rparr>"

definition acceptor_listen :: "'w accept_env \<Rightarrow> acceptor \<Rightarrow> 'w \<Rightarrow> acceptor \<times> 'w" where
  "acceptor_listen env a w =
     (case acc_bind env (listen_socketFd a) (listen_addr a) w of (ret, w1) \<Rightarrow>
        if ret < 0 then (a, w1)
        else (case acc_listen env (listen_socketFd a) w1 of (ret, w2) \<Rightarrow>
          if ret < 0 then (a, w2)
          else (case enableReading (acc_epoll env) (listen_channel a, w2) of (ch, w3) \<Rightarrow>
            (a\<lparr>listen_channel := ch, listening := True\<rparr>, w3))))"

text \<open>When no descriptor is left: give up the reserve, accept and drop one connection, take it back.\<close>

definition shed_connection :: "'w accept_env \<Rightarrow> acceptor \<times> 'w \<Rightarrow> acceptor \<times> 'w" where
  "shed_connection env = (\<lambda>(a, w).
     (let w1 = acc_close env (idle_fd a) w in
      case acc_accept env (listen_socketFd a) w1 of (r, w2) \<Rightarrow>
        (let idle = (case r of Inl _ \<Rightarrow> - 1 | Inr (f, _) \<Rightarrow> f);
             w3 = acc_close env idle w2
         in case acc_open_null env w3 of (idle, w4) \<Rightarrow> (a\<lparr>idle_fd := idle\<rparr>, w4))))"

definition hand_over :: "'w accept_env \<Rightarrow> acceptor \<Rightarrow> fd \<Rightarrow> inet_address \<Rightarrow> 'w \<Rightarrow> 'w res" where
  "hand_over env a conn_fd peer_addr w =
     (if has_new_connection_callback a then acc_callback env conn_fd peer_addr w
      else Inr (acc_close env conn_fd w))"

partial_function (option) acceptor_handleRead :: "'w accept_env \<Rightarrow> acceptor \<times> 'w
    \<Rightarrow> (acceptor \<times> 'w) res option" where
  "acceptor_handleRead env s =
     (case acc_accept env (listen_socketFd (fst s)) (snd s) of (r, w1) \<Rightarrow>
        (case r of
          Inr p \<Rightarrow>
            (case hand_over env (fst s) (fst p) (snd p) w1 of
               Inl e \<Rightarrow> Some (Inl e)
             | Inr w2 \<Rightarrow> acceptor_handleRead env (fst s, w2))
        | Inl err \<Rightarrow>
            if err = EAGAIN \<or> err = EWOULDBLOCK then Some (Inr (fst s, w1))
            else if err = EMFILE \<or> err = ENFILE
            then acceptor_handleRead env (shed_connection env (fst s, w1))
            else Some (Inr (fst s, w1))))"

definition acceptor_destroy :: "'w accept_env \<Rightarrow> acceptor \<Rightarrow> 'w \<Rightarrow> 'w res" where
  "acceptor_destroy env a w =
     bind_res (channel_remove (acc_epoll env) (acc_looping env w) (acc_in_loop env w) (listen_channel a, w))
       (\<lambda>(ch, w1).
     (let w2 = (if 0 \<le> listen_socketFd a then acc_close env (listen_socketFd a) w1 else w1) in
      Inr (if 0 \<le> idle_fd a then acc_close env (idle_fd a) w2 else w2)))"

subsection \<open>What the kernel promises\<close>

text \<open>
  \<open>queue w\<close> are the peers waiting to be accepted, \<open>free w\<close> the number of descriptors the process may
  still open, \<open>passed w\<close> the peers handed to the server. Accepting takes the first peer and a
  descriptor, fails with EMFILE when there is none and with EAGAIN when nobody waits; closing an open
  descriptor frees it, closing -1 does nothing; opening \<open>/dev/null\<close> takes one or returns -1. The
  server's callback keeps the descriptor, and does not fault.
\<close>

definition accept_ok :: "'w accept_env \<Rightarrow> ('w \<Rightarrow> inet_address list) \<Rightarrow> ('w \<Rightarrow> nat)
    \<Rightarrow> ('w \<Rightarrow> inet_address list) \<Rightarrow> bool" where
  "accept_ok env queue free passed \<longleftrightarrow>
     (\<forall>f w. case queue w of
        [] \<Rightarrow> (\<exists>w'. acc_accept env f w = (Inl EAGAIN, w') \<and> queue w' = [] \<and> free w' = free w \<and> passed w' = passed w)
      | p # ps \<Rightarrow>
          (case free w of
             0 \<Rightarrow> (\<exists>w'. acc_accept env f w = (Inl EMFILE, w') \<and> queue w' = queue w \<and> free w' = 0 \<and> passed w' = passed w)
           | Suc n \<Rightarrow> (\<exists>g w'. acc_accept env f w = (Inr (g, p), w') \<and> 0 \<le> g \<and> queue w' = ps \<and> free w' = n \<and> passed w' = passed w))) \<and>
     (\<forall>f w. queue (acc_close env f w) = queue w \<and> passed (acc_close env f w) = passed w \<and>
        free (acc_close env f w) = (if 0 \<le> f then free w + 1 else free w)) \<and>
     (\<forall>w. case free w of
        0 \<Rightarrow> (\<exists>w'. acc_open_null env w = (- 1, w') \<and> queue w' = queue w \<and> free w' = 0 \<and> passed w' = passed w)
      | Suc n \<Rightarrow> (\<exists>g w'. acc_open_null env w = (g, w') \<and> 0 \<le> g \<and> queue w' = queue w \<and> free w' = n \<and> passed w' = passed w)) \<and>
     (\<forall>f p w. \<exists>w'. acc_callback env f p w = Inr w' \<and> queue w' = queue w \<and> free w' = free w \<and>
        passed w' = passed w @ [p])"

lemma accept_laws:
  assumes "accept_ok env queue free passed"
  shows "queue w = [] \<Longrightarrow> \<exists>w'. acc_accept env f w = (Inl EAGAIN, w') \<and> queue w' = [] \<and>
      free w' = free w \<and> passed w' = passed w"
    and "queue w = p # ps \<Longrightarrow> free w = 0 \<Longrightarrow> \<exists>w'. acc_accept env f w = (Inl EMFILE, w') \<and>
      queue w' = p # ps \<and> free w' = 0 \<and> passed w' = passed w"
    and "queue w = p # ps \<Longrightarrow> free w = Suc n \<Longrightarrow> \<exists>g w'. acc_accept env f w = (Inr (g, p), w') \<and> 0 \<le> g \<and>
      queue w' = ps \<and> free w' = n \<and> passed w' = passed w"
    and "queue (acc_close env f w) = queue w \<and> passed (acc_close env f w) = passed w \<and>
      free (acc_close env f w) = (if 0 \<le> f then free w + 1 else free w)"
    and "free w = 0 \<Longrightarrow> \<exists>w'. acc_open_null env w = (- 1, w') \<and> queue w' = queue w \<and> free w' = 0 \<and>
      passed w' = passed w"
    and "free w = Suc n \<Longrightarrow> \<exists>g w'. acc_open_null env w = (g, w') \<and> 0 \<le> g \<and> queue w' = queue w \<and>
      free w' = n \<and> passed w' = passed w"
    and "\<exists>w'. acc_callback env f q w = Inr w' \<and> queue w' = queue w \<and> free w' = free w \<and>
      passed w' = passed w @ [q]"
proof -
  note laws = assms [unfolded accept_ok_def]
  have acc: "case queue w of
        [] \<Rightarrow> (\<exists>w'. acc_accept env f w = (Inl EAGAIN, w') \<and> queue w' = [] \<and> free w' = free w \<and> passed w' = passed w)
      | p # ps \<Rightarrow>
          (case free w of
             0 \<Rightarrow> (\<exists>w'. acc_accept env f w = (Inl EMFILE, w') \<and> queue w' = queue w \<and> free w' = 0 \<and> passed w' = passed w)
           | Suc n \<Rightarrow> (\<exists>g w'. acc_accept env f w = (Inr (g, p), w') \<and> 0 \<le> g \<and> queue w' = ps \<and> free w' = n \<and> passed w' = passed w))"
    using laws by blast
  show "queue w = [] \<Longrightarrow> \<exists>w'. acc_accept env f w = (Inl EAGAIN, w') \<and> queue w' = [] \<and>
      free w' = free w \<and> passed w' = passed w"
    and "queue w = p # ps \<Longrightarrow> free w = 0 \<Longrightarrow> \<exists>w'. acc_accept env f w = (Inl EMFILE, w') \<and>
      queue w' = p # ps \<and> free w' = 0 \<and> passed w' = passed w"
    and "queue w = p # ps \<Longrightarrow> free w = Suc n \<Longrightarrow> \<exists>g w'. acc_accept env f w = (Inr (g, p), w') \<and> 0 \<le> g \<and>
      queue w' = ps \<and> free w' = n \<and> passed w' = passed w"
    using acc by simp_all
  show "queue (acc_close env f w) = queue w \<and> passed (acc_close env f w) = passed w \<and>
      free (acc_close env f w) = (if 0 \<le> f then free w + 1 else free w)" using laws by blast
  have op: "case free w of
        0 \<Rightarrow> (\<exists>w'. acc_open_null env w = (- 1, w') \<and> queue w' = queue w \<and> free w' = 0 \<and> passed w' = passed w)
      | Suc n \<Rightarrow> (\<exists>g w'. acc_open_null env w = (g, w') \<and> 0 \<le> g \<and> queue w' = queue w \<and> free w' = n \<and> passed w' = passed w)"
    using laws by blast
  show "free w = 0 \<Longrightarrow> \<exists>w'. acc_open_null env w = (- 1, w') \<and> queue w' = queue w \<and> free w' = 0 \<and>
      passed w' = passed w"
    and "free w = Suc n \<Longrightarrow> \<exists>g w'. acc_open_null env w = (g, w') \<and> 0 \<le> g \<and> queue w' = queue w \<and>
      free w' = n \<and> passed w' = passed w"
    using op by simp_all
  show "\<exists>w'. acc_callback env f q w = Inr w' \<and> queue w' = queue w \<and> free w' = free w \<and>
      passed w' = passed w @ [q]" using laws by blast
qed

text \<open>Shedding with the reserve in hand drops one peer and leaves the reserve in hand.\<close>

lemma shed_connection_ok:
  assumes ok: "accept_ok env queue free passed" and "queue w = p # ps" and "free w = 0" and "0 \<le> idle_fd a"
  shows "\<exists>g w'. shed_connection env (a, w) = (a\<lparr>idle_fd := g\<rparr>, w') \<and> 0 \<le> g \<and> queue w' = ps \<and>
    free w' = 0 \<and> passed w' = passed w"
proof -
  note L = accept_laws [OF ok]
  let ?w1 = "acc_close env (idle_fd a) w"
  have "queue ?w1 = p # ps" "free ?w1 = Suc 0" "passed ?w1 = passed w" using L(4) assms(2-4) by simp_all
  then obtain f w2 where 2: "acc_accept env (listen_socketFd a) ?w1 = (Inr (f, p), w2)" "0 \<le> f"
    "queue w2 = ps" "free w2 = 0" "passed w2 = passed w" using L(3) by metis
  let ?w3 = "acc_close env f w2"
  have "queue ?w3 = ps" "free ?w3 = Suc 0" "passed ?w3 = passed w" using L(4) 2 by simp_all
  then obtain g w4 where "acc_open_null env ?w3 = (g, w4)" "0 \<le> g" "queue w4 = ps" "free w4 = 0"
    "passed w4 = passed w" using L(6) by metis
  with 2(1) show ?thesis
    by (intro exI [of _ g] exI [of _ w4]) (simp add: shed_connection_def Let_def)
qed

text \<open>Shedding without the reserve changes nothing that matters.\<close>

lemma shed_connection_stuck:
  assumes ok: "accept_ok env queue free passed" and "queue w = p # ps" and "free w = 0" and "idle_fd a = - 1"
  shows "\<exists>w'. shed_connection env (a, w) = (a, w') \<and> queue w' = p # ps \<and> free w' = 0"
proof -
  note L = accept_laws [OF ok]
  let ?w1 = "acc_close env (- 1) w"
  have "queue ?w1 = p # ps" "free ?w1 = 0" using L(4) assms(2,3) by simp_all
  then obtain w2 where 2: "acc_accept env (listen_socketFd a) ?w1 = (Inl EMFILE, w2)"
    "queue w2 = p # ps" "free w2 = 0" using L(2) by metis
  let ?w3 = "acc_close env (- 1) w2"
  have "queue ?w3 = p # ps" "free ?w3 = 0" using L(4) 2(2,3) by simp_all
  then obtain w4 where "acc_open_null env ?w3 = (- 1, w4)" "queue w4 = p # ps" "free w4 = 0"
    using L(5) by metis
  with 2(1) assms(4) show ?thesis
    by (intro exI [of _ w4]) (simp add: shed_connection_def Let_def)
qed

lemma acceptor_loop_ok:
  assumes ok: "accept_ok env queue free passed"
  shows "queue w = ps \<Longrightarrow> has_new_connection_callback a \<Longrightarrow> 0 \<le> idle_fd a \<Longrightarrow>
    \<exists>a' w'. acceptor_handleRead env (a, w) = Some (Inr (a', w')) \<and> queue w' = [] \<and> 0 \<le> idle_fd a' \<and>
      passed w' = passed w @ take (free w) ps \<and> free w' = free w - length ps"
proof (induction ps arbitrary: a w)
  case Nil
  with accept_laws(1) [OF ok, of w "listen_socketFd a"] obtain w' where
    "acc_accept env (listen_socketFd a) w = (Inl EAGAIN, w')" "queue w' = []" "free w' = free w"
    "passed w' = passed w" by blast
  with Nil show ?case by (subst acceptor_handleRead.simps) (simp add: EAGAIN_def)
next
  case (Cons p ps)
  show ?case
  proof (cases "free w")
    case 0
    from accept_laws(2) [OF ok Cons.prems(1) 0] obtain w1 where
      1: "acc_accept env (listen_socketFd a) w = (Inl EMFILE, w1)" "queue w1 = p # ps" "free w1 = 0"
        "passed w1 = passed w" by blast
    from shed_connection_ok [OF ok 1(2,3) Cons.prems(3)] obtain g w2 where
      2: "shed_connection env (a, w1) = (a\<lparr>idle_fd := g\<rparr>, w2)" "0 \<le> g" "queue w2 = ps" "free w2 = 0"
        "passed w2 = passed w1" by blast
    have "acceptor_handleRead env (a, w) = acceptor_handleRead env (a\<lparr>idle_fd := g\<rparr>, w2)"
      by (subst acceptor_handleRead.simps) (simp add: 1(1) 2(1) errno_defs)
    with Cons.IH [OF 2(3), of "a\<lparr>idle_fd := g\<rparr>"] Cons.prems(2) 2 1(4) 0 show ?thesis by simp
  next
    case (Suc n)
    from accept_laws(3) [OF ok Cons.prems(1) Suc] obtain g w1 where
      1: "acc_accept env (listen_socketFd a) w = (Inr (g, p), w1)" "queue w1 = ps" "free w1 = n"
        "passed w1 = passed w" by blast
    from accept_laws(7) [OF ok, of g p w1] obtain w2 where
      2: "acc_callback env g p w1 = Inr w2" "queue w2 = ps" "free w2 = n" "passed w2 = passed w @ [p]"
      using 1 by auto
    have "acceptor_handleRead env (a, w) = acceptor_handleRead env (a, w2)"
      by (subst acceptor_handleRead.simps) (simp add: 1(1) 2(1) hand_over_def Cons.prems(2))
    with Cons.IH [OF 2(2) Cons.prems(2,3)] 2 Suc show ?thesis by simp
  qed
qed

subsection \<open>Properties\<close>


text \<open>
  Without the reserve the loop never ends: if the descriptors have run out and the reserve could
  not be reopened, every round fails in the same way, so \<open>handleRead\<close> does not return as long as a
  peer waits and nobody else closes a descriptor.
\<close>

theorem acceptor_spins_without_reserve:
  assumes "accept_ok env queue free passed" and "queue w \<noteq> []" and "free w = 0" and "idle_fd a = - 1"
  shows "acceptor_handleRead env (a, w) = None"
proof (rule ccontr)
  assume "acceptor_handleRead env (a, w) \<noteq> None"
  then obtain r where r: "acceptor_handleRead env (a, w) = Some r" by blast
  have "e = env \<longrightarrow> \<not> (queue (snd s) \<noteq> [] \<and> free (snd s) = 0 \<and> idle_fd (fst s) = - 1)"
    if "acceptor_handleRead e s = Some r" for e s r
  proof (rule acceptor_handleRead.raw_induct [OF _ that])
    fix rec :: "'a accept_env \<Rightarrow> acceptor \<times> 'a \<Rightarrow> (acceptor \<times> 'a) res option" and e s r
    assume ih: "\<And>e s r. rec e s = Some r \<Longrightarrow>
        e = env \<longrightarrow> \<not> (queue (snd s) \<noteq> [] \<and> free (snd s) = 0 \<and> idle_fd (fst s) = - 1)"
      and body: "(case acc_accept e (listen_socketFd (fst s)) (snd s) of (r, w1) \<Rightarrow>
        (case r of
          Inr p \<Rightarrow>
            (case hand_over e (fst s) (fst p) (snd p) w1 of
               Inl e \<Rightarrow> Some (Inl e)
             | Inr w2 \<Rightarrow> rec e (fst s, w2))
        | Inl err \<Rightarrow>
            if err = EAGAIN \<or> err = EWOULDBLOCK then Some (Inr (fst s, w1))
            else if err = EMFILE \<or> err = ENFILE
            then rec e (shed_connection e (fst s, w1))
            else Some (Inr (fst s, w1)))) = Some r"
    show "e = env \<longrightarrow> \<not> (queue (snd s) \<noteq> [] \<and> free (snd s) = 0 \<and> idle_fd (fst s) = - 1)"
    proof (intro impI notI)
      assume e: "e = env" and bad: "queue (snd s) \<noteq> [] \<and> free (snd s) = 0 \<and> idle_fd (fst s) = - 1"
      obtain p ps where q: "queue (snd s) = p # ps" using bad by (cases "queue (snd s)") auto
      with accept_laws(2) [OF assms(1), of "snd s" p ps] bad obtain w1 where
        w1: "acc_accept env (listen_socketFd (fst s)) (snd s) = (Inl EMFILE, w1)" "queue w1 = p # ps"
          "free w1 = 0" by blast
      from shed_connection_stuck [OF assms(1) w1(2,3), of "fst s"] bad obtain w2 where
        w2: "shed_connection env (fst s, w1) = (fst s, w2)" "queue w2 = p # ps" "free w2 = 0" by blast
      have "rec env (fst s, w2) = Some r" using body w1(1) w2(1) e by (simp add: errno_defs)
      with ih [of env "(fst s, w2)" r] w2(2,3) bad show False by simp
    qed
  qed
  from this [OF r] assms(2-4) show False by simp
qed

text \<open>
  Destroying an acceptor that listens aborts: \<open>listen\<close> enables reading, nothing disables it, and
  the destructor's \<open>remove\<close> asserts that the channel wants no event.
\<close>

theorem listening_acceptor_aborts:
  assumes "acceptor_listen env a w = (a', w')" and "listening a'" and "\<not> listening a"
  shows "acceptor_destroy env a' w'' = Inl AssertFail"
proof -
  have "isReading (ch\<lparr>ch_events := ch_events ch OR EPOLLIN\<rparr>)" for ch :: "accept_cb channel"
    by (simp add: mask_bits bit_masks bit_or_iff)
  then have "isReading (listen_channel a')"
    using assms by (auto simp: acceptor_listen_def enableReading_def set_events_def Let_def
        split: prod.splits if_splits)
  then have "\<not> isNoneEvent (listen_channel a')" by (auto simp: isReading_def isNoneEvent_def)
  then show ?thesis by (simp add: acceptor_destroy_def channel_remove_def)
qed

text \<open>A kernel that is its queue, its free descriptors and what was passed on, for the witnesses.\<close>

type_synonym acc_world = "inet_address list \<times> nat \<times> inet_address list"

definition acc_env :: "acc_world accept_env" where
  "acc_env = \<lparr>acc_socket = (\<lambda>w. (3, w)),
     acc_open_null = (\<lambda>(q, n, p). if n = 0 then (- 1, q, n, p) else (9, q, n - 1, p)),
     acc_bind = (\<lambda>f a w. (0, w)), acc_listen = (\<lambda>f w. (0, w)),
     acc_accept = (\<lambda>f (q, n, p). case q of [] \<Rightarrow> (Inl EAGAIN, q, n, p)
       | x # xs \<Rightarrow> if n = 0 then (Inl EMFILE, q, n, p) else (Inr (8, x), xs, n - 1, p)),
     acc_close = (\<lambda>f (q, n, p). if 0 \<le> f then (q, n + 1, p) else (q, n, p)),
     acc_epoll = (\<lambda>op f ev w. (None, w)), acc_looping = (\<lambda>w. True), acc_in_loop = (\<lambda>w. True),
     acc_callback = (\<lambda>f a (q, n, p). Inr (q, n, p @ [a]))\<rparr>"

lemma acc_env_ok: "accept_ok acc_env fst (\<lambda>w. fst (snd w)) (\<lambda>w. snd (snd w))"
  by (auto simp: accept_ok_def acc_env_def split: list.split nat.split)

definition sample_acceptor :: acceptor where
  "sample_acceptor = \<lparr>listen_addr = InetAddress (0, 0, 0, 0) 0, listening = False, idle_fd = 4,
     listen_socketFd = 3, listen_channel = setReadCallback OnAcceptable (new_Channel 3),
     has_new_connection_callback = True\<rparr>"

definition peer :: "nat \<Rightarrow> inet_address" where
  "peer n = InetAddress (10, 0, 0, of_nat n) 0"


theorem acceptor_spins_without_reserve_witness:
  "acceptor_handleRead acc_env (sample_acceptor\<lparr>idle_fd := - 1\<rparr>, [peer 1], 0, []) = None"
  by (rule acceptor_spins_without_reserve [OF acc_env_ok]) simp_all

theorem listening_acceptor_aborts_witness:
  "\<exists>a' w'. acceptor_listen acc_env sample_acceptor ([], 5, []) = (a', w') \<and>
    acceptor_destroy acc_env a' w' = Inl AssertFail"
proof -
  obtain a' w' where 1: "acceptor_listen acc_env sample_acceptor ([], 5, []) = (a', w')"
    by (cases "acceptor_listen acc_env sample_acceptor ([], 5, [])")
  then have "listening a'" "\<not> listening sample_acceptor"
    by (auto simp: acceptor_listen_def acc_env_def sample_acceptor_def split: prod.splits)
  from listening_acceptor_aborts [OF 1 this] 1 show ?thesis by blast
qed

end
