(* ===== verification/TcpConnection.thy ===== *)
theory TcpConnection
  imports Buffer Channel InetAddr
begin

text \<open>
  A TCP connection in its loop thread (src/net/tcp_connection.h, src/net/tcp_connection.cpp): its
  state machine, its two buffers, its channel, the user callbacks and the handler
  (src/net/connection_handler.h).

  Everything outside the object is the world \<open>'w\<close>, reached through the record of functions
  \<open>tcp_env\<close>: the system calls, epoll, the state of the loop, and what the callbacks and the handler
  do, which may use the connection again and is therefore a function on the connection and the world.
  A function that stores a closure in the loop (\<open>runInLoop\<close> while functors run) stores its name, a
  \<open>conn_task\<close>; \<open>run_task\<close> is what the loop does with it later.
\<close>

subsection \<open>State\<close>

datatype conn_state = kDisConnected | kConnected | kConnecting | kDisConnecting

datatype channel_cb = OnRead | OnWrite | OnClose | OnError

record ('cb, 'h) tcp =
  conn_name :: string
  conn_fd :: fd
  peer_addr :: inet_address
  conn_channel :: "channel_cb channel"
  input_buffer :: buffer
  output_buffer :: buffer
  tcp_state :: conn_state
  handler :: "'h option"
  connection_callback :: "'cb option"
  message_callback :: "'cb option"
  write_complete_callback :: "'cb option"
  high_water_mark_callback :: "'cb option"
  conn_close_callback :: "'cb option"
  high_water_mark :: size_t

text \<open>\<open>ssize_t\<close> is a word read as signed.\<close>

type_synonym ssize_t = "64 word"

datatype conn_task = StartReadTask | StopReadTask | SendTask bytes | ShutdownTask
  | HighWaterTask | WriteCompleteTask

text \<open>
  \<open>env_write\<close> returns the result of \<open>::write\<close>, the value of \<open>errno\<close> after it and the new world;
  \<open>env_so_error\<close> the result of \<open>::getsockopt\<close>, the pending socket error and the new world.
  \<open>env_call\<close> calls a stored callback with the connection, \<open>env_on_message\<close>, \<open>env_on_connection\<close>
  and \<open>env_on_close\<close> the handler's methods.
\<close>

record ('cb, 'h, 'w) tcp_env =
  env_write :: "fd \<Rightarrow> bytes \<Rightarrow> 'w \<Rightarrow> ssize_t \<times> errno \<times> 'w"
  env_readv :: "fd \<Rightarrow> size_t list \<Rightarrow> 'w \<Rightarrow> (errno + bytes) \<times> 'w"
  env_so_error :: "fd \<Rightarrow> 'w \<Rightarrow> int \<times> errno \<times> 'w"
  env_close :: "fd \<Rightarrow> 'w \<Rightarrow> 'w"
  env_epoll :: "'w epoll_ctl"
  env_looping :: "'w \<Rightarrow> bool"
  env_in_loop :: "'w \<Rightarrow> bool"
  env_calling :: "'w \<Rightarrow> bool"
  env_post :: "conn_task \<Rightarrow> 'w \<Rightarrow> 'w"
  env_call :: "'cb \<Rightarrow> ('cb, 'h) tcp \<times> 'w \<Rightarrow> (('cb, 'h) tcp \<times> 'w) res"
  env_on_message :: "'h \<Rightarrow> ('cb, 'h) tcp \<times> 'w \<Rightarrow> (('cb, 'h) tcp \<times> 'w) res"
  env_on_connection :: "'h \<Rightarrow> ('cb, 'h) tcp \<times> 'w \<Rightarrow> (('cb, 'h) tcp \<times> 'w) res"
  env_on_close :: "'h \<Rightarrow> ('cb, 'h) tcp \<times> 'w \<Rightarrow> (('cb, 'h) tcp \<times> 'w) res"

type_synonym ('cb, 'h, 'w) conn_op = "('cb, 'h) tcp \<times> 'w \<Rightarrow> (('cb, 'h) tcp \<times> 'w) res"

subsection \<open>Construction and configuration\<close>

definition new_TcpConnection :: "string \<Rightarrow> fd \<Rightarrow> inet_address \<Rightarrow> ('cb, 'h) tcp res" where
  "new_TcpConnection name connFd peer =
     bind_res (new_buffer initialSize_default) (\<lambda>input.
     bind_res (new_buffer initialSize_default) (\<lambda>output.
     (let ch = setErrorCallback OnError (setCloseCallback OnClose
                 (setWriteCallback OnWrite (setReadCallback OnRead (new_Channel connFd))))
      in Inr \<lparr>conn_name = name, conn_fd = connFd, peer_addr = peer, conn_channel = ch,
              input_buffer = input, output_buffer = output, tcp_state = kConnecting, handler = None,
              connection_callback = None, message_callback = None, write_complete_callback = None,
              high_water_mark_callback = None, conn_close_callback = None,
              high_water_mark = 64 * 1024 * 1024\<rparr>)))"

definition setConnectionCallback :: "'cb \<Rightarrow> ('cb, 'h) tcp \<Rightarrow> ('cb, 'h) tcp" where
  "setConnectionCallback cb c = c\<lparr>connection_callback := Some cb\<rparr>"

definition setMessageCallback :: "'cb \<Rightarrow> ('cb, 'h) tcp \<Rightarrow> ('cb, 'h) tcp" where
  "setMessageCallback cb c = c\<lparr>message_callback := Some cb\<rparr>"

definition setWriteCompleteCallback :: "'cb \<Rightarrow> ('cb, 'h) tcp \<Rightarrow> ('cb, 'h) tcp" where
  "setWriteCompleteCallback cb c = c\<lparr>write_complete_callback := Some cb\<rparr>"

definition setConnCloseCallback :: "'cb \<Rightarrow> ('cb, 'h) tcp \<Rightarrow> ('cb, 'h) tcp" where
  "setConnCloseCallback cb c = c\<lparr>conn_close_callback := Some cb\<rparr>"

definition setHighWaterMarkCallback :: "'cb \<Rightarrow> size_t \<Rightarrow> ('cb, 'h) tcp \<Rightarrow> ('cb, 'h) tcp" where
  "setHighWaterMarkCallback cb mark c =
     c\<lparr>high_water_mark_callback := Some cb, high_water_mark := mark\<rparr>"

definition setHandler :: "'h \<Rightarrow> ('cb, 'h) tcp \<Rightarrow> ('cb, 'h) tcp" where
  "setHandler h c = c\<lparr>handler := Some h\<rparr>"

definition tcp_destroy :: "('cb, 'h, 'w) tcp_env \<Rightarrow> ('cb, 'h) tcp \<Rightarrow> 'w \<Rightarrow> 'w res" where
  "tcp_destroy env c w =
     bind_res (cassert (tcp_state c = kDisConnected)) (\<lambda>_.
     Inr (if conn_fd c \<noteq> - 1 then env_close env (conn_fd c) w else w))"

subsection \<open>Plumbing\<close>

definition in_loop :: "('cb, 'h, 'w) tcp_env \<Rightarrow> ('cb, 'h, 'w) conn_op \<Rightarrow> ('cb, 'h, 'w) conn_op" where
  "in_loop env body s = bind_res (cassert (env_in_loop env (snd s))) (\<lambda>_. body s)"

definition on_channel :: "('cb, 'h, 'w) tcp_env
    \<Rightarrow> ('w epoll_ctl \<Rightarrow> channel_cb channel \<times> 'w \<Rightarrow> channel_cb channel \<times> 'w)
    \<Rightarrow> ('cb, 'h) tcp \<times> 'w \<Rightarrow> ('cb, 'h) tcp \<times> 'w" where
  "on_channel env f = (\<lambda>(c, w).
     case f (env_epoll env) (conn_channel c, w) of (ch, w') \<Rightarrow> (c\<lparr>conn_channel := ch\<rparr>, w'))"

definition call_opt :: "('x \<Rightarrow> ('cb, 'h, 'w) conn_op) \<Rightarrow> 'x option \<Rightarrow> ('cb, 'h, 'w) conn_op" where
  "call_opt call cb s = (case cb of None \<Rightarrow> Inr s | Some f \<Rightarrow> call f s)"

text \<open>\<open>loop_->runInLoop\<close>: at once in the loop thread outside the functor phase, else stored.\<close>

definition conn_runInLoop :: "('cb, 'h, 'w) tcp_env \<Rightarrow> conn_task \<Rightarrow> ('cb, 'h, 'w) conn_op
    \<Rightarrow> ('cb, 'h, 'w) conn_op" where
  "conn_runInLoop env task body s =
     (if env_in_loop env (snd s) \<and> \<not> env_calling env (snd s) then body s
      else Inr (fst s, env_post env task (snd s)))"

definition set_state :: "conn_state \<Rightarrow> ('cb, 'h) tcp \<times> 'w \<Rightarrow> ('cb, 'h) tcp \<times> 'w" where
  "set_state st = (\<lambda>(c, w). (c\<lparr>tcp_state := st\<rparr>, w))"

definition conn_channel_remove :: "('cb, 'h, 'w) tcp_env \<Rightarrow> ('cb, 'h, 'w) conn_op" where
  "conn_channel_remove env = (\<lambda>(c, w).
     bind_res (channel_remove (env_epoll env) (env_looping env w) (env_in_loop env w) (conn_channel c, w))
       (\<lambda>(ch, w'). Inr (c\<lparr>conn_channel := ch\<rparr>, w')))"

subsection \<open>Reading on and off, establishment, destruction\<close>

definition active :: "('cb, 'h) tcp \<Rightarrow> bool" where
  "active c \<longleftrightarrow> tcp_state c = kConnected \<or> tcp_state c = kConnecting"

definition startRead_body :: "('cb, 'h, 'w) tcp_env \<Rightarrow> ('cb, 'h, 'w) conn_op" where
  "startRead_body env s =
     (if active (fst s) \<and> \<not> isReading (conn_channel (fst s)) then Inr (on_channel env enableReading s)
      else Inr s)"

definition stopRead_body :: "('cb, 'h, 'w) tcp_env \<Rightarrow> ('cb, 'h, 'w) conn_op" where
  "stopRead_body env s =
     (if active (fst s) \<and> isReading (conn_channel (fst s)) then Inr (on_channel env disableReading s)
      else Inr s)"

definition startRead :: "('cb, 'h, 'w) tcp_env \<Rightarrow> ('cb, 'h, 'w) conn_op" where
  "startRead env = conn_runInLoop env StartReadTask (startRead_body env)"

definition stopRead :: "('cb, 'h, 'w) tcp_env \<Rightarrow> ('cb, 'h, 'w) conn_op" where
  "stopRead env = conn_runInLoop env StopReadTask (stopRead_body env)"

definition connectEstablished :: "('cb, 'h, 'w) tcp_env \<Rightarrow> ('cb, 'h, 'w) conn_op" where
  "connectEstablished env = in_loop env (\<lambda>s.
     (let s = on_channel env enableReading (set_state kConnected s) in
      bind_res (call_opt (env_call env) (connection_callback (fst s)) s) (\<lambda>s.
      call_opt (env_on_connection env) (handler (fst s)) s)))"

definition connectEstablishedAsClient :: "('cb, 'h, 'w) tcp_env \<Rightarrow> ('cb, 'h, 'w) conn_op" where
  "connectEstablishedAsClient env = in_loop env (\<lambda>s.
     Inr (on_channel env enableWriting (set_state kConnecting s)))"

definition connectDestroyed :: "('cb, 'h, 'w) tcp_env \<Rightarrow> ('cb, 'h, 'w) conn_op" where
  "connectDestroyed env = in_loop env (\<lambda>s.
     bind_res
       (if tcp_state (fst s) = kConnected \<or> tcp_state (fst s) = kDisConnecting then
          (let s = on_channel env disableAll (set_state kDisConnected s) in
           call_opt (env_on_close env) (handler (fst s)) s)
        else Inr s) (\<lambda>s.
     bind_res (conn_channel_remove env s) (\<lambda>s.
     call_opt (env_call env) (conn_close_callback (fst s)) s)))"

definition handleClose :: "('cb, 'h, 'w) tcp_env \<Rightarrow> ('cb, 'h, 'w) conn_op" where
  "handleClose env = in_loop env (connectDestroyed env)"

definition handleError :: "('cb, 'h, 'w) tcp_env \<Rightarrow> ('cb, 'h, 'w) conn_op" where
  "handleError env = in_loop env (handleClose env)"

subsection \<open>Sending\<close>

text \<open>
  The direct write: what is left to send, whether the write failed for good, and the state. A
  callback that reports completion is called at once.
\<close>

definition direct_write :: "('cb, 'h, 'w) tcp_env \<Rightarrow> bytes \<Rightarrow> ('cb, 'h) tcp \<times> 'w
    \<Rightarrow> (size_t \<times> bool \<times> ('cb, 'h) tcp \<times> 'w) res" where
  "direct_write env message = (\<lambda>(c, w).
     (let size = of_nat (length message) :: size_t in
      case env_write env (conn_fd c) message w of (nwrote, err, w') \<Rightarrow>
        if 0 \<le> sint nwrote then
          (let remaining = size - nwrote in
           if remaining = 0 then
             bind_res (call_opt (env_call env) (write_complete_callback c) (c, w')) (\<lambda>s.
             Inr (remaining, False, s))
           else Inr (remaining, False, c, w'))
        else Inr (size, err \<noteq> EWOULDBLOCK, c, w')))"

definition buffer_rest :: "('cb, 'h, 'w) tcp_env \<Rightarrow> bytes \<Rightarrow> size_t \<Rightarrow> ('cb, 'h, 'w) conn_op" where
  "buffer_rest env message remaining = (\<lambda>(c, w).
     (let size = of_nat (length message) :: size_t; oldLen = readableBytes (output_buffer c) in
      bind_res (append_raw (drop (unat (size - remaining)) message) remaining (output_buffer c)) (\<lambda>b.
      (let s = (c\<lparr>output_buffer := b\<rparr>, w) in
       bind_res
         (if high_water_mark c \<le> oldLen + remaining \<and> oldLen < high_water_mark c \<and>
             high_water_mark_callback c \<noteq> None
          then conn_runInLoop env HighWaterTask
                 (\<lambda>s. call_opt (env_call env) (high_water_mark_callback (fst s)) s) s
          else Inr s) (\<lambda>s.
       Inr (if \<not> isWriting (conn_channel (fst s)) then on_channel env enableWriting s else s))))))"

definition sendInLoop :: "('cb, 'h, 'w) tcp_env \<Rightarrow> bytes \<Rightarrow> ('cb, 'h, 'w) conn_op" where
  "sendInLoop env message = in_loop env (\<lambda>s.
     if tcp_state (fst s) = kConnected then
       bind_res
         (if readableBytes (output_buffer (fst s)) = 0 then direct_write env message s
          else Inr (of_nat (length message), False, s)) (\<lambda>(remaining, faultError, s).
       bind_res (if \<not> faultError \<and> 0 < remaining then buffer_rest env message remaining s else Inr s)
         (\<lambda>s. if faultError then handleClose env s else Inr s))
     else Inr s)"

definition send :: "('cb, 'h, 'w) tcp_env \<Rightarrow> bytes \<Rightarrow> ('cb, 'h, 'w) conn_op" where
  "send env message s =
     (if env_in_loop env (snd s) then sendInLoop env message s
      else conn_runInLoop env (SendTask message) (sendInLoop env message) s)"

definition shutdownInLoop :: "('cb, 'h, 'w) tcp_env \<Rightarrow> ('cb, 'h, 'w) conn_op" where
  "shutdownInLoop env = in_loop env (\<lambda>s.
     if tcp_state (fst s) = kConnected then Inr (set_state kDisConnecting s) else Inr s)"

definition shutdown :: "('cb, 'h, 'w) tcp_env \<Rightarrow> ('cb, 'h, 'w) conn_op" where
  "shutdown env s =
     (if env_in_loop env (snd s) then shutdownInLoop env s
      else conn_runInLoop env ShutdownTask (shutdownInLoop env) s)"

subsection \<open>Events\<close>

definition deliver :: "('cb, 'h, 'w) tcp_env \<Rightarrow> ('cb, 'h, 'w) conn_op" where
  "deliver env s =
     (case handler (fst s) of Some h \<Rightarrow> env_on_message env h s
      | None \<Rightarrow> call_opt (env_call env) (message_callback (fst s)) s)"

text \<open>
  The loop of \<open>handleRead\<close> reads until the kernel has nothing, the peer has closed, or an error. It
  may go on as long as data arrives, so its value is \<open>None\<close> where it does not end.
\<close>

partial_function (option) handleRead_loop :: "('cb, 'h, 'w) tcp_env \<Rightarrow> errno \<Rightarrow> ('cb, 'h) tcp \<times> 'w
    \<Rightarrow> (('cb, 'h) tcp \<times> 'w) res option" where
  "handleRead_loop env savedErrno s =
     (case readFd (env_readv env) (conn_fd (fst s)) savedErrno (input_buffer (fst s)) (snd s) of
        Inl e \<Rightarrow> Some (Inl e)
      | Inr r \<Rightarrow>
          (let n = fst r; err = fst (snd r); s = ((fst s)\<lparr>input_buffer := fst (snd (snd r))\<rparr>, snd (snd (snd r))) in
           if 0 < n then
             (case deliver env s of Inl e \<Rightarrow> Some (Inl e) | Inr s \<Rightarrow> handleRead_loop env err s)
           else if n = 0 then Some (handleClose env s)
           else if err = EAGAIN \<or> err = EWOULDBLOCK then Some (Inr s)
           else Some (handleClose env s)))"

definition handleRead :: "('cb, 'h, 'w) tcp_env \<Rightarrow> ('cb, 'h) tcp \<times> 'w
    \<Rightarrow> (('cb, 'h) tcp \<times> 'w) res option" where
  "handleRead env s = (if env_in_loop env (snd s) then handleRead_loop env 0 s else Some (Inl AssertFail))"

text \<open>The loop of \<open>handleWrite\<close>: every positive result shortens the output buffer.\<close>

function handleWrite_loop :: "('cb, 'h, 'w) tcp_env \<Rightarrow> ('cb, 'h) tcp \<times> 'w
    \<Rightarrow> (('cb, 'h) tcp \<times> 'w) res" where
  "handleWrite_loop env (c, w) =
     (let out = output_buffer c in
      if 0 < readableBytes out then
        (case read_range (storage out) (unat (peek out)) (unat (readableBytes out)) of
           Inl e \<Rightarrow> Inl e
         | Inr data \<Rightarrow>
             (case env_write env (conn_fd c) data w of (n, err, w') \<Rightarrow>
                if 0 < sint n then
                  (let s = (c\<lparr>output_buffer := retrieve n out\<rparr>, w') in
                   if readableBytes (output_buffer (fst s)) = 0 then
                     (let s = on_channel env disableWriting s in
                      if write_complete_callback (fst s) \<noteq> None
                      then conn_runInLoop env WriteCompleteTask
                             (\<lambda>s. call_opt (env_call env) (write_complete_callback (fst s)) s) s
                      else Inr s)
                   else handleWrite_loop env s)
                else if err = EAGAIN \<or> err = EWOULDBLOCK then Inr (c, w')
                else handleClose env (c, w')))
      else Inr (c, w))"
  by pat_completeness auto

lemma retrieve_shrinks:
  assumes "0 < sint (n :: size_t)" and "0 < readableBytes b"
  shows "readableBytes (retrieve n b) < readableBytes b"
proof (cases "n < readableBytes b")
  case True
  have "n \<noteq> 0" using assms(1) by auto
  then have "0 < n" by (simp add: word_greater_zero_iff)
  have "readableBytes (retrieve n b) = readableBytes b - n"
    using True by (simp add: retrieve_def readableBytes_def algebra_simps)
  moreover have "readableBytes b - n < readableBytes b"
    using True \<open>0 < n\<close> by (simp add: word_less_nat_alt unat_sub_if_size)
  ultimately show ?thesis by simp
next
  case False
  with assms(2) show ?thesis by (simp add: retrieve_def retrieveAll_def readableBytes_def)
qed

termination handleWrite_loop
  by (relation "measure (\<lambda>(env, c, w). unat (readableBytes (output_buffer c)))")
    (auto simp: unat_mono retrieve_shrinks)

declare handleWrite_loop.simps [simp del]

definition handleWrite :: "('cb, 'h, 'w) tcp_env \<Rightarrow> ('cb, 'h, 'w) conn_op" where
  "handleWrite env = in_loop env (\<lambda>(c, w).
     if tcp_state c = kConnecting then
       (case env_so_error env (conn_fd c) w of (ret, error, w') \<Rightarrow>
          if ret < 0 then handleClose env (c, w')
          else if error = 0 then
            (let s = on_channel env enableReading (on_channel env disableWriting
                       (set_state kConnected (c, w'))) in
             call_opt (env_call env) (connection_callback (fst s)) s)
          else handleClose env (c, w'))
     else if isWriting (conn_channel c) then handleWrite_loop env (c, w)
     else Inr (c, w))"

text \<open>What the channel calls, and a whole event (\<open>Channel::handleEvent\<close>).\<close>

fun run_channel_cb :: "('cb, 'h, 'w) tcp_env \<Rightarrow> channel_cb \<Rightarrow> ('cb, 'h) tcp \<times> 'w
    \<Rightarrow> (('cb, 'h) tcp \<times> 'w) res option" where
  "run_channel_cb env OnRead s = handleRead env s"
| "run_channel_cb env OnWrite s = Some (handleWrite env s)"
| "run_channel_cb env OnClose s = Some (handleClose env s)"
| "run_channel_cb env OnError s = Some (handleError env s)"

fun run_channel_cbs :: "('cb, 'h, 'w) tcp_env \<Rightarrow> channel_cb list \<Rightarrow> ('cb, 'h) tcp \<times> 'w
    \<Rightarrow> (('cb, 'h) tcp \<times> 'w) res option" where
  "run_channel_cbs env [] s = Some (Inr s)"
| "run_channel_cbs env (cb # cbs) s =
     (case run_channel_cb env cb s of None \<Rightarrow> None | Some (Inl e) \<Rightarrow> Some (Inl e)
      | Some (Inr s') \<Rightarrow> run_channel_cbs env cbs s')"

definition conn_event :: "('cb, 'h, 'w) tcp_env \<Rightarrow> uint32 \<Rightarrow> ('cb, 'h) tcp \<times> 'w
    \<Rightarrow> (('cb, 'h) tcp \<times> 'w) res option" where
  "conn_event env revents = (\<lambda>(c, w).
     (let ch = setRevents revents (conn_channel c) in
      run_channel_cbs env (selected_callbacks ch) (c\<lparr>conn_channel := ch\<rparr>, w)))"

fun run_task :: "('cb, 'h, 'w) tcp_env \<Rightarrow> conn_task \<Rightarrow> ('cb, 'h, 'w) conn_op" where
  "run_task env StartReadTask s = startRead_body env s"
| "run_task env StopReadTask s = stopRead_body env s"
| "run_task env (SendTask message) s = sendInLoop env message s"
| "run_task env ShutdownTask s = shutdownInLoop env s"
| "run_task env HighWaterTask s = call_opt (env_call env) (high_water_mark_callback (fst s)) s"
| "run_task env WriteCompleteTask s = call_opt (env_call env) (write_complete_callback (fst s)) s"

end
