(* ===== verification/TcpStream.thy ===== *)
theory TcpStream
  imports TcpConnection
begin

text \<open>
  The output stream of a connection (src/net/tcp_connection.cpp: \<open>sendInLoop\<close>, \<open>handleWrite\<close>): the
  bytes the kernel accepted followed by the bytes in the output buffer are the bytes handed to
  \<open>send\<close>, in order, and as long as some are left the channel waits for writability.
\<close>

subsection \<open>What the output path relies on\<close>

text \<open>
  \<open>sent w f\<close> is what the kernel has accepted on the descriptor \<open>f\<close>. Documented behaviour of
  \<open>::write\<close> on a non-blocking socket: it accepts a prefix, not empty unless the request was, or fails
  and accepts nothing; here the only failure is a full send buffer. Registration with epoll and
  storing a task change nothing on the stream, and the operations run in the loop thread.
  \<open>stream_on P\<close> asks this of the worlds that satisfy \<open>P\<close>, on one descriptor, and that \<open>P\<close> is kept:
  \<open>P\<close> is what the rest of the program relies on while this connection works.
\<close>

definition stream_on :: "('w \<Rightarrow> bool) \<Rightarrow> ('cb, 'h, 'w) tcp_env \<Rightarrow> ('w \<Rightarrow> fd \<Rightarrow> bytes) \<Rightarrow> fd \<Rightarrow> bool" where
  "stream_on P env sent f \<longleftrightarrow>
     (\<forall>data w n err w'. P w \<longrightarrow> env_write env f data w = (n, err, w') \<longrightarrow> P w' \<and>
        (if 0 \<le> sint n
         then nat (sint n) \<le> length data \<and> (data \<noteq> [] \<longrightarrow> 0 < sint n) \<and>
           sent w' f = sent w f @ take (nat (sint n)) data
         else err = EAGAIN \<and> sent w' f = sent w f)) \<and>
     (\<forall>op g ev w. P w \<longrightarrow> P (snd (env_epoll env op g ev w)) \<and> sent (snd (env_epoll env op g ev w)) f = sent w f) \<and>
     (\<forall>t w. P w \<longrightarrow> env_calling env w \<longrightarrow> P (env_post env t w) \<and> sent (env_post env t w) f = sent w f) \<and>
     (\<forall>w. P w \<longrightarrow> env_in_loop env w)"

text \<open>A callback that acts elsewhere: it leaves this connection and its stream alone.\<close>

definition quiet :: "('w \<Rightarrow> bool) \<Rightarrow> ('cb, 'h, 'w) tcp_env \<Rightarrow> ('w \<Rightarrow> fd \<Rightarrow> bytes) \<Rightarrow> fd \<Rightarrow> 'cb option \<Rightarrow> bool" where
  "quiet P env sent f cb \<longleftrightarrow> (\<forall>g. cb = Some g \<longrightarrow> (\<forall>c w. conn_fd c = f \<longrightarrow> P w \<longrightarrow>
     (\<exists>w'. env_call env g (c, w) = Inr (c, w') \<and> P w' \<and> sent w' f = sent w f)))"

definition quiet_conn :: "('w \<Rightarrow> bool) \<Rightarrow> ('cb, 'h, 'w) tcp_env \<Rightarrow> ('w \<Rightarrow> fd \<Rightarrow> bytes) \<Rightarrow> ('cb, 'h) tcp \<Rightarrow> bool" where
  "quiet_conn P env sent c \<longleftrightarrow> quiet P env sent (conn_fd c) (write_complete_callback c) \<and>
     quiet P env sent (conn_fd c) (high_water_mark_callback c)"

text \<open>The connection invariant, and what an operation on the output path leaves unchanged.\<close>

definition out_inv :: "('cb, 'h) tcp \<Rightarrow> bool" where
  "out_inv c \<longleftrightarrow> buffer_inv (output_buffer c) \<and> tcp_state c = kConnected \<and>
     (content (output_buffer c) \<noteq> [] \<longrightarrow> isWriting (conn_channel c))"

definition same_conn :: "('cb, 'h) tcp \<Rightarrow> ('cb, 'h) tcp \<Rightarrow> bool" where
  "same_conn c c' \<longleftrightarrow> conn_fd c' = conn_fd c \<and> tcp_state c' = tcp_state c \<and>
     input_buffer c' = input_buffer c \<and> handler c' = handler c \<and>
     connection_callback c' = connection_callback c \<and> message_callback c' = message_callback c \<and>
     write_complete_callback c' = write_complete_callback c \<and>
     high_water_mark_callback c' = high_water_mark_callback c \<and>
     conn_close_callback c' = conn_close_callback c"

lemma same_conn_refl [simp]: "same_conn c c"
  by (simp add: same_conn_def)

lemma same_conn_trans: "same_conn a b \<Longrightarrow> same_conn b c \<Longrightarrow> same_conn a c"
  by (simp add: same_conn_def)

lemma same_conn_quiet: "same_conn c c' \<Longrightarrow> quiet_conn P env sent c \<Longrightarrow> quiet_conn P env sent c'"
  by (simp add: same_conn_def quiet_conn_def)

lemma stream_write:
  assumes "stream_on P env sent f" and "env_write env f data w = (n, err, w')" and "P w"
  shows "P w'" and "0 \<le> sint n \<Longrightarrow> nat (sint n) \<le> length data \<and> (data \<noteq> [] \<longrightarrow> 0 < sint n) \<and>
      sent w' f = sent w f @ take (nat (sint n)) data"
    and "\<not> 0 \<le> sint n \<Longrightarrow> err = EAGAIN \<and> sent w' f = sent w f"
  using assms unfolding stream_on_def by (metis (full_types))+

lemma stream_in_loop: "stream_on P env sent f \<Longrightarrow> P (snd s) \<Longrightarrow> in_loop env body s = body s"
  by (simp add: stream_on_def in_loop_def)

lemma in_loop_body: "stream_on P env sent f \<Longrightarrow> P w \<Longrightarrow> env_in_loop env w"
  by (simp add: stream_on_def)

lemma stream_update:
  assumes "stream_on P env sent f" and "P w"
  shows "P (updateChannel (env_epoll env) ch w)" "sent (updateChannel (env_epoll env) ch w) f = sent w f"
proof -
  have e: "P w \<Longrightarrow> P (snd (env_epoll env op g ev w)) \<and> sent (snd (env_epoll env op g ev w)) f = sent w f"
    for op g ev w using assms by (simp add: stream_on_def)
  obtain r k1 where r: "env_epoll env CTL_ADD (ch_fd ch) (ch_events ch) w = (r, k1)"
    by (cases "env_epoll env CTL_ADD (ch_fd ch) (ch_events ch) w")
  then have "P k1" "sent k1 f = sent w f" using e [OF assms(2), of CTL_ADD "ch_fd ch" "ch_events ch"] by simp_all
  with r show "P (updateChannel (env_epoll env) ch w)" "sent (updateChannel (env_epoll env) ch w) f = sent w f"
    by (cases r; simp add: updateChannel_def e)+
qed

text \<open>Switching writing on or off.\<close>

lemma on_channel_writing:
  assumes "stream_on P env sent f" and "P w"
  shows "\<exists>ch w'. on_channel env enableWriting (c, w) = (c\<lparr>conn_channel := ch\<rparr>, w') \<and> isWriting ch \<and>
      P w' \<and> sent w' f = sent w f"
    and "\<exists>ch w'. on_channel env disableWriting (c, w) = (c\<lparr>conn_channel := ch\<rparr>, w') \<and>
      \<not> isWriting ch \<and> P w' \<and> sent w' f = sent w f"
proof -
  have 1: "isWriting (ch\<lparr>ch_events := ch_events ch OR EPOLLOUT\<rparr>)"
    and 2: "\<not> isWriting (ch\<lparr>ch_events := ch_events ch AND NOT EPOLLOUT\<rparr>)"
    for ch :: "channel_cb channel"
    by (simp_all add: mask_bits bit_masks bit_or_iff bit_and_iff bit_not_iff)
  show "\<exists>ch w'. on_channel env enableWriting (c, w) = (c\<lparr>conn_channel := ch\<rparr>, w') \<and> isWriting ch \<and>
      P w' \<and> sent w' f = sent w f"
    using 1 by (auto simp: on_channel_def enableWriting_def set_events_def Let_def stream_update [OF assms])
  show "\<exists>ch w'. on_channel env disableWriting (c, w) = (c\<lparr>conn_channel := ch\<rparr>, w') \<and>
      \<not> isWriting ch \<and> P w' \<and> sent w' f = sent w f"
    using 2 by (auto simp: on_channel_def disableWriting_def set_events_def Let_def stream_update [OF assms])
qed

lemma quiet_call:
  assumes "quiet P env sent (conn_fd c) cb" and "P w"
  shows "\<exists>w'. call_opt (env_call env) cb (c, w) = Inr (c, w') \<and> P w' \<and>
    sent w' (conn_fd c) = sent w (conn_fd c)"
  using assms by (cases cb) (auto simp: call_opt_def quiet_def)

text \<open>A task that calls a quiet callback, at once or later, changes nothing here.\<close>

lemma quiet_task:
  assumes "stream_on P env sent (conn_fd c)" and "quiet P env sent (conn_fd c) (get c)" and "P w"
  shows "\<exists>w'. conn_runInLoop env t (\<lambda>s. call_opt (env_call env) (get (fst s)) s) (c, w) = Inr (c, w') \<and>
    P w' \<and> sent w' (conn_fd c) = sent w (conn_fd c)"
  using quiet_call [OF assms(2,3)] assms(1,3)
  by (auto simp: conn_runInLoop_def stream_on_def)

lemma content_empty_iff: "buffer_inv b \<Longrightarrow> readableBytes b = 0 \<longleftrightarrow> content b = []"
  using buffer_nat(4) [of b] by (metis length_0_conv unat_eq_zero)

lemma peek_content:
  assumes "buffer_inv b"
  shows "read_range (storage b) (unat (peek b)) (unat (readableBytes b)) = Inr (content b)"
  using assms buffer_nat(1) [OF assms]
  by (auto simp: read_range_def content_def peek_def buffer_inv_def)

lemma unat_of_sint:
  assumes "0 \<le> sint n" and "nat (sint n) \<le> l" and "l < 2 ^ 63"
  shows "unat (n :: ssize_t) = nat (sint n)"
proof -
  have "sint n \<le> int l" using assms(2) by simp
  also have "int l < 2 ^ 63" using assms(3) by simp
  finally have "uint n = sint n" using assms(1) by (simp add: uint_sint take_bit_int_eq_self)
  then show ?thesis by (metis nat_uint_eq)
qed

subsection \<open>Sending\<close>

lemma direct_write_ok:
  assumes env: "stream_on P env sent (conn_fd c)"
    and q: "quiet P env sent (conn_fd c) (write_complete_callback c)"
    and len: "length message < 2 ^ 63" and pw: "P w"
  shows "\<exists>remaining w'. direct_write env message (c, w) = Inr (remaining, False, c, w') \<and> P w' \<and>
    unat remaining \<le> length message \<and>
    sent w' (conn_fd c) @ drop (length message - unat remaining) message = sent w (conn_fd c) @ message"
proof -
  obtain n err w1 where wr: "env_write env (conn_fd c) message w = (n, err, w1)"
    by (metis prod_cases3)
  have size: "unat (of_nat (length message) :: size_t) = length message"
    using len by (intro unat_of_nat_exact) simp
  show ?thesis
  proof (cases "0 \<le> sint n")
    case True
    note law = stream_write(2) [OF env wr pw True]
    then have un: "unat n = nat (sint n)" using True len by (intro unat_of_sint) auto
    let ?rem = "of_nat (length message) - n :: size_t"
    have le: "unat n \<le> length message" using un law by simp
    then have rem: "unat ?rem = length message - unat n" using size by (simp add: unat_minus_exact)
    then have drop: "drop (length message - unat ?rem) message = drop (unat n) message" using le by simp
    have sent1: "sent w1 (conn_fd c) @ drop (unat n) message = sent w (conn_fd c) @ message"
      using law un by simp
    show ?thesis
    proof (cases "?rem = 0")
      case True
      obtain w' where "call_opt (env_call env) (write_complete_callback c) (c, w1) = Inr (c, w')"
        "P w'" "sent w' (conn_fd c) = sent w1 (conn_fd c)"
        using quiet_call [OF q stream_write(1) [OF env wr pw]] by blast
      with True \<open>0 \<le> sint n\<close> wr sent1 drop show ?thesis
        by (simp add: direct_write_def Let_def)
    next
      case False
      with \<open>0 \<le> sint n\<close> wr sent1 drop rem stream_write(1) [OF env wr pw] show ?thesis
        by (simp add: direct_write_def Let_def)
    qed
  next
    case False
    with stream_write(1,3) [OF env wr pw] wr size show ?thesis
      by (auto simp: direct_write_def Let_def errno_defs)
  qed
qed

lemma buffer_rest_ok:
  assumes env: "stream_on P env sent (conn_fd c)" and pw: "P w"
    and q: "quiet P env sent (conn_fd c) (high_water_mark_callback c)"
    and inv: "buffer_inv (output_buffer c)" and len: "length message < 2 ^ 63"
    and rem: "unat remaining \<le> length message" and fits: "unat remaining \<le> room (output_buffer c)"
  shows "\<exists>b ch w'. buffer_rest env message remaining (c, w) =
      Inr (c\<lparr>output_buffer := b, conn_channel := ch\<rparr>, w') \<and> isWriting ch \<and> buffer_inv b \<and>
    content b = content (output_buffer c) @ drop (length message - unat remaining) message \<and>
    room (output_buffer c) - unat remaining \<le> room b \<and> P w' \<and> sent w' (conn_fd c) = sent w (conn_fd c)"
proof -
  let ?data = "drop (unat (of_nat (length message) - remaining :: size_t)) message"
  have "unat (of_nat (length message) - remaining :: size_t) = length message - unat remaining"
    using rem len by (simp add: unat_minus_exact unat_of_nat_exact)
  then have data: "?data = drop (length message - unat remaining) message" by simp
  have "unat remaining \<le> length ?data" using rem by (simp add: data)
  from append_raw_props [OF inv this fits] obtain b where b:
    "append_raw ?data remaining (output_buffer c) = Inr b" "buffer_inv b"
    "content b = content (output_buffer c) @ take (unat remaining) ?data"
    "room (output_buffer c) - unat remaining \<le> room b" by blast
  have all: "take (unat remaining) ?data = drop (length message - unat remaining) message"
    using rem by (simp add: data)
  let ?c = "c\<lparr>output_buffer := b\<rparr>"
  have env': "stream_on P env sent (conn_fd ?c)" using env by simp
  have q': "quiet P env sent (conn_fd ?c) (high_water_mark_callback ?c)" using q by simp
  from quiet_task [OF env', of high_water_mark_callback w HighWaterTask, OF q' pw] obtain w1 where
    w1: "conn_runInLoop env HighWaterTask (\<lambda>s. call_opt (env_call env) (high_water_mark_callback (fst s)) s)
      (?c, w) = Inr (?c, w1)" "P w1" "sent w1 (conn_fd c) = sent w (conn_fd c)" by auto
  have "\<exists>w2. (if high_water_mark ?c \<le> oldLen + remaining \<and> oldLen < high_water_mark ?c \<and>
             high_water_mark_callback ?c \<noteq> None
          then conn_runInLoop env HighWaterTask
                 (\<lambda>s. call_opt (env_call env) (high_water_mark_callback (fst s)) s) (?c, w)
          else Inr (?c, w)) = Inr (?c, w2) \<and> P w2 \<and> sent w2 (conn_fd c) = sent w (conn_fd c)" for oldLen
    using w1 pw by auto
  then obtain w2 where w2: "(if high_water_mark c \<le> readableBytes (output_buffer c) + remaining \<and>
             readableBytes (output_buffer c) < high_water_mark c \<and> high_water_mark_callback c \<noteq> None
          then conn_runInLoop env HighWaterTask
                 (\<lambda>s. call_opt (env_call env) (high_water_mark_callback (fst s)) s) (?c, w)
          else Inr (?c, w)) = Inr (?c, w2)" "P w2" "sent w2 (conn_fd c) = sent w (conn_fd c)" by fastforce
  have run: "buffer_rest env message remaining (c, w) =
      Inr (if \<not> isWriting (conn_channel c) then on_channel env enableWriting (?c, w2) else (?c, w2))"
    using b(1) w2(1) by (simp add: buffer_rest_def Let_def)
  show ?thesis
  proof (cases "isWriting (conn_channel c)")
    case True
    with run b w2(2,3) all show ?thesis
      by (intro exI [of _ b] exI [of _ "conn_channel c"] exI [of _ w2]) simp
  next
    case False
    from on_channel_writing(1) [OF env w2(2), of ?c] obtain ch w3 where
      "on_channel env enableWriting (?c, w2) = (?c\<lparr>conn_channel := ch\<rparr>, w3)" "isWriting ch"
      "P w3" "sent w3 (conn_fd c) = sent w2 (conn_fd c)" by blast
    with run False b w2(3) all show ?thesis by auto
  qed
qed

lemma sendInLoop_ok:
  assumes env: "stream_on P env sent (conn_fd c)" and q: "quiet_conn P env sent c" and inv: "out_inv c" and pw: "P w"
    and len: "length message < 2 ^ 63" and fits: "length message \<le> room (output_buffer c)"
  shows "\<exists>c' w'. sendInLoop env message (c, w) = Inr (c', w') \<and> same_conn c c' \<and> out_inv c' \<and> P w' \<and>
    sent w' (conn_fd c) @ content (output_buffer c') =
      sent w (conn_fd c) @ content (output_buffer c) @ message \<and>
    room (output_buffer c) - length message \<le> room (output_buffer c')"
proof -
  let ?out = "output_buffer c"
  have b: "buffer_inv ?out" and st: "tcp_state c = kConnected" using inv by (simp_all add: out_inv_def)
  have qs: "quiet P env sent (conn_fd c) (write_complete_callback c)"
    "quiet P env sent (conn_fd c) (high_water_mark_callback c)"
    using q by (simp_all add: quiet_conn_def)
  have first: "\<exists>rem w1. (if readableBytes ?out = 0 then direct_write env message (c, w)
       else Inr (of_nat (length message), False, c, w)) = Inr (rem, False, c, w1) \<and> P w1 \<and>
     unat rem \<le> length message \<and>
     sent w1 (conn_fd c) @ content ?out @ drop (length message - unat rem) message =
       sent w (conn_fd c) @ content ?out @ message"
  proof (cases "readableBytes ?out = 0")
    case True
    then have "content ?out = []" using content_empty_iff [OF b] by simp
    with True direct_write_ok [OF env qs(1) len pw] show ?thesis by auto
  next
    case False
    have "unat (of_nat (length message) :: size_t) = length message"
      using len by (intro unat_of_nat_exact) simp
    with False pw show ?thesis by auto
  qed
  then obtain rem w1 where 1: "(if readableBytes ?out = 0 then direct_write env message (c, w)
       else Inr (of_nat (length message), False, c, w)) = Inr (rem, False, c, w1)"
     "unat rem \<le> length message"
     "sent w1 (conn_fd c) @ content ?out @ drop (length message - unat rem) message =
       sent w (conn_fd c) @ content ?out @ message" and pw1: "P w1" by blast
  have run: "sendInLoop env message (c, w) =
      (if 0 < rem then buffer_rest env message rem (c, w1) else Inr (c, w1))"
    using 1(1) st pw unfolding sendInLoop_def
    by (subst stream_in_loop [OF env]) simp_all
  show ?thesis
  proof (cases "0 < rem")
    case True
    have "unat rem \<le> room ?out" using 1(2) fits by simp
    from buffer_rest_ok [OF env pw1 qs(2) b len 1(2) this] obtain b' ch w2 where
      2: "buffer_rest env message rem (c, w1) = Inr (c\<lparr>output_buffer := b', conn_channel := ch\<rparr>, w2)"
        "isWriting ch" "buffer_inv b'"
        "content b' = content ?out @ drop (length message - unat rem) message"
        "room ?out - unat rem \<le> room b'" "P w2" "sent w2 (conn_fd c) = sent w1 (conn_fd c)" by blast
    with run True 1 st show ?thesis by (auto simp: same_conn_def out_inv_def)
  next
    case False
    then have "rem = 0" by (simp add: word_greater_zero_iff)
    with run 1 pw1 inv show ?thesis by auto
  qed
qed

subsection \<open>Writing out\<close>

lemma handleWrite_loop_ok:
  assumes env: "stream_on P env sent (conn_fd c)" and q: "quiet_conn P env sent c" and inv: "out_inv c" and pw: "P w"
  shows "\<exists>c' w'. handleWrite_loop env (c, w) = Inr (c', w') \<and> same_conn c c' \<and> out_inv c' \<and> P w' \<and>
    sent w' (conn_fd c) @ content (output_buffer c') = sent w (conn_fd c) @ content (output_buffer c) \<and>
    room (output_buffer c) \<le> room (output_buffer c')"
  using env q inv pw
proof (induction "unat (readableBytes (output_buffer c))" arbitrary: c w rule: less_induct)
  case less
  let ?out = "output_buffer c"
  note env = less.prems(1) and pw = less.prems(4)
  have b: "buffer_inv ?out" and st: "tcp_state c = kConnected"
    using less.prems(3) by (simp_all add: out_inv_def)
  show ?case
  proof (cases "0 < readableBytes ?out")
    case False
    then show ?thesis using less.prems(3) pw
      by (intro exI [of _ c] exI [of _ w]) (simp add: handleWrite_loop.simps Let_def)
  next
    case pos: True
    obtain n err w1 where wr: "env_write env (conn_fd c) (content ?out) w = (n, err, w1)"
      by (metis prod_cases3)
    have ne: "content ?out \<noteq> []" using pos content_empty_iff [OF b] by auto
    have small: "length (content ?out) < 2 ^ 63"
      using b buffer_nat(1,4) [OF b] by (auto simp: buffer_inv_def vector_max_size_def)
    note unfold = handleWrite_loop.simps [of env c w] Let_def peek_content [OF b] wr
    show ?thesis
    proof (cases "0 < sint n")
      case False
      have "\<not> 0 \<le> sint n" using stream_write(2) [OF env wr pw] False ne by blast
      from stream_write(1,3) [OF env wr pw] this
      have "handleWrite_loop env (c, w) = Inr (c, w1)" "P w1" "sent w1 (conn_fd c) = sent w (conn_fd c)"
        using False pos by (simp_all add: unfold)
      then show ?thesis using less.prems(3) by auto
    next
      case True
      then have nn: "0 \<le> sint n" by simp
      note law = stream_write(2) [OF env wr pw nn] and pw1 = stream_write(1) [OF env wr pw]
      have un: "unat n = nat (sint n)" using nn small law by (intro unat_of_sint) auto
      let ?c = "c\<lparr>output_buffer := retrieve n ?out\<rparr>"
      have b': "buffer_inv (retrieve n ?out)" "content (retrieve n ?out) = drop (unat n) (content ?out)"
        using retrieve_props [OF b] by simp_all
      have sent1: "sent w1 (conn_fd c) @ content (retrieve n ?out) = sent w (conn_fd c) @ content ?out"
        using law b'(2) un by simp
      have rm: "room ?out \<le> room (retrieve n ?out)" by (rule retrieve_room [OF b])
      have env': "stream_on P env sent (conn_fd ?c)" using env by simp
      have q': "quiet_conn P env sent ?c" using less.prems(2) by (simp add: quiet_conn_def)
      show ?thesis
      proof (cases "readableBytes (retrieve n ?out) = 0")
        case False
        then have "content (retrieve n ?out) \<noteq> []" using content_empty_iff [OF b'(1)] by simp
        have inv': "out_inv ?c" using less.prems(3) b'(1) ne by (simp add: out_inv_def)
        have "unat (readableBytes (output_buffer ?c)) < unat (readableBytes ?out)"
          using retrieve_shrinks [OF True pos] by (simp add: word_less_nat_alt)
        from less.hyps [OF this env' q' inv' pw1] obtain c' w' where
          "handleWrite_loop env (?c, w1) = Inr (c', w')" "same_conn ?c c'" "out_inv c'" "P w'"
          "sent w' (conn_fd c) @ content (output_buffer c') = sent w1 (conn_fd c) @ content (retrieve n ?out)"
          "room (retrieve n ?out) \<le> room (output_buffer c')" by auto
        moreover have "handleWrite_loop env (c, w) = handleWrite_loop env (?c, w1)"
          using True False pos by (simp add: unfold)
        moreover have "same_conn c ?c" by (simp add: same_conn_def)
        ultimately show ?thesis using sent1 rm same_conn_trans by (metis le_trans)
      next
        case fin: True
        then have none: "content (retrieve n ?out) = []" using content_empty_iff [OF b'(1)] by simp
        from on_channel_writing(2) [OF env pw1, of ?c] obtain ch w2 where
          off: "on_channel env disableWriting (?c, w1) = (?c\<lparr>conn_channel := ch\<rparr>, w2)"
            "P w2" "sent w2 (conn_fd c) = sent w1 (conn_fd c)"
          by blast
        let ?d = "?c\<lparr>conn_channel := ch\<rparr>"
        have "quiet P env sent (conn_fd ?d) (write_complete_callback ?d)" "stream_on P env sent (conn_fd ?d)"
          using less.prems(2) by (simp_all add: quiet_conn_def env)
        from quiet_task [of P env sent ?d write_complete_callback w2 WriteCompleteTask, OF this(2,1) off(2)] obtain w3
          where t: "conn_runInLoop env WriteCompleteTask
              (\<lambda>s. call_opt (env_call env) (write_complete_callback (fst s)) s) (?d, w2) = Inr (?d, w3)" "P w3"
            "sent w3 (conn_fd c) = sent w2 (conn_fd c)" by auto
        define w4 where "w4 = (if write_complete_callback c \<noteq> None then w3 else w2)"
        have "handleWrite_loop env (c, w) = Inr (?d, w4)"
          using True pos fin off(1) t(1) by (simp add: unfold w4_def)
        moreover have "sent w4 (conn_fd c) = sent w1 (conn_fd c)"
          using t(3) off(3) by (simp add: w4_def)
        moreover have "P w4" using t(2) off(2) by (simp add: w4_def)
        moreover have "out_inv ?d" using st b'(1) none by (simp add: out_inv_def)
        moreover have "same_conn c ?d" by (simp add: same_conn_def)
        ultimately show ?thesis using sent1 rm by auto
      qed
    qed
  qed
qed

lemma handleWrite_ok:
  assumes env: "stream_on P env sent (conn_fd c)" and q: "quiet_conn P env sent c" and inv: "out_inv c" and pw: "P w"
  shows "\<exists>c' w'. handleWrite env (c, w) = Inr (c', w') \<and> same_conn c c' \<and> out_inv c' \<and> P w' \<and>
    sent w' (conn_fd c) @ content (output_buffer c') = sent w (conn_fd c) @ content (output_buffer c) \<and>
    room (output_buffer c) \<le> room (output_buffer c')"
proof (cases "isWriting (conn_channel c)")
  case True
  have "tcp_state c \<noteq> kConnecting" using inv by (simp add: out_inv_def)
  with True handleWrite_loop_ok [OF assms] show ?thesis
    by (simp add: handleWrite_def stream_in_loop [OF env] pw)
next
  case False
  have "tcp_state c \<noteq> kConnecting" using inv by (simp add: out_inv_def)
  with False have "handleWrite env (c, w) = Inr (c, w)"
    by (simp add: handleWrite_def stream_in_loop [OF env] pw)
  with inv pw show ?thesis by auto
qed

subsection \<open>Histories of the output path\<close>

datatype out_op = SendOp bytes | WritableOp

fun out_step :: "('cb, 'h, 'w) tcp_env \<Rightarrow> out_op \<Rightarrow> ('cb, 'h, 'w) conn_op" where
  "out_step env (SendOp message) s = send env message s"
| "out_step env WritableOp s = handleWrite env s"

fun out_bytes :: "out_op list \<Rightarrow> bytes" where
  "out_bytes [] = []"
| "out_bytes (SendOp message # ops) = message @ out_bytes ops"
| "out_bytes (WritableOp # ops) = out_bytes ops"

lemma out_run_ok:
  "stream_on P env sent (conn_fd c) \<Longrightarrow> quiet_conn P env sent c \<Longrightarrow> out_inv c \<Longrightarrow> P w \<Longrightarrow>
    length (out_bytes ops) \<le> room (output_buffer c) \<Longrightarrow>
    \<exists>c' w'. fold_res (out_step env) ops (c, w) = Inr (c', w') \<and> same_conn c c' \<and> out_inv c' \<and>
      sent w' (conn_fd c) @ content (output_buffer c') =
        sent w (conn_fd c) @ content (output_buffer c) @ out_bytes ops"
proof (induction ops arbitrary: c w)
  case Nil
  then show ?case by auto
next
  case (Cons op ops)
  note env = Cons.prems(1) and q = Cons.prems(2) and inv = Cons.prems(3) and pw = Cons.prems(4)
  obtain message where m: "out_bytes (op # ops) = message @ out_bytes ops"
    and op: "op = SendOp message \<or> op = WritableOp \<and> message = []" by (cases op) auto
  have "room (output_buffer c) \<le> vector_max_size" by (simp add: room_def)
  then have len: "length message < 2 ^ 63" using Cons.prems(5) m by (simp add: vector_max_size_def)
  have fits: "length message \<le> room (output_buffer c)" using Cons.prems(5) m by simp
  have "\<exists>c1 w1. out_step env op (c, w) = Inr (c1, w1) \<and> same_conn c c1 \<and> out_inv c1 \<and> P w1 \<and>
    sent w1 (conn_fd c) @ content (output_buffer c1) =
      sent w (conn_fd c) @ content (output_buffer c) @ message \<and>
    room (output_buffer c) - length message \<le> room (output_buffer c1)"
    using op
  proof
    assume "op = SendOp message"
    then show ?thesis using sendInLoop_ok [OF env q inv pw len fits] in_loop_body [OF env pw]
      by (simp add: send_def)
  next
    assume "op = WritableOp \<and> message = []"
    then show ?thesis using handleWrite_ok [OF env q inv pw] by simp
  qed
  then obtain c1 w1 where 1: "out_step env op (c, w) = Inr (c1, w1)" "same_conn c c1" "out_inv c1" "P w1"
    "sent w1 (conn_fd c) @ content (output_buffer c1) =
      sent w (conn_fd c) @ content (output_buffer c) @ message"
    "room (output_buffer c) - length message \<le> room (output_buffer c1)" by blast
  have fd: "conn_fd c1 = conn_fd c" using 1(2) by (simp add: same_conn_def)
  have "length (out_bytes ops) \<le> room (output_buffer c1)" using Cons.prems(5) m 1(6) by simp
  with Cons.IH [OF _ same_conn_quiet [OF 1(2) q] 1(3,4)] env fd obtain c2 w2 where
    "fold_res (out_step env) ops (c1, w1) = Inr (c2, w2)" "same_conn c1 c2" "out_inv c2"
    "sent w2 (conn_fd c1) @ content (output_buffer c2) =
      sent w1 (conn_fd c1) @ content (output_buffer c1) @ out_bytes ops" by auto
  then show ?case using 1(1,2,5) m fd same_conn_trans [OF 1(2)]
    by (metis append.assoc bind_res.simps(2) fold_res.simps(2))
qed

subsection \<open>Properties\<close>


text \<open>A kernel that takes at most three bytes at a time, for the witnesses.\<close>

definition slow_env :: "(nat, nat, fd \<Rightarrow> bytes) tcp_env" where
  "slow_env = \<lparr>env_write = (\<lambda>f data w. (of_nat (min 3 (length data)), 0, w(f := w f @ take 3 data))),
     env_readv = (\<lambda>f lens w. (Inl EAGAIN, w)), env_so_error = (\<lambda>f w. (0, 0, w)),
     env_close = (\<lambda>f w. w), env_epoll = (\<lambda>op f ev w. (None, w)), env_looping = (\<lambda>w. True),
     env_in_loop = (\<lambda>w. True), env_calling = (\<lambda>w. False), env_post = (\<lambda>t w. w),
     env_call = (\<lambda>cb s. Inr s), env_on_message = (\<lambda>h s. Inr s),
     env_on_connection = (\<lambda>h s. Inr s), env_on_close = (\<lambda>h s. Inr s)\<rparr>"

lemma slow_env_ok: "stream_on (\<lambda>w. True) slow_env (\<lambda>w. w) f"
proof -
  have "sint (word_of_nat (min 3 l) :: ssize_t) = int (min 3 l)" for l
  proof -
    have "min 3 l = 0 \<or> min 3 l = 1 \<or> min 3 l = 2 \<or> min 3 l = 3" by linarith
    then show ?thesis by (elim disjE) simp_all
  qed
  then show ?thesis by (auto simp: stream_on_def slow_env_def min_def)
qed

definition sample_conn :: "(nat, nat) tcp" where
  "sample_conn = \<lparr>conn_name = ''conn_7'', conn_fd = 7, peer_addr = InetAddress (127, 0, 0, 1) 0,
     conn_channel = new_Channel 7, input_buffer = \<lparr>storage = replicate 64 (CHR 0x00), readerIndex = 8, writerIndex = 8\<rparr>,
     output_buffer = \<lparr>storage = replicate 64 (CHR 0x00), readerIndex = 8, writerIndex = 8\<rparr>,
     tcp_state = kConnected, handler = None, connection_callback = None, message_callback = None,
     write_complete_callback = Some 0, high_water_mark_callback = Some 1, conn_close_callback = Some 2,
     high_water_mark = 4\<rparr>"

lemma sample_conn_ok:
  "tcp_state sample_conn = kConnected" "buffer_inv (output_buffer sample_conn)"
  "buffer_inv (input_buffer sample_conn)" "conn_fd sample_conn = 7"
  "content (output_buffer sample_conn) = []" "content (input_buffer sample_conn) = []"
  "room (output_buffer sample_conn) = vector_max_size - 8"
  by (simp_all add: sample_conn_def buffer_inv_def content_def readableBytes_def vector_max_size_def
      room_def)


end
