(* ===== verification/TcpLife.thy ===== *)
theory TcpLife
  imports TcpStream
begin

text \<open>
  The input path and the life cycle of a connection (src/net/tcp_connection.cpp): \<open>handleRead\<close> drains
  the socket and hands everything to the handler in order; establishing, closing and destroying work
  together in the good cases; and the places where they do not.
\<close>

subsection \<open>The input path\<close>

text \<open>
  \<open>incoming w f\<close> are the chunks the kernel will deliver on \<open>f\<close>, one per \<open>::readv\<close>, none empty and
  none above the size of the stack buffer; then it reports EAGAIN. \<open>got w\<close> is what the application
  has taken so far.
\<close>

definition input_env :: "('cb, 'h, 'w) tcp_env \<Rightarrow> ('w \<Rightarrow> fd \<Rightarrow> bytes list) \<Rightarrow> ('w \<Rightarrow> bytes) \<Rightarrow> bool" where
  "input_env env incoming got \<longleftrightarrow> (\<forall>w. env_in_loop env w) \<and>
     (\<forall>f lens w. case incoming w f of
        [] \<Rightarrow> (\<exists>w'. env_readv env f lens w = (Inl EAGAIN, w') \<and> incoming w' f = [] \<and> got w' = got w)
      | d # ds \<Rightarrow> (\<exists>w'. env_readv env f lens w = (Inr d, w') \<and> incoming w' f = ds \<and> got w' = got w))"

lemma input_env_next:
  assumes "input_env env incoming got"
  shows "case incoming w f of
        [] \<Rightarrow> (\<exists>w'. env_readv env f lens w = (Inl EAGAIN, w') \<and> incoming w' f = [] \<and> got w' = got w)
      | d # ds \<Rightarrow> (\<exists>w'. env_readv env f lens w = (Inr d, w') \<and> incoming w' f = ds \<and> got w' = got w)"
  using assms unfolding input_env_def by blast

text \<open>
  A consumer: the handler, or the message callback, takes a prefix of the input buffer, possibly
  empty, and leaves the rest, the connection's set-up and the kernel's queue alone.
\<close>

definition same_input :: "('cb, 'h) tcp \<Rightarrow> ('cb, 'h) tcp \<Rightarrow> bool" where
  "same_input c c' \<longleftrightarrow> conn_fd c' = conn_fd c \<and> handler c' = handler c \<and>
     message_callback c' = message_callback c"

definition consumer :: "('cb, 'h, 'w) tcp_env \<Rightarrow> ('w \<Rightarrow> fd \<Rightarrow> bytes list) \<Rightarrow> ('w \<Rightarrow> bytes)
    \<Rightarrow> ('cb, 'h) tcp \<Rightarrow> bool" where
  "consumer env incoming got c0 \<longleftrightarrow> (\<forall>c w. same_input c0 c \<longrightarrow> buffer_inv (input_buffer c) \<longrightarrow>
     (\<exists>c' w'. deliver env (c, w) = Inr (c', w') \<and> same_input c0 c' \<and> buffer_inv (input_buffer c') \<and>
        got w' @ content (input_buffer c') = got w @ content (input_buffer c) \<and>
        room (input_buffer c) \<le> room (input_buffer c') \<and> incoming w' (conn_fd c) = incoming w (conn_fd c)))"

lemma readv_capacity_chunk:
  assumes "length d \<le> 65536" and "length d \<le> room b"
  shows "length d \<le> readv_capacity b"
proof -
  have "\<not> writableBytes b < extrabuf_size \<Longrightarrow> unat extrabuf_size \<le> unat (writableBytes b)"
    by (simp add: word_less_nat_alt)
  moreover have "unat extrabuf_size = 65536" by (simp add: extrabuf_size_def)
  ultimately show ?thesis using assms by (auto simp: readv_capacity_def)
qed

text \<open>
  \<open>I ds s\<close> holds before each read when the chunks \<open>ds\<close> are still to come; then the loop ends in a
  state satisfying \<open>J\<close>.
\<close>

lemma handleRead_loop_inv:
  fixes I :: "bytes list \<Rightarrow> ('cb, 'h) tcp \<times> 'w \<Rightarrow> bool"
  assumes done_law: "\<And>c w. I [] (c, w) \<Longrightarrow>
      \<exists>w'. env_readv env (conn_fd c) (iov_lengths (input_buffer c)) w = (Inl EAGAIN, w') \<and> J (c, w')"
    and read_law: "\<And>d ds c w. I (d # ds) (c, w) \<Longrightarrow> buffer_inv (input_buffer c) \<and> d \<noteq> [] \<and>
      length d \<le> 65536 \<and> length d \<le> room (input_buffer c) \<and>
      (\<exists>w1. env_readv env (conn_fd c) (iov_lengths (input_buffer c)) w = (Inr d, w1) \<and>
        (\<forall>b. buffer_inv b \<longrightarrow> content b = content (input_buffer c) @ d \<longrightarrow>
          room (input_buffer c) - length d \<le> room b \<longrightarrow>
          (\<exists>s'. deliver env (c\<lparr>input_buffer := b\<rparr>, w1) = Inr s' \<and> I ds s')))"
  shows "I ds s \<Longrightarrow> \<exists>s'. handleRead_loop env e s = Some (Inr s') \<and> J s'"
proof (induction ds arbitrary: s e)
  case Nil
  obtain c w where s: "s = (c, w)" by (cases s)
  from done_law Nil obtain w' where
    r: "env_readv env (conn_fd c) (iov_lengths (input_buffer c)) w = (Inl EAGAIN, w')" "J (c, w')"
    unfolding s by blast
  have "handleRead_loop env e s = Some (Inr (c, w'))"
    by (subst handleRead_loop.simps) (simp add: s readFd_error [where readv = "env_readv env", OF r(1)])
  with r(2) show ?case by simp
next
  case (Cons d ds)
  obtain c w where s: "s = (c, w)" by (cases s)
  let ?in = "input_buffer c"
  note law = read_law [OF Cons.prems [unfolded s]]
  then have inv: "buffer_inv ?in" and d: "d \<noteq> []" "length d \<le> 65536" "length d \<le> room ?in" by simp_all
  from law obtain w1 where r: "env_readv env (conn_fd c) (iov_lengths ?in) w = (Inr d, w1)"
    and del: "\<And>b. buffer_inv b \<Longrightarrow> content b = content ?in @ d \<Longrightarrow> room ?in - length d \<le> room b \<Longrightarrow>
      \<exists>s'. deliver env (c\<lparr>input_buffer := b\<rparr>, w1) = Inr s' \<and> I ds s'" by blast
  have cap: "length d \<le> readv_capacity ?in" by (rule readv_capacity_chunk) (use d in auto)
  from readFd_ok [where readv = "env_readv env", OF inv r cap d(3), of e] obtain b where
    b: "readFd (env_readv env) (conn_fd c) e ?in w = Inr (int (length d), e, b, w1)" "buffer_inv b"
      "content b = content ?in @ d" "room ?in - length d \<le> room b" by blast
  from del [OF b(2-4)] obtain s1 where 1: "deliver env (c\<lparr>input_buffer := b\<rparr>, w1) = Inr s1" "I ds s1" by blast
  have "handleRead_loop env e s = handleRead_loop env e s1"
    by (subst handleRead_loop.simps) (use b(1) 1(1) d(1) in \<open>simp add: Let_def s\<close>)
  with Cons.IH [OF 1(2)] show ?case by simp
qed

lemma handleRead_loop_ok:
  assumes env: "input_env env incoming got" and con: "consumer env incoming got c0"
    and "same_input c0 c" and "buffer_inv (input_buffer c)" and "incoming w (conn_fd c) = ds"
    and "\<forall>d\<in>set ds. d \<noteq> [] \<and> length d \<le> 65536" and "length (concat ds) \<le> room (input_buffer c)"
  shows "\<exists>c' w'. handleRead_loop env e (c, w) = Some (Inr (c', w')) \<and> incoming w' (conn_fd c) = [] \<and>
      got w' @ content (input_buffer c') = got w @ content (input_buffer c) @ concat ds"
proof -
  define total where "total = got w @ content (input_buffer c) @ concat ds"
  let ?I = "\<lambda>ds (c', w'). same_input c0 c' \<and> buffer_inv (input_buffer c') \<and> incoming w' (conn_fd c0) = ds \<and>
    (\<forall>d\<in>set ds. d \<noteq> [] \<and> length d \<le> 65536) \<and> length (concat ds) \<le> room (input_buffer c') \<and>
    got w' @ content (input_buffer c') @ concat ds = total"
  let ?J = "\<lambda>(c', w'). incoming w' (conn_fd c0) = [] \<and> got w' @ content (input_buffer c') = total"
  have fd: "conn_fd c = conn_fd c0" using assms(3) by (simp add: same_input_def)
  have "\<exists>s'. handleRead_loop env e (c, w) = Some (Inr s') \<and> ?J s'"
  proof (rule handleRead_loop_inv [where I = ?I])
    fix c' w' assume a: "?I [] (c', w')"
    then have "conn_fd c' = conn_fd c0" by (simp add: same_input_def)
    with a input_env_next [OF env, where w = w' and f = "conn_fd c0" and lens = "iov_lengths (input_buffer c')"]
    show "\<exists>w1. env_readv env (conn_fd c') (iov_lengths (input_buffer c')) w' = (Inl EAGAIN, w1) \<and> ?J (c', w1)"
      by auto
  next
    fix d ds' c' w' assume a: "?I (d # ds') (c', w')"
    then have in': "same_input c0 c'" "incoming w' (conn_fd c0) = d # ds'"
      "length (concat (d # ds')) \<le> room (input_buffer c')"
      "(got w' @ content (input_buffer c')) @ d @ concat ds' = total"
      "\<forall>d\<in>set ds'. d \<noteq> [] \<and> length d \<le> 65536" by simp_all
    then have fd': "conn_fd c' = conn_fd c0" by (simp add: same_input_def)
    from in'(2) input_env_next [OF env, where w = w' and f = "conn_fd c0" and lens = "iov_lengths (input_buffer c')"] fd' obtain w1 where
      r: "env_readv env (conn_fd c') (iov_lengths (input_buffer c')) w' = (Inr d, w1)"
        "incoming w1 (conn_fd c0) = ds'" "got w1 = got w'" by auto
    have "\<exists>s'. deliver env (c'\<lparr>input_buffer := b\<rparr>, w1) = Inr s' \<and> ?I ds' s'"
      if b: "buffer_inv b" "content b = content (input_buffer c') @ d"
        "room (input_buffer c') - length d \<le> room b" for b
    proof -
      have "same_input c0 (c'\<lparr>input_buffer := b\<rparr>)" using in'(1) by (simp add: same_input_def)
      with con b(1) obtain c2 w2 where
        2: "deliver env (c'\<lparr>input_buffer := b\<rparr>, w1) = Inr (c2, w2)" "same_input c0 c2" "buffer_inv (input_buffer c2)"
        "got w2 @ content (input_buffer c2) = got w1 @ content b" "room b \<le> room (input_buffer c2)"
        "incoming w2 (conn_fd c') = incoming w1 (conn_fd c')"
        unfolding consumer_def by fastforce
      have "(got w2 @ content (input_buffer c2)) @ concat ds' = total"
        using 2(4) b(2) r(3) in'(4) by simp
      moreover have "length (concat ds') \<le> room (input_buffer c2)" using 2(5) b(3) in'(3) by simp
      ultimately show ?thesis using 2(1-3,6) r(2) fd' in'(5) by (intro exI [of _ "(c2, w2)"]) simp
    qed
    then show "buffer_inv (input_buffer c') \<and> d \<noteq> [] \<and> length d \<le> 65536 \<and> length d \<le> room (input_buffer c') \<and>
      (\<exists>w1. env_readv env (conn_fd c') (iov_lengths (input_buffer c')) w' = (Inr d, w1) \<and>
        (\<forall>b. buffer_inv b \<longrightarrow> content b = content (input_buffer c') @ d \<longrightarrow>
          room (input_buffer c') - length d \<le> room b \<longrightarrow>
          (\<exists>s'. deliver env (c'\<lparr>input_buffer := b\<rparr>, w1) = Inr s' \<and> ?I ds' s')))"
      using a r(1) by auto
  qed (use assms fd in \<open>simp add: total_def\<close>)
  with fd show ?thesis by (auto simp: total_def)
qed

subsection \<open>Properties of the input path\<close>


text \<open>A kernel with a queue of chunks, and a message callback that takes whatever has arrived.\<close>

definition take_all :: "(nat, nat) tcp \<times> (bytes list \<times> bytes)
    \<Rightarrow> ((nat, nat) tcp \<times> (bytes list \<times> bytes)) res" where
  "take_all = (\<lambda>(c, q, g). bind_res (retrieveAllAsString (input_buffer c)) (\<lambda>(str, b).
     Inr (c\<lparr>input_buffer := b\<rparr>, q, g @ str)))"

definition queue_env :: "(nat, nat, bytes list \<times> bytes) tcp_env" where
  "queue_env = \<lparr>env_write = (\<lambda>f data w. (of_nat (length data), 0, w)),
     env_readv = (\<lambda>f lens (q, g). case q of [] \<Rightarrow> (Inl EAGAIN, q, g) | d # ds \<Rightarrow> (Inr d, ds, g)),
     env_so_error = (\<lambda>f w. (0, 0, w)), env_close = (\<lambda>f w. w),
     env_epoll = (\<lambda>op f ev w. (None, w)), env_looping = (\<lambda>w. True),
     env_in_loop = (\<lambda>w. True), env_calling = (\<lambda>w. False), env_post = (\<lambda>t w. w),
     env_call = (\<lambda>cb. take_all), env_on_message = (\<lambda>h. take_all),
     env_on_connection = (\<lambda>h s. Inr s), env_on_close = (\<lambda>h s. Inr s)\<rparr>"

lemma queue_env_ok: "input_env queue_env (\<lambda>w f. fst w) snd"
  by (auto simp: input_env_def queue_env_def split: list.splits)

lemma take_all_ok:
  assumes "buffer_inv (input_buffer c)"
  shows "\<exists>b. take_all (c, q, g) = Inr (c\<lparr>input_buffer := b\<rparr>, q, g @ content (input_buffer c)) \<and>
    buffer_inv b \<and> content b = [] \<and> room (input_buffer c) \<le> room b"
proof -
  let ?b = "retrieve (readableBytes (input_buffer c)) (input_buffer c)"
  from retrieveAllAsString_props [OF assms] obtain b where
    b: "retrieveAllAsString (input_buffer c) = Inr (content (input_buffer c), b)" "buffer_inv b"
      "content b = []" by blast
  then have "b = ?b" by (auto simp: retrieveAllAsString_def retrieveAsString_def res_simps)
  with b retrieve_room [OF assms] show ?thesis by (auto simp: take_all_def)
qed

lemma queue_env_consumer:
  "message_callback c0 = Some cb \<Longrightarrow> consumer queue_env (\<lambda>w f. fst w) snd c0"
proof (unfold consumer_def, intro allI impI)
  fix c :: "(nat, nat) tcp" and w :: "bytes list \<times> bytes"
  assume "message_callback c0 = Some cb" and s: "same_input c0 c" and b: "buffer_inv (input_buffer c)"
  obtain q g where w: "w = (q, g)" by (cases w)
  have "deliver queue_env (c, w) = take_all (c, q, g)"
    using \<open>message_callback c0 = Some cb\<close> s w
    by (auto simp: deliver_def queue_env_def call_opt_def same_input_def split: option.split)
  with take_all_ok [OF b, of q g] s w show "\<exists>c' w'. deliver queue_env (c, w) = Inr (c', w') \<and>
      same_input c0 c' \<and> buffer_inv (input_buffer c') \<and>
      snd w' @ content (input_buffer c') = snd w @ content (input_buffer c) \<and>
      room (input_buffer c) \<le> room (input_buffer c') \<and>
      fst w' = fst w"
    by (auto simp: same_input_def)
qed


subsection \<open>Reading on and off\<close>

text \<open>Switching reading on and off never faults in the loop thread, and touches only the channel.\<close>

lemma startRead_frame:
  assumes "env_in_loop env (snd s)" and "\<not> env_calling env (snd s)"
  shows "startRead env s = (if active (fst s) \<and> \<not> isReading (conn_channel (fst s))
      then Inr ((fst s)\<lparr>conn_channel := (conn_channel (fst s))\<lparr>ch_events := ch_events (conn_channel (fst s)) OR EPOLLIN\<rparr>\<rparr>,
        updateChannel (env_epoll env) ((conn_channel (fst s))\<lparr>ch_events := ch_events (conn_channel (fst s)) OR EPOLLIN\<rparr>) (snd s))
      else Inr s)"
    and "stopRead env s = (if active (fst s) \<and> isReading (conn_channel (fst s))
      then Inr ((fst s)\<lparr>conn_channel := (conn_channel (fst s))\<lparr>ch_events := ch_events (conn_channel (fst s)) AND NOT EPOLLIN\<rparr>\<rparr>,
        updateChannel (env_epoll env) ((conn_channel (fst s))\<lparr>ch_events := ch_events (conn_channel (fst s)) AND NOT EPOLLIN\<rparr>) (snd s))
      else Inr s)"
  using assms
  by (cases s; simp add: startRead_def stopRead_def conn_runInLoop_def startRead_body_def stopRead_body_def
      on_channel_def enableReading_def disableReading_def set_events_def Let_def)+

subsection \<open>The life cycle\<close>

text \<open>
  Callbacks that leave this connection as it is, and count: \<open>closes w\<close> is how often the close
  callback has been called. The system calls and epoll do not count.
\<close>

definition life_env :: "('cb, 'h, 'w) tcp_env \<Rightarrow> ('w \<Rightarrow> nat) \<Rightarrow> 'cb \<Rightarrow> bool" where
  "life_env env closes cb \<longleftrightarrow> (\<forall>w. env_in_loop env w) \<and>
     (\<forall>c w. \<exists>w'. env_call env cb (c, w) = Inr (c, w') \<and> closes w' = closes w + 1) \<and>
     (\<forall>h c w. \<exists>w'. env_on_close env h (c, w) = Inr (c, w') \<and> closes w' = closes w) \<and>
     (\<forall>f lens w. closes (snd (env_readv env f lens w)) = closes w) \<and>
     (\<forall>op f ev w. closes (snd (env_epoll env op f ev w)) = closes w)"

lemma life_in_loop: "life_env env closes cb \<Longrightarrow> in_loop env body s = body s"
  by (simp add: life_env_def in_loop_def)

lemma life_calls:
  assumes "life_env env closes cb"
  shows "\<exists>w'. env_call env cb (c, w) = Inr (c, w') \<and> closes w' = closes w + 1"
    and "\<exists>w'. call_opt (env_on_close env) h (c, w) = Inr (c, w') \<and> closes w' = closes w"
    and "closes (snd (env_readv env f lens w)) = closes w" and "env_in_loop env w"
proof -
  show "\<exists>w'. call_opt (env_on_close env) h (c, w) = Inr (c, w') \<and> closes w' = closes w"
    using assms unfolding life_env_def call_opt_def by (cases h) (simp, metis option.simps(5))
qed (use assms in \<open>unfold life_env_def, blast+\<close>)

lemma life_update:
  assumes "life_env env closes cb"
  shows "closes (updateChannel (env_epoll env) ch w) = closes w"
proof -
  have e: "closes (snd (env_epoll env op f ev w)) = closes w" for op f ev w
    using assms by (simp add: life_env_def)
  obtain r k1 where r: "env_epoll env CTL_ADD (ch_fd ch) (ch_events ch) w = (r, k1)"
    by (cases "env_epoll env CTL_ADD (ch_fd ch) (ch_events ch) w")
  then have "closes k1 = closes w" using e [of CTL_ADD "ch_fd ch" "ch_events ch" w] by simp
  with r show ?thesis by (cases r) (simp_all add: updateChannel_def e)
qed

lemma life_remove:
  assumes "life_env env closes cb" and "isNoneEvent (conn_channel c)"
  shows "\<exists>ch w'. conn_channel_remove env (c, w) = Inr (c\<lparr>conn_channel := ch\<rparr>, w') \<and>
    ch_events ch = 0 \<and> closes w' = closes w"
proof -
  have "closes (snd (env_epoll env op f ev w)) = closes w" for op f ev w
    using assms(1) by (simp add: life_env_def)
  moreover have "env_in_loop env w" using assms(1) by (simp add: life_env_def)
  ultimately show ?thesis using assms(2)
    by (auto simp: conn_channel_remove_def channel_remove_def removeChannel_def isNoneEvent_def Let_def)
qed

text \<open>Closing a live connection, and closing one that is closed already.\<close>

lemma handleClose_live:
  assumes env: "life_env env closes cb" and cb: "conn_close_callback c = Some cb"
    and st: "tcp_state c = kConnected \<or> tcp_state c = kDisConnecting"
  shows "\<exists>ch w'. handleClose env (c, w) =
      Inr (c\<lparr>tcp_state := kDisConnected, conn_channel := ch\<rparr>, w') \<and> ch_events ch = 0 \<and>
    closes w' = closes w + 1"
proof -
  let ?c = "c\<lparr>tcp_state := kDisConnected\<rparr>"
  obtain ch1 w1 where 1: "on_channel env disableAll (set_state kDisConnected (c, w)) =
      (?c\<lparr>conn_channel := ch1\<rparr>, w1)" "ch_events ch1 = 0" "closes w1 = closes w"
    by (auto simp: on_channel_def disableAll_def set_events_def Let_def set_state_def
        life_update [OF env])
  let ?c1 = "?c\<lparr>conn_channel := ch1\<rparr>"
  obtain w2 where 2: "call_opt (env_on_close env) (handler ?c1) (?c1, w1) = Inr (?c1, w2)"
    "closes w2 = closes w"
    using life_calls(2) [OF env, of "handler ?c1" ?c1 w1] 1(3) by auto
  have "isNoneEvent (conn_channel ?c1)" using 1(2) by (simp add: isNoneEvent_def)
  from life_remove [OF env this, of w2] obtain ch3 w3 where
    3: "conn_channel_remove env (?c1, w2) = Inr (?c1\<lparr>conn_channel := ch3\<rparr>, w3)" "ch_events ch3 = 0"
      "closes w3 = closes w2" by blast
  obtain w4 where 4: "env_call env cb (?c1\<lparr>conn_channel := ch3\<rparr>, w3) = Inr (?c1\<lparr>conn_channel := ch3\<rparr>, w4)"
    "closes w4 = closes w3 + 1" using life_calls(1) [OF env] by blast
  have "handleClose env (c, w) = Inr (?c1\<lparr>conn_channel := ch3\<rparr>, w4)"
    using st 1(1) 2(1) 3(1) 4(1) cb
    unfolding handleClose_def connectDestroyed_def life_in_loop [OF env]
    by (auto simp: Let_def call_opt_def)
  then show ?thesis using 2(2) 3(2,3) 4(2) by auto
qed

lemma handleClose_dead:
  assumes env: "life_env env closes cb" and cb: "conn_close_callback c = Some cb"
    and st: "tcp_state c = kDisConnected" and ev: "ch_events (conn_channel c) = 0"
  shows "\<exists>ch w'. handleClose env (c, w) = Inr (c\<lparr>conn_channel := ch\<rparr>, w') \<and> ch_events ch = 0 \<and>
    closes w' = closes w + 1"
proof -
  have "isNoneEvent (conn_channel c)" using ev by (simp add: isNoneEvent_def)
  from life_remove [OF env this, of w] obtain ch w1 where
    1: "conn_channel_remove env (c, w) = Inr (c\<lparr>conn_channel := ch\<rparr>, w1)" "ch_events ch = 0"
      "closes w1 = closes w" by blast
  obtain w2 where 2: "env_call env cb (c\<lparr>conn_channel := ch\<rparr>, w1) = Inr (c\<lparr>conn_channel := ch\<rparr>, w2)"
    "closes w2 = closes w1 + 1" using life_calls(1) [OF env] by blast
  have "handleClose env (c, w) = Inr (c\<lparr>conn_channel := ch\<rparr>, w2)"
    using st 1(1) 2(1) cb unfolding handleClose_def connectDestroyed_def life_in_loop [OF env]
    by (simp add: call_opt_def)
  with 1 2 show ?thesis by auto
qed

text \<open>
  One event can close a connection twice: epoll reports an error and readability together when a
  peer resets, \<open>handleEvent\<close> then runs the error callback, which closes, and goes on to the read
  callback, which finds the end of the stream and closes again, so the close callback runs twice.
\<close>

lemma error_event_double_close:
  assumes env: "life_env env closes cb" and cb: "conn_close_callback c = Some cb"
    and st: "tcp_state c = kConnected" and inv: "buffer_inv (input_buffer c)"
    and set_up: "error_callback (conn_channel c) = Some OnError" "read_callback (conn_channel c) = Some OnRead"
    and eof: "\<And>f lens w. fst (env_readv env f lens w) = Inr []"
  shows "\<exists>c' w'. conn_event env (EPOLLERR OR EPOLLIN) (c, w) = Some (Inr (c', w')) \<and>
    closes w' = closes w + 2"
proof -
  let ?ch = "setRevents (EPOLLERR OR EPOLLIN) (conn_channel c)"
  let ?c = "c\<lparr>conn_channel := ?ch\<rparr>"
  have sel: "selected_callbacks ?ch = [OnError, OnRead]"
    using set_up by (simp add: selected_callbacks_def select_if_def setRevents_def epoll_masks split: option.split)
  from handleClose_live [OF env, of ?c w] cb st obtain ch1 w1 where
    1: "handleClose env (?c, w) = Inr (?c\<lparr>tcp_state := kDisConnected, conn_channel := ch1\<rparr>, w1)"
      "ch_events ch1 = 0" "closes w1 = closes w + 1" by auto
  let ?c1 = "?c\<lparr>tcp_state := kDisConnected, conn_channel := ch1\<rparr>"
  obtain w2 where r: "env_readv env (conn_fd c) (iov_lengths (input_buffer c)) w1 = (Inr [], w2)"
    using eof by (metis prod.collapse)
  then have cl2: "closes w2 = closes w1" using life_calls(3) [OF env] by (metis snd_conv)
  from readFd_ok [where readv = "env_readv env", OF _ r, of 0] inv obtain b where
    b: "readFd (env_readv env) (conn_fd c) 0 (input_buffer c) w1 = Inr (0, 0, b, w2)" by auto
  let ?c2 = "?c1\<lparr>input_buffer := b\<rparr>"
  have "handleRead env (?c1, w1) = Some (handleClose env (?c2, w2))"
    unfolding handleRead_def using life_calls(4) [OF env]
    by (subst handleRead_loop.simps) (simp add: b Let_def)
  moreover from handleClose_dead [OF env, of ?c2 w2] cb 1(2) obtain ch3 w3 where
    "handleClose env (?c2, w2) = Inr (?c2\<lparr>conn_channel := ch3\<rparr>, w3)" "closes w3 = closes w2 + 1" by auto
  ultimately have "conn_event env (EPOLLERR OR EPOLLIN) (c, w) =
      Some (Inr (?c2\<lparr>conn_channel := ch3\<rparr>, w3))" "closes w3 = closes w + 2"
    using 1(1,3) cl2 by (simp_all add: conn_event_def Let_def sel handleError_def life_in_loop [OF env])
  then show ?thesis by blast
qed

subsection \<open>Properties of the life cycle\<close>


text \<open>A world that counts calls of the close callback.\<close>

definition count_env :: "(nat, nat, nat) tcp_env" where
  "count_env = \<lparr>env_write = (\<lambda>f data w. (of_nat (length data), 0, w)),
     env_readv = (\<lambda>f lens w. (Inr [], w)), env_so_error = (\<lambda>f w. (0, 111, w)),
     env_close = (\<lambda>f w. w), env_epoll = (\<lambda>op f ev w. (None, w)), env_looping = (\<lambda>w. True),
     env_in_loop = (\<lambda>w. True), env_calling = (\<lambda>w. False), env_post = (\<lambda>t w. w),
     env_call = (\<lambda>cb (c, w). Inr (c, w + 1)), env_on_message = (\<lambda>h s. Inr s),
     env_on_connection = (\<lambda>h s. Inr s), env_on_close = (\<lambda>h s. Inr s)\<rparr>"

lemma count_env_ok: "life_env count_env (\<lambda>w. w) cb"
  by (simp add: life_env_def count_env_def)


definition live_conn :: "(nat, nat) tcp" where
  "live_conn = sample_conn\<lparr>conn_channel := setErrorCallback OnError (setReadCallback OnRead (new_Channel 7))\<rparr>"

text \<open>A pending connection that has succeeded: what \<open>handleWrite\<close> does.\<close>

lemma connected_switch:
  assumes "env_in_loop env w" and "tcp_state c = kConnecting" and "env_so_error env (conn_fd c) w = (0, 0, w1)"
  shows "\<exists>ch (ch' :: channel_cb channel) w2. handleWrite env (c, w) =
      call_opt (env_call env) (connection_callback c) (c\<lparr>tcp_state := kConnected, conn_channel := ch\<rparr>, w2) \<and>
    isReading ch \<and> \<not> isWriting ch \<and>
    w2 = updateChannel (env_epoll env) ch (updateChannel (env_epoll env) ch' w1)"
proof -
  let ?c = "c\<lparr>tcp_state := kConnected\<rparr>"
  define ch' where "ch' = (conn_channel c)\<lparr>ch_events := ch_events (conn_channel c) AND NOT EPOLLOUT\<rparr>"
  define ch where "ch = ch'\<lparr>ch_events := ch_events ch' OR EPOLLIN\<rparr>"
  define w2 where "w2 = updateChannel (env_epoll env) ch (updateChannel (env_epoll env) ch' w1)"
  have on: "on_channel env enableReading (on_channel env disableWriting
      (set_state kConnected (c, w1))) = (?c\<lparr>conn_channel := ch\<rparr>, w2)"
    "ch_events ch = (ch_events (conn_channel c) AND NOT EPOLLOUT) OR EPOLLIN"
    by (simp_all add: on_channel_def enableReading_def disableWriting_def set_events_def Let_def set_state_def
        ch_def ch'_def w2_def)
  have "isReading ch \<and> \<not> isWriting ch"
    by (simp add: mask_bits on(2) bit_or_iff bit_and_iff bit_not_iff bit_masks)
  moreover have "handleWrite env (c, w) =
      call_opt (env_call env) (connection_callback c) (?c\<lparr>conn_channel := ch\<rparr>, w2)"
    using assms on(1) by (simp add: handleWrite_def in_loop_def)
  ultimately show ?thesis using w2_def by blast
qed

text \<open>
  A backend connection that succeeds switches over: when the socket becomes writable without an
  error, the connection is connected, reads and no longer waits to write, and only then is the
  connection callback called, once.
\<close>

theorem backend_connect_succeeds:
  assumes "\<forall>w. env_in_loop env w" and "tcp_state c = kConnecting"
    and "env_so_error env (conn_fd c) w = (0, 0, w1)"
  shows "\<exists>ch w2. handleWrite env (c, w) =
      call_opt (env_call env) (connection_callback c) (c\<lparr>tcp_state := kConnected, conn_channel := ch\<rparr>, w2) \<and>
    isReading ch \<and> \<not> isWriting ch"
  using connected_switch [of env w c w1] assms by blast

text \<open>
  A backend connection that fails takes the process down: \<open>handleClose\<close> reaches
  \<open>connectDestroyed\<close> while the state is still connecting, which skips \<open>disableAll\<close>, and the assertion
  of \<open>Channel::remove\<close> then finds the channel still waiting to write.
\<close>

theorem backend_connect_failure_aborts:
  assumes "\<forall>w. env_in_loop env w" and "tcp_state c = kConnecting" and "isWriting (conn_channel c)"
    and "env_so_error env (conn_fd c) w = (0, err, w1)" and "err \<noteq> 0"
  shows "handleWrite env (c, w) = Inl AssertFail"
proof -
  have "ch_events (conn_channel c) \<noteq> 0" using assms(3) by (auto simp: isWriting_def)
  then have "conn_channel_remove env (c, w1) = Inl AssertFail"
    by (simp add: conn_channel_remove_def channel_remove_def isNoneEvent_def)
  with assms(1,2,4,5) show ?thesis
    by (simp add: handleWrite_def in_loop_def handleClose_def connectDestroyed_def)
qed

text \<open>Both on a connection as \<open>createBackendConnection\<close> makes it.\<close>

definition dialling_conn :: "(nat, nat) tcp" where
  "dialling_conn = sample_conn\<lparr>tcp_state := kConnecting,
     conn_channel := (new_Channel 7)\<lparr>ch_events := EPOLLOUT\<rparr>\<rparr>"

theorem backend_connect_succeeds_witness:
  "\<exists>ch. handleWrite slow_env (dialling_conn, \<lambda>_. []) =
      Inr (dialling_conn\<lparr>tcp_state := kConnected, conn_channel := ch\<rparr>, \<lambda>_. []) \<and> isReading ch \<and> \<not> isWriting ch"
proof -
  have "\<forall>w. env_in_loop slow_env w" "tcp_state dialling_conn = kConnecting"
    "env_so_error slow_env (conn_fd dialling_conn) (\<lambda>_. []) = (0, 0, \<lambda>_. [])"
    "connection_callback dialling_conn = None"
    by (simp_all add: slow_env_def dialling_conn_def sample_conn_def)
  note facts = this
  from backend_connect_succeeds [OF facts(1-3)] obtain ch w2 where
    h: "handleWrite slow_env (dialling_conn, \<lambda>_. []) =
      Inr (dialling_conn\<lparr>tcp_state := kConnected, conn_channel := ch\<rparr>, w2)" "isReading ch" "\<not> isWriting ch"
    using facts(4) by (auto simp: call_opt_def)
  then have "w2 = (\<lambda>_. [])"
    using facts by (auto simp: handleWrite_def in_loop_def on_channel_def enableReading_def
        disableWriting_def set_events_def Let_def set_state_def call_opt_def updateChannel_def slow_env_def
        dialling_conn_def sample_conn_def)
  with h show ?thesis by blast
qed

theorem backend_connect_failure_aborts_witness:
  "handleWrite count_env (dialling_conn, 0) = Inl AssertFail"
  by (rule backend_connect_failure_aborts [where err = 111 and ?w1.0 = 0])
    (simp_all add: count_env_def dialling_conn_def sample_conn_def isWriting_def epoll_masks)

text \<open>
  \<open>shutdown\<close> does not shut anything down: it only marks the connection as disconnecting. No system
  call is made, reading goes on, later messages are dropped without a trace for the caller, and a
  connection released in this state aborts in its destructor.
\<close>

theorem shutdown_does_not_close:
  assumes "env_in_loop env w" and "tcp_state c = kConnected"
  shows "shutdown env (c, w) = Inr (c\<lparr>tcp_state := kDisConnecting\<rparr>, w) \<and>
    send env message (c\<lparr>tcp_state := kDisConnecting\<rparr>, w) = Inr (c\<lparr>tcp_state := kDisConnecting\<rparr>, w) \<and>
    conn_channel (c\<lparr>tcp_state := kDisConnecting\<rparr>) = conn_channel c \<and>
    tcp_destroy env (c\<lparr>tcp_state := kDisConnecting\<rparr>) w = Inl AssertFail"
  using assms by (simp add: shutdown_def shutdownInLoop_def send_def sendInLoop_def in_loop_def
      set_state_def tcp_destroy_def)

theorem shutdown_does_not_close_witness:
  "shutdown slow_env (sample_conn, \<lambda>_. []) = Inr (sample_conn\<lparr>tcp_state := kDisConnecting\<rparr>, \<lambda>_. []) \<and>
    tcp_destroy slow_env (sample_conn\<lparr>tcp_state := kDisConnecting\<rparr>) (\<lambda>_. []) = Inl AssertFail"
proof -
  have "env_in_loop slow_env (\<lambda>_. [])" "tcp_state sample_conn = kConnected"
    by (simp_all add: slow_env_def sample_conn_def)
  from shutdown_does_not_close [OF this] show ?thesis by blast
qed

end
