(* ===== verification/Server.thy ===== *)
theory Server
  imports ThreadPool Acceptor TcpLife
begin

text \<open>
  The TCP server (src/net/server.h, src/net/server.cpp): it starts the pool and the acceptor, gives
  each new connection to the next worker, keeps the connections in a map by name, and erases them
  when they report that they are closed. Functors posted to loops are the list \<open>sv_posted\<close>; running
  one is \<open>server_run_task\<close>. The base loop is the handle \<open>sv_loop\<close>.
\<close>

subsection \<open>State and operations\<close>

datatype server_task = Establish string fd inet_address | Erase string

record ('l, 'cb, 'h) server =
  sv_loop :: 'l
  sv_hostport :: string
  sv_pool :: "'l thread_pool"
  sv_acceptor :: acceptor
  sv_started :: bool
  sv_connections :: "string \<Rightarrow> ('cb, 'h) tcp option"
  sv_handlerFactory :: "(string \<Rightarrow> 'h) option"
  sv_connectionCallback :: "'cb option"
  sv_messageCallback :: "'cb option"
  sv_writeCompleteCallback :: "'cb option"
  sv_closeCallback :: "'cb option"
  sv_removeCallback :: 'cb
  sv_posted :: "('l \<times> server_task) list"

definition new_Server :: "'w accept_env \<Rightarrow> 'l \<Rightarrow> 'cb \<Rightarrow> inet_address \<Rightarrow> 'w
    \<Rightarrow> (('l, 'cb, 'h) server \<times> 'w) res" where
  "new_Server env loop removeCb addr w =
     (case new_Acceptor env addr w of (a, w1) \<Rightarrow>
      bind_res (new_threadPool loop 4) (\<lambda>p.
      Inr (\<lparr>sv_loop = loop, sv_hostport = toIpPort addr, sv_pool = p, sv_acceptor = setNewConnectCallback a, sv_started = False,
            sv_connections = (\<lambda>_. None), sv_handlerFactory = None, sv_connectionCallback = None,
            sv_messageCallback = None, sv_writeCompleteCallback = None,
            sv_closeCallback = None, sv_removeCallback = removeCb,
            sv_posted = []\<rparr>, w1)))"

definition server_start :: "'w accept_env \<Rightarrow> (nat \<Rightarrow> 'l) \<Rightarrow> ('l, 'cb, 'h) server \<times> 'w
    \<Rightarrow> ('l, 'cb, 'h) server \<times> 'w" where
  "server_start env startLoop = (\<lambda>(sv, w).
     if \<not> sv_started sv then
       (case acceptor_listen env (sv_acceptor sv) w of (a, w1) \<Rightarrow>
          (sv\<lparr>sv_started := True, sv_pool := threadPool_start startLoop (sv_pool sv), sv_acceptor := a\<rparr>, w1))
     else (sv, w))"

definition conn_name_of :: "fd \<Rightarrow> string" where
  "conn_name_of sockfd = ''conn_'' @ show_int sockfd"

definition newConnection :: "fd \<Rightarrow> inet_address \<Rightarrow> ('l, 'cb, 'h) server \<Rightarrow> ('l, 'cb, 'h) server res" where
  "newConnection sockfd peerAddr sv =
     bind_res (getNextLoop (sv_pool sv)) (\<lambda>(workerLoop, p).
     Inr (sv\<lparr>sv_pool := p,
             sv_posted := sv_posted sv @ [(workerLoop, Establish (conn_name_of sockfd) sockfd peerAddr)]\<rparr>))"

text \<open>Storing under a name that is taken releases the connection stored there.\<close>

definition release_old :: "('cb, 'h, 'w) tcp_env \<Rightarrow> ('cb, 'h) tcp option \<Rightarrow> 'w \<Rightarrow> 'w res" where
  "release_old env old w = (case old of None \<Rightarrow> Inr w | Some c \<Rightarrow> tcp_destroy env c w)"

definition server_establish :: "('cb, 'h, 'w) tcp_env \<Rightarrow> string \<Rightarrow> fd \<Rightarrow> inet_address
    \<Rightarrow> ('l, 'cb, 'h) server \<times> 'w \<Rightarrow> (('l, 'cb, 'h) server \<times> 'w) res" where
  "server_establish env connName sockfd peerAddr = (\<lambda>(sv, w).
     bind_res (new_TcpConnection connName sockfd peerAddr) (\<lambda>c0.
     (let c1 = (case sv_handlerFactory sv of None \<Rightarrow> c0 | Some mk \<Rightarrow> setHandler (mk connName) c0);
          c2 = c1\<lparr>connection_callback := sv_connectionCallback sv, message_callback := sv_messageCallback sv,
                  write_complete_callback := sv_writeCompleteCallback sv,
                  conn_close_callback := Some (sv_removeCallback sv)\<rparr>
      in bind_res (release_old env (sv_connections sv connName) w) (\<lambda>w1.
         bind_res (connectEstablished env (c2, w1)) (\<lambda>(c3, w2).
         Inr (sv\<lparr>sv_connections := (sv_connections sv)(connName \<mapsto> c3)\<rparr>, w2))))))"

text \<open>\<open>removeConnection\<close> runs in the connection's loop and posts the erasure to the base loop.\<close>

definition removeConnection :: "string \<Rightarrow> ('l, 'cb, 'h) server \<Rightarrow> ('l, 'cb, 'h) server" where
  "removeConnection connName sv = sv\<lparr>sv_posted := sv_posted sv @ [(sv_loop sv, Erase connName)]\<rparr>"

definition server_erase :: "('cb, 'h, 'w) tcp_env \<Rightarrow> string \<Rightarrow> ('l, 'cb, 'h) server \<times> 'w
    \<Rightarrow> (('l, 'cb, 'h) server \<times> 'w) res" where
  "server_erase env connName = (\<lambda>(sv, w).
     bind_res (release_old env (sv_connections sv connName) w) (\<lambda>w1.
     bind_res (cassert (sv_connections sv connName \<noteq> None)) (\<lambda>_.
     Inr (sv\<lparr>sv_connections := (sv_connections sv)(connName := None)\<rparr>, w1))))"

fun server_run_task :: "('cb, 'h, 'w) tcp_env \<Rightarrow> server_task \<Rightarrow> ('l, 'cb, 'h) server \<times> 'w
    \<Rightarrow> (('l, 'cb, 'h) server \<times> 'w) res" where
  "server_run_task env (Establish connName sockfd peerAddr) s = server_establish env connName sockfd peerAddr s"
| "server_run_task env (Erase connName) s = server_erase env connName s"

text \<open>\<open>std::map\<close> is traversed in the order of the names.\<close>

definition findConnectionByFd :: "string list \<Rightarrow> fd \<Rightarrow> ('l, 'cb, 'h) server \<Rightarrow> ('cb, 'h) tcp option" where
  "findConnectionByFd names f sv =
     List.find (\<lambda>c. conn_fd c = f) (List.map_filter (sv_connections sv) names)"

subsection \<open>Properties\<close>

lemma new_TcpConnection_ok:
  "\<exists>c. new_TcpConnection name f pa = Inr c \<and> conn_fd c = f \<and> tcp_state c = kConnecting \<and>
    handler c = None \<and> ch_fd (conn_channel c) = f \<and> buffer_inv (input_buffer c) \<and>
    buffer_inv (output_buffer c) \<and> content (input_buffer c) = [] \<and> content (output_buffer c) = [] \<and>
    error_callback (conn_channel c) = Some OnError \<and> read_callback (conn_channel c) = Some OnRead \<and>
    \<not> isWriting (conn_channel c) \<and> connection_callback c = None \<and> high_water_mark_callback c = None \<and>
    room (input_buffer c) = vector_max_size - 8 \<and> room (output_buffer c) = vector_max_size - 8"
proof -
  have "unat initialSize_default + 8 \<le> vector_max_size"
    by (simp add: initialSize_default_def vector_max_size_def)
  from new_buffer_props [OF this] obtain b where
    "new_buffer initialSize_default = Inr b" "buffer_inv b" "content b = []" "room b = vector_max_size - 8" by blast
  then show ?thesis
    by (simp add: new_TcpConnection_def Let_def new_Channel_def setErrorCallback_def
        setCloseCallback_def setWriteCallback_def setReadCallback_def isWriting_def)
qed


definition sample_server :: "(nat, nat, nat) server" where
  "sample_server = \<lparr>sv_loop = 0, sv_hostport = toIpPort (peer 0), sv_pool = started_pool (\<lambda>i. i + 1) 0 4, sv_acceptor = sample_acceptor,
     sv_started = True, sv_connections = (\<lambda>_. None), sv_handlerFactory = None,
     sv_connectionCallback = None, sv_messageCallback = Some 5, sv_writeCompleteCallback = None,
     sv_closeCallback = None, sv_removeCallback = 2, sv_posted = []\<rparr>"


text \<open>
  C39. A connection reset brings the server down: an event that reports an error together with
  readability makes the connection report its close twice, so two erasures are posted for one name,
  and the second one fails the assertion that exactly one connection was erased.
\<close>

theorem reset_event_aborts_server:
  assumes env: "life_env env closes cb" and cb: "conn_close_callback c = Some cb"
    and st: "tcp_state c = kConnected" and inv: "buffer_inv (input_buffer c)"
    and set_up: "error_callback (conn_channel c) = Some OnError" "read_callback (conn_channel c) = Some OnRead"
    and eof: "\<And>f lens w. fst (env_readv env f lens w) = Inr []"
  shows "\<exists>c' w'. conn_event env (EPOLLERR OR EPOLLIN) (c, w) = Some (Inr (c', w')) \<and>
    closes w' = closes w + 2 \<and>
    fold_res (server_run_task env) (replicate (closes w' - closes w) (Erase name))
      (sv\<lparr>sv_connections := (sv_connections sv)(name \<mapsto> c')\<rparr>, w') = Inl AssertFail"
proof -
  from error_event_double_close [OF assms] obtain c' w' where
    1: "conn_event env (EPOLLERR OR EPOLLIN) (c, w) = Some (Inr (c', w'))" "closes w' = closes w + 2" by blast
  have "fold_res (server_run_task env) [Erase name, Erase name]
      (sv\<lparr>sv_connections := (sv_connections sv)(name \<mapsto> c')\<rparr>, w') = Inl AssertFail"
    by (auto simp: server_erase_def release_old_def tcp_destroy_def cassert_def)
  with 1 show ?thesis by (simp add: numeral_2_eq_2)
qed

theorem reset_event_aborts_server_witness:
  "\<exists>c' w'. conn_event count_env (EPOLLERR OR EPOLLIN) (live_conn, 0) = Some (Inr (c', w')) \<and> w' = 2 \<and>
    fold_res (server_run_task count_env) (replicate w' (Erase ''conn_7''))
      (sample_server\<lparr>sv_connections := [''conn_7'' \<mapsto> c']\<rparr>, w') = Inl AssertFail"
proof -
  have s: "sv_connections sample_server = Map.empty" by (simp add: sample_server_def)
  have f: "conn_close_callback live_conn = Some 2" "tcp_state live_conn = kConnected"
    "buffer_inv (input_buffer live_conn)" "error_callback (conn_channel live_conn) = Some OnError"
    "read_callback (conn_channel live_conn) = Some OnRead"
    using sample_conn_ok(3) by (simp_all add: live_conn_def setErrorCallback_def setReadCallback_def
      new_Channel_def) (simp_all add: sample_conn_def)
  have e: "fst (env_readv count_env f lens w) = Inr []" for f lens w by (simp add: count_env_def)
  from reset_event_aborts_server [OF count_env_ok f e, of 0 "''conn_7''" sample_server] show ?thesis
    by (auto simp: s numeral_2_eq_2)
qed

end
