(* ===== verification/Relay.thy ===== *)
theory Relay
  imports TcpLife LoopTimers LoadBalancer
begin

text \<open>
  Two connections joined by a handler, as src/app/load_balancer_handler.cpp and
  src/app/http_proxy_handler.cpp join them: the client's connection (front) and the connection to a
  backend (back), in one loop thread. The callbacks each connection holds are closures over the other,
  so an operation on one may use the other, and that may come back to the first.

  \<open>relay\<close> holds both connections, the handler's own members, the loop's posted tasks and the kernel.
  An operation takes its connection out of the record; before a callback runs the connection is put
  back, and afterwards it is taken out again as the callback left it, so that every access sees the
  one object. A connection that is not there has been released.
\<close>

subsection \<open>State\<close>

datatype side = Front | Back

fun other :: "side \<Rightarrow> side" where
  "other Front = Back"
| "other Back = Front"

text \<open>
  The closures the handlers store, named after the connection that holds them. \<open>ServerRemove\<close> is
  the server's \<open>removeConnection\<close> (Server.thy), which the front connection reports its end to.
\<close>

datatype relay_cb = BackMessage | BackConnection | BackClose | HighWater side | WriteComplete side | ServerRemove

type_synonym relay_conn = "(relay_cb, unit) tcp"

text \<open>\<open>CreateBackend\<close> is the functor that \<open>runInLoop\<close> stores: the address and its text.\<close>

datatype relay_task = ConnTask side conn_task | CreateBackend inet_address string

record ('h, 'k) relay =
  rl_conns :: "side \<Rightarrow> relay_conn option"
  rl_app :: 'h
  rl_posted :: "relay_task list"
  rl_removed :: bool
  rl_kern :: 'k

text \<open>
  The kernel, and the state of the loop thread; \<open>net_addr\<close> is the address the allocator gives to the
  next timer.
\<close>

record 'k net_env =
  net_write :: "fd \<Rightarrow> bytes \<Rightarrow> 'k \<Rightarrow> ssize_t \<times> errno \<times> 'k"
  net_readv :: "fd \<Rightarrow> size_t list \<Rightarrow> 'k \<Rightarrow> (errno + bytes) \<times> 'k"
  net_so_error :: "fd \<Rightarrow> 'k \<Rightarrow> int \<times> errno \<times> 'k"
  net_close :: "fd \<Rightarrow> 'k \<Rightarrow> 'k"
  net_epoll :: "'k epoll_ctl"
  net_looping :: "'k \<Rightarrow> bool"
  net_in_loop :: "'k \<Rightarrow> bool"
  net_calling :: "'k \<Rightarrow> bool"
  net_socket :: "'k \<Rightarrow> fd \<times> 'k"
  net_nonblock :: "fd \<Rightarrow> 'k \<Rightarrow> 'k"
  net_connect :: "fd \<Rightarrow> inet_address \<Rightarrow> 'k \<Rightarrow> int \<times> errno \<times> 'k"
  net_addr :: "'k \<Rightarrow> nat"

type_synonym ('h, 'k) relay_op = "('h, 'k) relay \<Rightarrow> ('h, 'k) relay res"

subsection \<open>Using the two connections\<close>

definition rl_put :: "side \<Rightarrow> relay_conn \<Rightarrow> ('h, 'k) relay \<Rightarrow> ('h, 'k) relay" where
  "rl_put sd c rl = rl\<lparr>rl_conns := (rl_conns rl)(sd \<mapsto> c)\<rparr>"

definition rl_take :: "side \<Rightarrow> ('h, 'k) relay \<Rightarrow> (relay_conn \<times> ('h, 'k) relay) res" where
  "rl_take sd rl = (case rl_conns rl sd of None \<Rightarrow> Inl UseAfterFree
     | Some c \<Rightarrow> Inr (c, rl\<lparr>rl_conns := (rl_conns rl)(sd := None)\<rparr>))"

text \<open>\<open>on_conn\<close> is a method call on a connection, \<open>enter\<close> a callback called by one.\<close>

definition on_conn :: "side \<Rightarrow> (relay_cb, unit, ('h, 'k) relay) conn_op \<Rightarrow> ('h, 'k) relay_op" where
  "on_conn sd op rl = bind_res (rl_take sd rl) (\<lambda>s. bind_res (op s) (\<lambda>(c, rl'). Inr (rl_put sd c rl')))"

definition enter :: "side \<Rightarrow> ('h, 'k) relay_op \<Rightarrow> (relay_cb, unit, ('h, 'k) relay) conn_op" where
  "enter sd body = (\<lambda>(c, rl). bind_res (body (rl_put sd c rl)) (rl_take sd))"

text \<open>The environment a connection runs in, given the bodies of the callbacks and of the handler.\<close>

definition on_kern :: "('k \<Rightarrow> 'a \<times> 'k) \<Rightarrow> ('h, 'k) relay \<Rightarrow> 'a \<times> ('h, 'k) relay" where
  "on_kern f rl = (case f (rl_kern rl) of (x, k) \<Rightarrow> (x, rl\<lparr>rl_kern := k\<rparr>))"

definition on_kern3 :: "('k \<Rightarrow> 'a \<times> 'b \<times> 'k) \<Rightarrow> ('h, 'k) relay \<Rightarrow> 'a \<times> 'b \<times> ('h, 'k) relay" where
  "on_kern3 f rl = (case f (rl_kern rl) of (x, y, k) \<Rightarrow> (x, y, rl\<lparr>rl_kern := k\<rparr>))"

definition relay_env :: "'k net_env \<Rightarrow> (relay_cb \<Rightarrow> ('h, 'k) relay_op) \<Rightarrow> ('h, 'k) relay_op
    \<Rightarrow> ('h, 'k) relay_op \<Rightarrow> ('h, 'k) relay_op \<Rightarrow> side \<Rightarrow> (relay_cb, unit, ('h, 'k) relay) tcp_env" where
  "relay_env ne call on_message on_connection on_close sd = \<lparr>
     env_write = (\<lambda>f data. on_kern3 (net_write ne f data)),
     env_readv = (\<lambda>f lens. on_kern (net_readv ne f lens)),
     env_so_error = (\<lambda>f. on_kern3 (net_so_error ne f)),
     env_close = (\<lambda>f rl. rl\<lparr>rl_kern := net_close ne f (rl_kern rl)\<rparr>),
     env_epoll = (\<lambda>op f ev. on_kern (net_epoll ne op f ev)),
     env_looping = (\<lambda>rl. net_looping ne (rl_kern rl)),
     env_in_loop = (\<lambda>rl. net_in_loop ne (rl_kern rl)),
     env_calling = (\<lambda>rl. net_calling ne (rl_kern rl)),
     env_post = (\<lambda>t rl. rl\<lparr>rl_posted := rl_posted rl @ [ConnTask sd t]\<rparr>),
     env_call = (\<lambda>cb. enter sd (call cb)),
     env_on_message = (\<lambda>_. enter sd on_message),
     env_on_connection = (\<lambda>_. enter sd on_connection),
     env_on_close = (\<lambda>_. enter sd on_close)\<rparr>"

text \<open>
  Calls nest: the handler's code runs in one environment per depth. At depth 0 no callback is called,
  which is enough for \<open>startRead\<close>, \<open>stopRead\<close> and \<open>shutdown\<close>.
\<close>

definition leaf_env :: "'k net_env \<Rightarrow> side \<Rightarrow> (relay_cb, unit, ('h, 'k) relay) tcp_env" where
  "leaf_env ne = relay_env ne (\<lambda>_ _. Inl BadFunctionCall) (\<lambda>_. Inl BadFunctionCall)
     (\<lambda>_. Inl BadFunctionCall) (\<lambda>_. Inl BadFunctionCall)"

type_synonym ('h, 'k) envs = "side \<Rightarrow> (relay_cb, unit, ('h, 'k) relay) tcp_env"

subsection \<open>What both handlers do\<close>

definition rl_connected :: "side \<Rightarrow> ('h, 'k) relay \<Rightarrow> bool res" where
  "rl_connected sd rl = (case rl_conns rl sd of None \<Rightarrow> Inl UseAfterFree
     | Some c \<Rightarrow> Inr (tcp_state c = kConnected))"

text \<open>\<open>inputBuffer().retrieveAllAsString()\<close>.\<close>

definition rl_retrieve :: "side \<Rightarrow> ('h, 'k) relay \<Rightarrow> (bytes \<times> ('h, 'k) relay) res" where
  "rl_retrieve sd rl = (case rl_conns rl sd of None \<Rightarrow> Inl UseAfterFree
     | Some c \<Rightarrow> bind_res (retrieveAllAsString (input_buffer c)) (\<lambda>(data, b).
         Inr (data, rl_put sd (c\<lparr>input_buffer := b\<rparr>) rl)))"

definition rl_send :: "('h, 'k) envs \<Rightarrow> side \<Rightarrow> bytes \<Rightarrow> ('h, 'k) relay_op" where
  "rl_send e sd data = on_conn sd (send (e sd) data)"

definition rl_shutdown :: "('h, 'k) envs \<Rightarrow> side \<Rightarrow> ('h, 'k) relay_op" where
  "rl_shutdown e sd = on_conn sd (shutdown (e sd))"

text \<open>Take what has arrived on one side and send it on the other.\<close>

definition rl_pass :: "('h, 'k) envs \<Rightarrow> side \<Rightarrow> ('h, 'k) relay_op" where
  "rl_pass e sd rl = bind_res (rl_retrieve sd rl) (\<lambda>(data, rl). rl_send e (other sd) data rl)"

text \<open>
  The flow control callbacks: one side stops reading while the other has too much to send, and reads
  again when all is sent. The front's callbacks check that the back is still there.
\<close>

definition rl_present :: "side \<Rightarrow> ('h, 'k) relay_op \<Rightarrow> ('h, 'k) relay_op" where
  "rl_present sd op rl = (if rl_conns rl sd = None then Inr rl else op rl)"

fun flow_call :: "('h, 'k) envs \<Rightarrow> side \<Rightarrow> bool \<Rightarrow> ('h, 'k) relay_op" where
  "flow_call e Back go = on_conn Front ((if go then startRead else stopRead) (e Front))"
| "flow_call e Front go = rl_present Back (on_conn Back ((if go then startRead else stopRead) (e Back)))"

text \<open>\<open>backend_conn_.reset()\<close>: the handler's reference is the only one, so the object is destroyed.\<close>

definition rl_reset :: "('h, 'k) envs \<Rightarrow> ('h, 'k) relay_op" where
  "rl_reset e rl = bind_res (rl_take Back rl) (\<lambda>(c, rl). tcp_destroy (e Back) c rl)"

text \<open>The handler's own members.\<close>

definition on_app :: "('h \<Rightarrow> 'h) \<Rightarrow> ('h, 'k) relay \<Rightarrow> ('h, 'k) relay" where
  "on_app f rl = rl\<lparr>rl_app := f (rl_app rl)\<rparr>"

text \<open>\<open>runInLoop\<close>: at once in the loop thread outside the functor phase, else stored.\<close>

definition rl_runInLoop :: "'k net_env \<Rightarrow> relay_task \<Rightarrow> ('h, 'k) relay_op \<Rightarrow> ('h, 'k) relay_op" where
  "rl_runInLoop ne task body rl =
     (if net_in_loop ne (rl_kern rl) \<and> \<not> net_calling ne (rl_kern rl) then body rl
      else Inr (rl\<lparr>rl_posted := rl_posted rl @ [task]\<rparr>))"

text \<open>
  The common part of \<open>createBackendConnection\<close>: a non-blocking socket and \<open>::connect\<close>. The result is
  the descriptor, unless a call failed for good; then the descriptor, if any, is closed.
\<close>

definition rl_dial :: "'k net_env \<Rightarrow> inet_address \<Rightarrow> ('h, 'k) relay \<Rightarrow> fd option \<times> ('h, 'k) relay" where
  "rl_dial ne addr rl =
     (case net_socket ne (rl_kern rl) of (sock, k1) \<Rightarrow>
        if sock < 0 then (None, rl\<lparr>rl_kern := k1\<rparr>)
        else (case net_connect ne sock addr (net_nonblock ne sock k1) of (ret, err, k2) \<Rightarrow>
          if ret < 0 \<and> err \<noteq> EINPROGRESS then (None, rl\<lparr>rl_kern := net_close ne sock k2\<rparr>)
          else (Some sock, rl\<lparr>rl_kern := k2\<rparr>)))"

text \<open>
  The rest of it: a connection in the callback mode, with the callbacks \<open>wire\<close> installs on both, and
  the wait for the connection to complete.
\<close>

definition backend_mark :: size_t where "backend_mark = 64 * 1024 * 1024"

definition rl_open :: "('h, 'k) envs \<Rightarrow> fd \<Rightarrow> inet_address \<Rightarrow> (relay_conn \<Rightarrow> relay_conn) \<Rightarrow> ('h, 'k) relay_op" where
  "rl_open e sock peer wire rl = (case rl_conns rl Front of None \<Rightarrow> Inl UseAfterFree
     | Some f \<Rightarrow> bind_res (new_TcpConnection (conn_name f @ ''_backend'') sock peer) (\<lambda>b.
         bind_res (if rl_conns rl Back = None then Inr rl else rl_reset e rl) (\<lambda>rl.
         let f' = setWriteCompleteCallback (WriteComplete Front)
                    (setHighWaterMarkCallback (HighWater Front) backend_mark f)
         in on_conn Back (connectEstablishedAsClient (e Back)) (rl_put Back (wire b) (rl_put Front f' rl)))))"

text \<open>What every backend connection is given, apart from the connection callback.\<close>

definition backend_setup :: "relay_conn \<Rightarrow> relay_conn" where
  "backend_setup b = setConnectionCallback BackConnection (setMessageCallback BackMessage
     (setWriteCompleteCallback (WriteComplete Back) (setHighWaterMarkCallback (HighWater Back) backend_mark b)))"

end
