(* ===== verification/RelayFlow.thy ===== *)
theory RelayFlow
  imports Relay
begin

text \<open>
  What holds of two joined connections whatever the handler: a flow control callback of one side only
  switches the reading of the other; sending on one side leaves the other's stream alone; and passing
  on what has arrived keeps, in each direction, the bytes taken from one peer equal to the bytes given
  to the other and those still buffered.
\<close>

subsection \<open>The kernel\<close>

text \<open>
  What is observed of the kernel: the bytes it accepted and the bytes it handed over on each
  descriptor, and the chunks it will hand over, one per \<open>::readv\<close>.
\<close>

record 'k view =
  vw_sent :: "'k \<Rightarrow> fd \<Rightarrow> bytes"
  vw_taken :: "'k \<Rightarrow> fd \<Rightarrow> bytes"
  vw_incoming :: "'k \<Rightarrow> fd \<Rightarrow> bytes list"

definition same_view :: "'k view \<Rightarrow> 'k \<Rightarrow> 'k \<Rightarrow> bool" where
  "same_view K k k' \<longleftrightarrow> vw_sent K k' = vw_sent K k \<and> vw_taken K k' = vw_taken K k \<and>
     vw_incoming K k' = vw_incoming K k"

text \<open>
  Documented behaviour of the calls on non-blocking stream sockets: \<open>::write\<close> accepts a prefix, not
  empty unless the request was, or reports a full buffer; \<open>::readv\<close> hands over the next chunk or
  reports that there is none; a pending connection succeeds; epoll does not touch the data. The
  operations run in the loop thread, while it handles events.
\<close>

definition net_ok :: "'k net_env \<Rightarrow> 'k view \<Rightarrow> bool" where
  "net_ok ne K \<longleftrightarrow>
     (\<forall>f data k n err k'. net_write ne f data k = (n, err, k') \<longrightarrow>
        vw_taken K k' = vw_taken K k \<and> vw_incoming K k' = vw_incoming K k \<and>
        (if 0 \<le> sint n
         then nat (sint n) \<le> length data \<and> (data \<noteq> [] \<longrightarrow> 0 < sint n) \<and>
           vw_sent K k' = (vw_sent K k)(f := vw_sent K k f @ take (nat (sint n)) data)
         else err = EAGAIN \<and> vw_sent K k' = vw_sent K k)) \<and>
     (\<forall>f lens k. case vw_incoming K k f of
        [] \<Rightarrow> (\<exists>k'. net_readv ne f lens k = (Inl EAGAIN, k') \<and> same_view K k k')
      | d # ds \<Rightarrow> (\<exists>k'. net_readv ne f lens k = (Inr d, k') \<and> vw_sent K k' = vw_sent K k \<and>
          vw_taken K k' = (vw_taken K k)(f := vw_taken K k f @ d) \<and>
          vw_incoming K k' = (vw_incoming K k)(f := ds))) \<and>
     (\<forall>op f ev k. same_view K k (snd (net_epoll ne op f ev k))) \<and>
     (\<forall>f k. \<exists>k'. net_so_error ne f k = (0, 0, k') \<and> same_view K k k') \<and>
     (\<forall>k. net_in_loop ne k \<and> \<not> net_calling ne k)"

lemma same_view_refl [simp]: "same_view K k k"
  by (simp add: same_view_def)

lemma same_view_trans: "same_view K a b \<Longrightarrow> same_view K b c \<Longrightarrow> same_view K a c"
  by (simp add: same_view_def)

lemma net_okD:
  assumes "net_ok ne K"
  shows "net_write ne f data k = (n, err, k') \<Longrightarrow>
      vw_taken K k' = vw_taken K k \<and> vw_incoming K k' = vw_incoming K k \<and>
        (if 0 \<le> sint n
         then nat (sint n) \<le> length data \<and> (data \<noteq> [] \<longrightarrow> 0 < sint n) \<and>
           vw_sent K k' = (vw_sent K k)(f := vw_sent K k f @ take (nat (sint n)) data)
         else err = EAGAIN \<and> vw_sent K k' = vw_sent K k)"
    and "vw_incoming K k f = [] \<Longrightarrow> \<exists>k'. net_readv ne f lens k = (Inl EAGAIN, k') \<and> same_view K k k'"
    and "vw_incoming K k f = d # ds \<Longrightarrow> \<exists>k'. net_readv ne f lens k = (Inr d, k') \<and> vw_sent K k' = vw_sent K k \<and>
          vw_taken K k' = (vw_taken K k)(f := vw_taken K k f @ d) \<and>
          vw_incoming K k' = (vw_incoming K k)(f := ds)"
    and "same_view K k (snd (net_epoll ne op f ev k))"
    and "\<exists>k'. net_so_error ne f k = (0, 0, k') \<and> same_view K k k'"
    and "net_in_loop ne k" and "\<not> net_calling ne k"
proof -
  note c1 = assms [unfolded net_ok_def, THEN conjunct1]
  note r1 = assms [unfolded net_ok_def, THEN conjunct2]
  note c2 = r1 [THEN conjunct1] and c3 = r1 [THEN conjunct2, THEN conjunct1]
  show "net_write ne f data k = (n, err, k') \<Longrightarrow>
      vw_taken K k' = vw_taken K k \<and> vw_incoming K k' = vw_incoming K k \<and>
        (if 0 \<le> sint n
         then nat (sint n) \<le> length data \<and> (data \<noteq> [] \<longrightarrow> 0 < sint n) \<and>
           vw_sent K k' = (vw_sent K k)(f := vw_sent K k f @ take (nat (sint n)) data)
         else err = EAGAIN \<and> vw_sent K k' = vw_sent K k)"
    using c1 by metis
  note c2' = c2 [THEN spec, THEN spec, THEN spec, of f lens k]
  show "vw_incoming K k f = [] \<Longrightarrow> \<exists>k'. net_readv ne f lens k = (Inl EAGAIN, k') \<and> same_view K k k'"
    using c2' by simp
  show "vw_incoming K k f = d # ds \<Longrightarrow> \<exists>k'. net_readv ne f lens k = (Inr d, k') \<and> vw_sent K k' = vw_sent K k \<and>
          vw_taken K k' = (vw_taken K k)(f := vw_taken K k f @ d) \<and>
          vw_incoming K k' = (vw_incoming K k)(f := ds)"
    using c2' by simp
  show "same_view K k (snd (net_epoll ne op f ev k))" using c3 by simp
  note r3 = r1 [THEN conjunct2, THEN conjunct2]
  show "\<exists>k'. net_so_error ne f k = (0, 0, k') \<and> same_view K k k'" using r3 by simp
  show "net_in_loop ne k" "\<not> net_calling ne k" using r3 by simp_all
qed

lemma net_update:
  assumes "net_ok ne K"
  shows "same_view K k (updateChannel (net_epoll ne) ch k)"
proof -
  obtain r k1 where r: "net_epoll ne CTL_ADD (ch_fd ch) (ch_events ch) k = (r, k1)" by fastforce
  with net_okD(4) [OF assms, of k CTL_ADD "ch_fd ch" "ch_events ch"] have "same_view K k k1" by simp
  with r net_okD(4) [OF assms, of k1 CTL_MOD "ch_fd ch" "ch_events ch"] show ?thesis
    by (auto simp: updateChannel_def intro: same_view_trans split: option.split)
qed

subsection \<open>Environments\<close>

definition lifts :: "'k net_env \<Rightarrow> ('h, 'k) envs \<Rightarrow> bool" where
  "lifts ne e \<longleftrightarrow> (\<exists>call om oc cl. e = relay_env ne call om oc cl)"

lemma lifts_relay_env [simp]: "lifts ne (relay_env ne call om oc cl)"
  by (auto simp: lifts_def)

lemma lifts_leaf [simp]: "lifts ne (leaf_env ne)"
  by (simp add: leaf_env_def)

lemma lifts_fields:
  assumes "lifts ne e"
  shows "env_in_loop (e sd) rl = net_in_loop ne (rl_kern rl)"
    and "env_calling (e sd) rl = net_calling ne (rl_kern rl)"
    and "env_epoll (e sd) op f ev = on_kern (net_epoll ne op f ev)"
    and "env_write (e sd) f data = on_kern3 (net_write ne f data)"
    and "env_readv (e sd) f lens = on_kern (net_readv ne f lens)"
    and "env_so_error (e sd) f = on_kern3 (net_so_error ne f)"
    and "env_looping (e sd) rl = net_looping ne (rl_kern rl)"
  using assms by (auto simp: lifts_def relay_env_def)

lemma lifts_update:
  assumes "lifts ne e"
  shows "updateChannel (env_epoll (e sd)) ch rl = rl\<lparr>rl_kern := updateChannel (net_epoll ne) ch (rl_kern rl)\<rparr>"
proof -
  obtain r k1 where "net_epoll ne CTL_ADD (ch_fd ch) (ch_events ch) (rl_kern rl) = (r, k1)" by fastforce
  then show ?thesis
    by (cases r) (auto simp: updateChannel_def lifts_fields [OF assms] on_kern_def split: prod.splits)
qed

subsection \<open>Flow control\<close>

text \<open>The same connection, up to whether it reads.\<close>

definition like :: "relay_conn \<Rightarrow> relay_conn \<Rightarrow> bool" where
  "like c c' \<longleftrightarrow> (\<exists>ch. c' = c\<lparr>conn_channel := ch\<rparr> \<and> isWriting ch = isWriting (conn_channel c))"

lemma like_refl [simp]: "like c c"
  unfolding like_def by (rule exI [of _ "conn_channel c"]) simp

lemma like_trans: "like a b \<Longrightarrow> like b c \<Longrightarrow> like a c"
  by (auto simp: like_def)

lemma likeD:
  assumes "like c c'"
  shows "conn_fd c' = conn_fd c" "tcp_state c' = tcp_state c" "input_buffer c' = input_buffer c"
    "output_buffer c' = output_buffer c" "handler c' = handler c"
    "message_callback c' = message_callback c" "connection_callback c' = connection_callback c"
    "write_complete_callback c' = write_complete_callback c"
    "high_water_mark_callback c' = high_water_mark_callback c"
    "conn_close_callback c' = conn_close_callback c"
    "isWriting (conn_channel c') = isWriting (conn_channel c)"
  using assms by (auto simp: like_def)

text \<open>What a flow control callback of the connection on side \<open>sd\<close> may change.\<close>

definition calm :: "'k view \<Rightarrow> side \<Rightarrow> ('h, 'k) relay \<Rightarrow> ('h, 'k) relay \<Rightarrow> bool" where
  "calm K sd rl rl' \<longleftrightarrow> rl_conns rl' sd = rl_conns rl sd \<and>
     (\<exists>d d'. rl_conns rl (other sd) = Some d \<and> rl_conns rl' (other sd) = Some d' \<and> like d d') \<and>
     rl_app rl' = rl_app rl \<and> rl_posted rl' = rl_posted rl \<and> rl_removed rl' = rl_removed rl \<and>
     same_view K (rl_kern rl) (rl_kern rl')"

lemma other_other [simp]: "other (other sd) = sd"
  by (cases sd) simp_all

lemma other_neq [simp]: "other sd \<noteq> sd" "sd \<noteq> other sd"
  by (cases sd; simp)+

lemma reading_keeps_writing:
  "isWriting (ch\<lparr>ch_events := ch_events ch OR EPOLLIN\<rparr>) = isWriting ch"
  "isWriting (ch\<lparr>ch_events := ch_events ch AND NOT EPOLLIN\<rparr>) = isWriting ch"
  by (simp_all add: mask_bits bit_masks bit_or_iff bit_and_iff bit_not_iff)

lemma reading_like:
  assumes "net_ok ne K" and "lifts ne e" and "rl_conns rl sd = Some d"
  shows "\<exists>rl'. on_conn sd ((if go then startRead else stopRead) (e sd)) rl = Inr rl' \<and> calm K (other sd) rl rl'"
proof -
  define w where "w = rl\<lparr>rl_conns := (rl_conns rl)(sd := None)\<rparr>"
  define on where "on = (conn_channel d)\<lparr>ch_events := ch_events (conn_channel d) OR EPOLLIN\<rparr>"
  define off where "off = (conn_channel d)\<lparr>ch_events := ch_events (conn_channel d) AND NOT EPOLLIN\<rparr>"
  have "env_in_loop (e sd) w" "\<not> env_calling (e sd) w"
    using net_okD(6,7) [OF assms(1)] by (simp_all add: lifts_fields [OF assms(2)])
  note loop = this
  have start: "startRead (e sd) (d, w) = (if active d \<and> \<not> isReading (conn_channel d)
      then Inr (d\<lparr>conn_channel := on\<rparr>, w\<lparr>rl_kern := updateChannel (net_epoll ne) on (rl_kern w)\<rparr>) else Inr (d, w))"
    by (subst startRead_frame(1)) (simp_all add: loop on_def lifts_update [OF assms(2)])
  have stop: "stopRead (e sd) (d, w) = (if active d \<and> isReading (conn_channel d)
      then Inr (d\<lparr>conn_channel := off\<rparr>, w\<lparr>rl_kern := updateChannel (net_epoll ne) off (rl_kern w)\<rparr>) else Inr (d, w))"
    by (subst startRead_frame(2)) (simp_all add: loop off_def lifts_update [OF assms(2)])
  have l: "like d (d\<lparr>conn_channel := on\<rparr>)" "like d (d\<lparr>conn_channel := off\<rparr>)"
    unfolding like_def on_def off_def using reading_keeps_writing by blast+
  have kept: "Inr (d, w) = Inr (d, w\<lparr>rl_kern := rl_kern w\<rparr>)" by simp
  obtain d' k where run: "(if go then startRead else stopRead) (e sd) (d, w) = Inr (d', w\<lparr>rl_kern := k\<rparr>)"
    and like: "like d d'" and view: "same_view K (rl_kern w) k"
  proof (cases go)
    case True
    show ?thesis
    proof (cases "active d \<and> \<not> isReading (conn_channel d)")
      case True
      with \<open>go\<close> start l(1) net_update [OF assms(1), of _ on] show ?thesis by (intro that) simp_all
    next
      case False
      with \<open>go\<close> start kept have "(if go then startRead else stopRead) (e sd) (d, w) = Inr (d, w\<lparr>rl_kern := rl_kern w\<rparr>)"
        by simp
      then show ?thesis by (rule that) simp_all
    qed
  next
    case no: False
    show ?thesis
    proof (cases "active d \<and> isReading (conn_channel d)")
      case True
      with no stop l(2) net_update [OF assms(1), of _ off] show ?thesis by (intro that) simp_all
    next
      case False
      with no stop kept have "(if go then startRead else stopRead) (e sd) (d, w) = Inr (d, w\<lparr>rl_kern := rl_kern w\<rparr>)"
        by simp
      then show ?thesis by (rule that) simp_all
    qed
  qed
  have "on_conn sd ((if go then startRead else stopRead) (e sd)) rl = Inr (rl_put sd d' (w\<lparr>rl_kern := k\<rparr>))"
    using assms(3) run by (simp add: on_conn_def rl_take_def w_def)
  moreover have "calm K (other sd) rl (rl_put sd d' (w\<lparr>rl_kern := k\<rparr>))"
    using assms(3) like view by (simp add: calm_def rl_put_def w_def)
  ultimately show ?thesis by blast
qed

lemma flow_call_calm:
  assumes "net_ok ne K" and "lifts ne e" and "rl_conns rl (other sd) \<noteq> None"
  shows "\<exists>rl'. flow_call e sd go rl = Inr rl' \<and> calm K sd rl rl'"
proof -
  from assms(3) obtain d where d: "rl_conns rl (other sd) = Some d" by blast
  from reading_like [OF assms(1,2) d, of go] show ?thesis using d
    by (cases sd) (simp_all add: rl_present_def)
qed

subsection \<open>One side works, the other is left alone\<close>

text \<open>
  \<open>steady\<close>: while the connection on side \<open>sd\<close>, with descriptor \<open>f\<close>, works, the rest is as it was in
  \<open>rl0\<close>, up to whether the other connection reads.
\<close>

definition steady :: "'k view \<Rightarrow> fd \<Rightarrow> side \<Rightarrow> ('h, 'k) relay \<Rightarrow> ('h, 'k) relay \<Rightarrow> bool" where
  "steady K f sd rl0 w \<longleftrightarrow> rl_conns w sd = None \<and>
     (\<exists>d d'. rl_conns rl0 (other sd) = Some d \<and> rl_conns w (other sd) = Some d' \<and> like d d') \<and>
     rl_app w = rl_app rl0 \<and> rl_posted w = rl_posted rl0 \<and> rl_removed w = rl_removed rl0 \<and>
     vw_taken K (rl_kern w) = vw_taken K (rl_kern rl0) \<and>
     vw_incoming K (rl_kern w) = vw_incoming K (rl_kern rl0) \<and>
     (\<forall>g. g \<noteq> f \<longrightarrow> vw_sent K (rl_kern w) g = vw_sent K (rl_kern rl0) g)"

lemma steady_kern:
  "steady K f sd rl0 w \<Longrightarrow> vw_taken K k = vw_taken K (rl_kern w) \<Longrightarrow> vw_incoming K k = vw_incoming K (rl_kern w) \<Longrightarrow>
    (\<And>g. g \<noteq> f \<Longrightarrow> vw_sent K k g = vw_sent K (rl_kern w) g) \<Longrightarrow> steady K f sd rl0 (w\<lparr>rl_kern := k\<rparr>)"
  by (simp add: steady_def)

lemma steady_calm:
  assumes "steady K f sd rl0 w" and "calm K sd (rl_put sd c w) rl'"
  shows "rl_take sd rl' = Inr (c, rl'\<lparr>rl_conns := (rl_conns rl')(sd := None)\<rparr>)"
    and "steady K f sd rl0 (rl'\<lparr>rl_conns := (rl_conns rl')(sd := None)\<rparr>)"
    and "vw_sent K (rl_kern rl') = vw_sent K (rl_kern w)"
  using assms by (auto simp: calm_def rl_take_def rl_put_def steady_def same_view_def intro: like_trans)

text \<open>The callbacks of the flow control, as an environment has them.\<close>

definition flow_calls :: "'k net_env \<Rightarrow> (relay_cb \<Rightarrow> ('h, 'k) relay_op) \<Rightarrow> bool" where
  "flow_calls ne call \<longleftrightarrow> (\<exists>e. lifts ne e \<and> (\<forall>sd. call (HighWater sd) = flow_call e sd False \<and>
     call (WriteComplete sd) = flow_call e sd True))"

lemma flow_quiet:
  assumes "net_ok ne K" and "flow_calls ne call" and "rl_conns rl0 (other sd) \<noteq> None"
    and "cb = None \<or> cb = Some (HighWater sd) \<or> cb = Some (WriteComplete sd)"
  shows "quiet (steady K f sd rl0) (relay_env ne call om oc cl sd) (\<lambda>w. vw_sent K (rl_kern w)) f cb"
  unfolding quiet_def
proof (intro allI impI)
  fix g c w
  assume g: "cb = Some g" and w: "steady K f sd rl0 w"
  from assms(2) obtain e where e: "lifts ne e" "call (HighWater sd) = flow_call e sd False"
    "call (WriteComplete sd) = flow_call e sd True" unfolding flow_calls_def by blast
  from g assms(4) e obtain go where go: "call g = flow_call e sd go" by auto
  have "rl_conns (rl_put sd c w) (other sd) \<noteq> None" using w by (auto simp: steady_def rl_put_def)
  from flow_call_calm [OF assms(1) e(1) this, of go] obtain rl' where
    r: "call g (rl_put sd c w) = Inr rl'" "calm K sd (rl_put sd c w) rl'" unfolding go by blast
  from r(1) steady_calm [OF w r(2)]
  show "\<exists>w'. env_call (relay_env ne call om oc cl sd) g (c, w) = Inr (c, w') \<and> steady K f sd rl0 w' \<and>
      vw_sent K (rl_kern w') f = vw_sent K (rl_kern w) f"
    by (intro exI [of _ "rl'\<lparr>rl_conns := (rl_conns rl')(sd := None)\<rparr>"]) (simp add: relay_env_def enter_def)
qed

lemma steady_stream:
  assumes "net_ok ne K"
  shows "stream_on (steady K f sd rl0) (relay_env ne call om oc cl sd) (\<lambda>w. vw_sent K (rl_kern w)) f"
  unfolding stream_on_def
proof (intro conjI allI impI, goal_cases)
  case (1 data w n err w')
  then obtain k where k: "net_write ne f data (rl_kern w) = (n, err, k)" "w' = w\<lparr>rl_kern := k\<rparr>"
    by (auto simp: relay_env_def on_kern3_def split: prod.splits)
  note law = net_okD(1) [OF assms k(1)]
  show ?case unfolding k(2) using 1(1) by (rule steady_kern) (use law in \<open>auto split: if_splits\<close>)
next
  case (2 data w n err w')
  then obtain k where "net_write ne f data (rl_kern w) = (n, err, k)" "w' = w\<lparr>rl_kern := k\<rparr>"
    by (auto simp: relay_env_def on_kern3_def split: prod.splits)
  with net_okD(1) [OF assms this(1)] show ?case by auto
next
  case (3 op g ev w)
  have "same_view K (rl_kern w) (snd (net_epoll ne op g ev (rl_kern w)))" by (rule net_okD(4) [OF assms])
  with 3 show ?case
    by (auto simp: relay_env_def on_kern_def same_view_def intro: steady_kern split: prod.split)
next
  case (4 op g ev w)
  have "same_view K (rl_kern w) (snd (net_epoll ne op g ev (rl_kern w)))" by (rule net_okD(4) [OF assms])
  then show ?case by (auto simp: relay_env_def on_kern_def same_view_def split: prod.split)
qed (use net_okD(6,7) [OF assms] in \<open>simp_all add: relay_env_def\<close>)

text \<open>
  An operation on the output path of one connection, in the middle of the relay: \<open>sendInLoop\<close> with
  \<open>data\<close>, or \<open>handleWrite\<close> with none.
\<close>

lemma on_conn_stream:
  assumes ne: "net_ok ne K" and fl: "flow_calls ne call"
    and c: "rl_conns rl sd = Some c" and d: "rl_conns rl (other sd) = Some d" and inv: "out_inv c"
    and cbs: "write_complete_callback c = None \<or> write_complete_callback c = Some (WriteComplete sd)"
      "high_water_mark_callback c = None \<or> high_water_mark_callback c = Some (HighWater sd)"
    and fits: "length data \<le> room (output_buffer c)"
    and op: "op = send (relay_env ne call om oc cl sd) data \<or>
      op = handleWrite (relay_env ne call om oc cl sd) \<and> data = []"
  obtains c' d' k where "op (c, rl\<lparr>rl_conns := (rl_conns rl)(sd := None)\<rparr>) = Inr (c',
      rl\<lparr>rl_conns := (rl_conns rl)(sd := None, other sd \<mapsto> d'), rl_kern := k\<rparr>)"
    "same_conn c c'" "out_inv c'" "like d d'"
    "vw_sent K k (conn_fd c) @ content (output_buffer c') =
       vw_sent K (rl_kern rl) (conn_fd c) @ content (output_buffer c) @ data"
    "\<And>g. g \<noteq> conn_fd c \<Longrightarrow> vw_sent K k g = vw_sent K (rl_kern rl) g"
    "vw_taken K k = vw_taken K (rl_kern rl)" "vw_incoming K k = vw_incoming K (rl_kern rl)"
    "room (output_buffer c) - length data \<le> room (output_buffer c')"
proof -
  let ?rl = "rl\<lparr>rl_conns := (rl_conns rl)(sd := None)\<rparr>" and ?P = "steady K (conn_fd c) sd rl"
    and ?sent = "\<lambda>w. vw_sent K (rl_kern w)" and ?env = "relay_env ne call om oc cl sd"
  have env: "stream_on ?P ?env ?sent (conn_fd c)" by (rule steady_stream [OF ne])
  have p: "?P ?rl" using d by (auto simp: steady_def)
  have q: "quiet_conn ?P ?env ?sent c"
    using cbs d by (auto simp: quiet_conn_def intro!: flow_quiet [OF ne fl])
  have "room (output_buffer c) \<le> vector_max_size" by (simp add: room_def)
  then have len: "length data < 2 ^ 63" using fits by (simp add: vector_max_size_def)
  have "\<exists>c' w'. op (c, ?rl) = Inr (c', w') \<and> same_conn c c' \<and> out_inv c' \<and> ?P w' \<and>
    ?sent w' (conn_fd c) @ content (output_buffer c') = ?sent ?rl (conn_fd c) @ content (output_buffer c) @ data \<and>
    room (output_buffer c) - length data \<le> room (output_buffer c')"
    using op
  proof
    assume "op = send ?env data"
    then show ?thesis using sendInLoop_ok [OF env q inv p len fits] in_loop_body [OF env p]
      by (simp add: send_def)
  next
    assume "op = handleWrite ?env \<and> data = []"
    then show ?thesis using handleWrite_ok [OF env q inv p] by simp
  qed
  then obtain c' w' where 1: "op (c, ?rl) = Inr (c', w')" "same_conn c c'" "out_inv c'" "?P w'"
    "?sent w' (conn_fd c) @ content (output_buffer c') = ?sent ?rl (conn_fd c) @ content (output_buffer c) @ data"
    "room (output_buffer c) - length data \<le> room (output_buffer c')" by blast
  from 1(4) d obtain d' where d': "rl_conns w' (other sd) = Some d'" "like d d'" by (auto simp: steady_def)
  have "rl_conns w' = (rl_conns rl)(sd := None, other sd \<mapsto> d')"
  proof
    fix x show "rl_conns w' x = ((rl_conns rl)(sd := None, other sd \<mapsto> d')) x"
      using 1(4) d' by (cases x; cases sd) (auto simp: steady_def)
  qed
  moreover have "rl_app w' = rl_app rl" "rl_posted w' = rl_posted rl" "rl_removed w' = rl_removed rl"
    using 1(4) by (simp_all add: steady_def)
  ultimately have "\<exists>k. w' = rl\<lparr>rl_conns := (rl_conns rl)(sd := None, other sd \<mapsto> d'), rl_kern := k\<rparr>"
    by (intro exI [of _ "rl_kern w'"]) simp
  then obtain k where w': "w' = rl\<lparr>rl_conns := (rl_conns rl)(sd := None, other sd \<mapsto> d'), rl_kern := k\<rparr>" ..
  from 1(1) [unfolded w'] 1(2,3) d'(2) show ?thesis
    by (rule that) (use 1(4-6) in \<open>auto simp: steady_def w'\<close>)
qed

text \<open>An operation on the output path that no callback interrupts.\<close>

lemma kern_stream:
  assumes "net_ok ne K" and "\<And>w k. P w \<Longrightarrow> P (w\<lparr>rl_kern := k\<rparr>)"
  shows "stream_on P (relay_env ne call om oc cl sd) (\<lambda>w. vw_sent K (rl_kern w)) f"
  unfolding stream_on_def
proof (intro conjI allI impI, goal_cases)
  case (1 data w n err w')
  then show ?case using assms(2) by (auto simp: relay_env_def on_kern3_def split: prod.splits)
next
  case (2 data w n err w')
  then obtain k where "net_write ne f data (rl_kern w) = (n, err, k)" "w' = w\<lparr>rl_kern := k\<rparr>"
    by (auto simp: relay_env_def on_kern3_def split: prod.splits)
  with net_okD(1) [OF assms(1) this(1)] show ?case by auto
next
  case (3 op g ev w)
  then show ?case using assms(2) by (auto simp: relay_env_def on_kern_def split: prod.split)
next
  case (4 op g ev w)
  have "same_view K (rl_kern w) (snd (net_epoll ne op g ev (rl_kern w)))" by (rule net_okD(4) [OF assms(1)])
  then show ?case by (auto simp: relay_env_def on_kern_def same_view_def split: prod.split)
qed (use net_okD(6,7) [OF assms(1)] in \<open>simp_all add: relay_env_def\<close>)

end
