(* ===== verification/RelayStream.thy ===== *)
theory RelayStream
  imports RelayFlow
begin

text \<open>
  The two streams of a relay: what each side has been given and still has to be given is what the other
  has sent (\<open>pipe\<close>), for both directions at once (\<open>est\<close>), and how taking from one side and sending on
  the other, or writing out, keeps that.
\<close>

subsection \<open>Taking from one side and sending on the other\<close>

lemma retrieve_all_room:
  assumes "buffer_inv b"
  obtains b' where "retrieveAllAsString b = Inr (content b, b')" "buffer_inv b'" "content b' = []"
    "room b \<le> room b'"
proof -
  from retrieveAllAsString_props [OF assms] obtain b' where
    b: "retrieveAllAsString b = Inr (content b, b')" "buffer_inv b'" "content b' = []" by blast
  then have "b' = retrieve (readableBytes b) b"
    by (auto simp: retrieveAllAsString_def retrieveAsString_def res_simps)
  with b retrieve_room [OF assms] show ?thesis by (intro that) auto
qed

lemma rl_retrieve_ok:
  assumes "rl_conns rl sd = Some c" and "buffer_inv (input_buffer c)"
  obtains b where "rl_retrieve sd rl = Inr (content (input_buffer c), rl_put sd (c\<lparr>input_buffer := b\<rparr>) rl)"
    "buffer_inv b" "content b = []" "room (input_buffer c) \<le> room b"
proof (rule retrieve_all_room [OF assms(2)])
  fix b
  assume b: "retrieveAllAsString (input_buffer c) = Inr (content (input_buffer c), b)" "buffer_inv b"
    "content b = []" "room (input_buffer c) \<le> room b"
  have "rl_retrieve sd rl = Inr (content (input_buffer c), rl_put sd (c\<lparr>input_buffer := b\<rparr>) rl)"
    using assms(1) b(1) by (simp add: rl_retrieve_def)
  then show thesis using b(2-4) by (rule that)
qed

lemma rl_send_ok:
  assumes ne: "net_ok ne K" and fl: "flow_calls ne call"
    and c: "rl_conns rl sd = Some c" and d: "rl_conns rl (other sd) = Some d" and inv: "out_inv c"
    and cbs: "write_complete_callback c = Some (WriteComplete sd)" "high_water_mark_callback c = Some (HighWater sd)"
    and fits: "length data \<le> room (output_buffer c)"
  obtains c' d' k where "rl_send (relay_env ne call om oc cl) sd data rl =
      Inr (rl\<lparr>rl_conns := (rl_conns rl)(sd \<mapsto> c', other sd \<mapsto> d'), rl_kern := k\<rparr>)"
    "same_conn c c'" "out_inv c'" "like d d'"
    "vw_sent K k (conn_fd c) @ content (output_buffer c') =
       vw_sent K (rl_kern rl) (conn_fd c) @ content (output_buffer c) @ data"
    "\<And>g. g \<noteq> conn_fd c \<Longrightarrow> vw_sent K k g = vw_sent K (rl_kern rl) g"
    "vw_taken K k = vw_taken K (rl_kern rl)" "vw_incoming K k = vw_incoming K (rl_kern rl)"
    "room (output_buffer c) - length data \<le> room (output_buffer c')"
proof (rule on_conn_stream [OF ne fl c d inv, where om = om and oc = oc and cl = cl])
  fix c' d' k
  assume r: "send (relay_env ne call om oc cl sd) data (c, rl\<lparr>rl_conns := (rl_conns rl)(sd := None)\<rparr>) =
      Inr (c', rl\<lparr>rl_conns := (rl_conns rl)(sd := None, other sd \<mapsto> d'), rl_kern := k\<rparr>)"
    and rest: "same_conn c c'" "out_inv c'" "like d d'"
    "vw_sent K k (conn_fd c) @ content (output_buffer c') =
       vw_sent K (rl_kern rl) (conn_fd c) @ content (output_buffer c) @ data"
    "\<And>g. g \<noteq> conn_fd c \<Longrightarrow> vw_sent K k g = vw_sent K (rl_kern rl) g"
    "vw_taken K k = vw_taken K (rl_kern rl)" "vw_incoming K k = vw_incoming K (rl_kern rl)"
    "room (output_buffer c) - length data \<le> room (output_buffer c')"
  from r c have "rl_send (relay_env ne call om oc cl) sd data rl =
      Inr (rl\<lparr>rl_conns := (rl_conns rl)(sd \<mapsto> c', other sd \<mapsto> d'), rl_kern := k\<rparr>)"
    by (simp add: rl_send_def on_conn_def rl_take_def rl_put_def fun_upd_twist)
  from this rest show thesis by (rule that)
qed (use cbs fits in simp_all)

subsection \<open>The two streams\<close>

text \<open>
  \<open>pipe K N k c d (x, y) z\<close>: what \<open>c\<close>'s peer has sent and was taken goes to \<open>d\<close>'s peer, except that
  the opening bytes \<open>x\<close> were replaced by \<open>y\<close>; \<open>z\<close> is still in the input buffer. \<open>N\<close> is what the
  buffers can still hold beyond the traffic so far.
\<close>

definition pipe :: "'k view \<Rightarrow> nat \<Rightarrow> 'k \<Rightarrow> relay_conn \<Rightarrow> relay_conn \<Rightarrow> bytes \<times> bytes \<Rightarrow> bytes \<Rightarrow> bool" where
  "pipe K N k c d xy z \<longleftrightarrow> out_inv d \<and> buffer_inv (input_buffer c) \<and> content (input_buffer c) = z \<and>
     (\<exists>r. vw_taken K k (conn_fd c) = fst xy @ r \<and>
        vw_sent K k (conn_fd d) @ content (output_buffer d) @ z = snd xy @ r) \<and>
     N \<le> room (output_buffer d) + length (vw_sent K k (conn_fd d) @ content (output_buffer d)) \<and>
     N \<le> room (input_buffer c) + length (vw_taken K k (conn_fd c))"

definition wired :: "relay_conn \<Rightarrow> relay_conn \<Rightarrow> bool" where
  "wired f b \<longleftrightarrow> conn_fd f \<noteq> conn_fd b \<and> handler f = Some () \<and> handler b = None \<and>
     message_callback b = Some BackMessage \<and>
     write_complete_callback f = Some (WriteComplete Front) \<and> high_water_mark_callback f = Some (HighWater Front) \<and>
     write_complete_callback b = Some (WriteComplete Back) \<and> high_water_mark_callback b = Some (HighWater Back)"

definition joined :: "side \<Rightarrow> relay_conn \<Rightarrow> relay_conn \<Rightarrow> bool" where
  "joined sd c d \<longleftrightarrow> (case sd of Front \<Rightarrow> wired c d | Back \<Rightarrow> wired d c)"

text \<open>The relay is established: each stream, with what is left of its input, and what the handler adds.\<close>

definition opening_of :: "bytes \<times> bytes \<Rightarrow> side \<Rightarrow> bytes \<times> bytes" where
  "opening_of xy sd = (case sd of Front \<Rightarrow> xy | Back \<Rightarrow> ([], []))"

definition est :: "'k view \<Rightarrow> nat \<Rightarrow> nat \<Rightarrow> ('h \<Rightarrow> bytes \<times> bytes \<Rightarrow> bool) \<Rightarrow> ('h, 'k) relay
    \<Rightarrow> bytes \<times> bytes \<Rightarrow> (side \<Rightarrow> bytes) \<Rightarrow> bool" where
  "est K N S Q rl xy z \<longleftrightarrow> Q (rl_app rl) xy \<and> length (snd xy) \<le> length (fst xy) + S \<and>
     (\<exists>c. (\<forall>sd. rl_conns rl sd = Some (c sd)) \<and> wired (c Front) (c Back) \<and>
        (\<forall>sd. pipe K N (rl_kern rl) (c sd) (c (other sd)) (opening_of xy sd) (z sd)))"

text \<open>The traffic stays below \<open>N\<close>, with \<open>S\<close> to spare.\<close>

definition bounded :: "'k view \<Rightarrow> nat \<Rightarrow> nat \<Rightarrow> 'k \<Rightarrow> bool" where
  "bounded K N S k \<longleftrightarrow> (\<forall>f. (\<forall>d\<in>set (vw_incoming K k f). d \<noteq> [] \<and> length d \<le> 65536) \<and>
     length (vw_taken K k f) + length (concat (vw_incoming K k f)) + S \<le> N)"

text \<open>What an operation that only moves bytes inside the program leaves.\<close>

definition inside :: "'k view \<Rightarrow> ('h, 'k) relay \<Rightarrow> ('h, 'k) relay \<Rightarrow> bool" where
  "inside K rl rl' \<longleftrightarrow> vw_taken K (rl_kern rl') = vw_taken K (rl_kern rl) \<and>
     vw_incoming K (rl_kern rl') = vw_incoming K (rl_kern rl) \<and> rl_posted rl' = rl_posted rl \<and>
     rl_removed rl' = rl_removed rl \<and> (\<forall>sd. map_option conn_fd (rl_conns rl' sd) = map_option conn_fd (rl_conns rl sd))"

lemma inside_trans: "inside K a b \<Longrightarrow> inside K b c \<Longrightarrow> inside K a c"
  by (simp add: inside_def)

lemma bounded_inside: "inside K rl rl' \<Longrightarrow> bounded K N S (rl_kern rl') = bounded K N S (rl_kern rl)"
  by (simp add: inside_def bounded_def)

text \<open>Sending \<open>data\<close> on \<open>d\<close> after the input of \<open>c\<close> was taken.\<close>

lemma pipe_sent:
  assumes p: "pipe K N k c d xy z" and l: "like (c\<lparr>input_buffer := b\<rparr>) c'"
    and b: "buffer_inv b" "content b = []" "room (input_buffer c) \<le> room b"
    and d': "same_conn d d'" "out_inv d'"
    and sent: "vw_sent K k' (conn_fd d) @ content (output_buffer d') =
      vw_sent K k (conn_fd d) @ content (output_buffer d) @ data"
    and k': "vw_taken K k' = vw_taken K k" and rm: "room (output_buffer d) - length data \<le> room (output_buffer d')"
    and r: "vw_taken K k (conn_fd c) = fst xy' @ r"
      "vw_sent K k (conn_fd d) @ content (output_buffer d) @ data = snd xy' @ r"
  shows "pipe K N k' c' d' xy' []"
proof -
  have e: "conn_fd c' = conn_fd c" "input_buffer c' = b" "conn_fd d' = conn_fd d"
    using likeD(1,3) [OF l] d'(1) by (simp_all add: same_conn_def)
  have "length (vw_sent K k' (conn_fd d) @ content (output_buffer d')) =
      length (vw_sent K k (conn_fd d) @ content (output_buffer d)) + length data"
    unfolding sent by simp
  with p rm have "N \<le> room (output_buffer d') + length (vw_sent K k' (conn_fd d) @ content (output_buffer d'))"
    unfolding pipe_def by linarith
  moreover have "N \<le> room b + length (vw_taken K k (conn_fd c))" using p b(3) unfolding pipe_def by linarith
  moreover have "vw_sent K k' (conn_fd d) @ content (output_buffer d') = snd xy' @ r" using sent r(2) by simp
  ultimately show ?thesis using d'(2) b r(1) k' unfolding pipe_def e by auto
qed

text \<open>The opposite stream does not notice.\<close>

lemma pipe_opposite:
  assumes p: "pipe K N k d c xy z" and l: "like (c\<lparr>input_buffer := b\<rparr>) c'"
    and d': "same_conn d d'" and fd: "conn_fd c \<noteq> conn_fd d"
    and k': "\<And>g. g \<noteq> conn_fd d \<Longrightarrow> vw_sent K k' g = vw_sent K k g" "vw_taken K k' = vw_taken K k"
  shows "pipe K N k' d' c' xy z"
proof -
  have "conn_fd c' = conn_fd c" "output_buffer c' = output_buffer c" "out_inv c' = out_inv c"
    "conn_fd d' = conn_fd d" "input_buffer d' = input_buffer d"
    using likeD [OF l] d' by (simp_all add: same_conn_def out_inv_def)
  with p fd k' show ?thesis by (simp add: pipe_def)
qed

lemma pipe_fits:
  assumes "pipe K N k c d xy z" and "length (snd xy) \<le> length (fst xy) + S"
    and "length (vw_taken K k (conn_fd c)) + S \<le> N"
  shows "length z \<le> room (output_buffer d)"
proof -
  from assms(1) obtain r where r: "vw_taken K k (conn_fd c) = fst xy @ r"
    "vw_sent K k (conn_fd d) @ content (output_buffer d) @ z = snd xy @ r"
    "N \<le> room (output_buffer d) + length (vw_sent K k (conn_fd d) @ content (output_buffer d))"
    unfolding pipe_def by blast
  have "length (vw_sent K k (conn_fd d) @ content (output_buffer d)) + length z = length (snd xy) + length r"
    using arg_cong [OF r(2), of length] by simp
  moreover have "length (vw_taken K k (conn_fd c)) = length (fst xy) + length r" by (simp add: r(1))
  ultimately show ?thesis using assms(2,3) r(3) by linarith
qed

text \<open>
  The input of \<open>sd\<close> is taken and \<open>data\<close>, which stands for it, is sent on the other side. Of \<open>data\<close>
  only the stream equation and its length matter.
\<close>

lemma relay_data:
  assumes ne: "net_ok ne K" and fl: "flow_calls ne call"
    and c: "rl_conns rl sd = Some c" and d: "rl_conns rl (other sd) = Some d"
    and w: "joined sd c d"
    and p: "pipe K N (rl_kern rl) c d xy z" and p': "pipe K N (rl_kern rl) d c xy2 z2"
    and fits: "length data \<le> room (output_buffer d)"
    and r: "vw_taken K (rl_kern rl) (conn_fd c) = fst xy' @ r"
      "vw_sent K (rl_kern rl) (conn_fd d) @ content (output_buffer d) @ data = snd xy' @ r"
  obtains rl1 rl' c' d' where "rl_retrieve sd rl = Inr (z, rl1)"
    "rl_send (relay_env ne call om oc cl) (other sd) data rl1 = Inr rl'"
    "rl_app rl1 = rl_app rl" "rl_app rl' = rl_app rl" "inside K rl rl'"
    "rl_conns rl' sd = Some c'" "rl_conns rl' (other sd) = Some d'"
    "joined sd c' d'"
    "pipe K N (rl_kern rl') c' d' xy' []" "pipe K N (rl_kern rl') d' c' xy2 z2"
proof -
  have in_c: "buffer_inv (input_buffer c)" "content (input_buffer c) = z" and out: "out_inv d"
    using p unfolding pipe_def by simp_all
  have fd: "conn_fd c \<noteq> conn_fd d" using w by (cases sd) (auto simp: joined_def wired_def)
  have cbs: "write_complete_callback d = Some (WriteComplete (other sd))"
    "high_water_mark_callback d = Some (HighWater (other sd))"
    using w by (cases sd; simp add: joined_def wired_def)+
  obtain b where b: "rl_retrieve sd rl = Inr (z, rl_put sd (c\<lparr>input_buffer := b\<rparr>) rl)"
    "buffer_inv b" "content b = []" "room (input_buffer c) \<le> room b"
    by (rule rl_retrieve_ok [OF c in_c(1), unfolded in_c(2)])
  let ?rl1 = "rl_put sd (c\<lparr>input_buffer := b\<rparr>) rl"
  have at1: "rl_conns ?rl1 (other sd) = Some d" "rl_conns ?rl1 (other (other sd)) = Some (c\<lparr>input_buffer := b\<rparr>)"
    "rl_kern ?rl1 = rl_kern rl" "rl_app ?rl1 = rl_app rl"
    using d by (simp_all add: rl_put_def)
  obtain d' c' k where s: "rl_send (relay_env ne call om oc cl) (other sd) data ?rl1 =
      Inr (?rl1\<lparr>rl_conns := (rl_conns ?rl1)(other sd \<mapsto> d', other (other sd) \<mapsto> c'), rl_kern := k\<rparr>)"
    "same_conn d d'" "out_inv d'" "like (c\<lparr>input_buffer := b\<rparr>) c'"
    "vw_sent K k (conn_fd d) @ content (output_buffer d') =
       vw_sent K (rl_kern ?rl1) (conn_fd d) @ content (output_buffer d) @ data"
    "\<And>g. g \<noteq> conn_fd d \<Longrightarrow> vw_sent K k g = vw_sent K (rl_kern ?rl1) g"
    "vw_taken K k = vw_taken K (rl_kern ?rl1)" "vw_incoming K k = vw_incoming K (rl_kern ?rl1)"
    "room (output_buffer d) - length data \<le> room (output_buffer d')"
    by (rule rl_send_ok [OF ne fl at1(1,2) out cbs fits, where om = om and oc = oc and cl = cl])
      (rule that, assumption+)
  note s' = s [unfolded at1(3)]
  let ?rl' = "?rl1\<lparr>rl_conns := (rl_conns ?rl1)(other sd \<mapsto> d', other (other sd) \<mapsto> c'), rl_kern := k\<rparr>"
  have fds: "conn_fd c' = conn_fd c" "conn_fd d' = conn_fd d"
    using likeD(1) [OF s'(4)] s'(2) by (simp_all add: same_conn_def)
  have ins: "inside K rl ?rl'"
    unfolding inside_def
  proof (intro conjI allI)
    fix x show "map_option conn_fd (rl_conns ?rl' x) = map_option conn_fd (rl_conns rl x)"
      using c d fds by (cases x; cases sd) (simp_all add: rl_put_def)
  qed (use s' in \<open>simp_all add: rl_put_def\<close>)
  have wd: "joined sd c' d'"
    using w s'(2) likeD [OF s'(4)] by (cases sd) (auto simp: joined_def wired_def same_conn_def)
  show thesis
  proof (rule that [OF b(1) s'(1)])
    show "rl_app ?rl1 = rl_app rl" "rl_app ?rl' = rl_app rl" by (simp_all add: rl_put_def)
    show "inside K rl ?rl'" by (rule ins)
    show "rl_conns ?rl' sd = Some c'" "rl_conns ?rl' (other sd) = Some d'" by simp_all
    show "joined sd c' d'" by (rule wd)
    show "pipe K N (rl_kern ?rl') c' d' xy' []"
      using pipe_sent [OF p s'(4) b(2-4) s'(2,3,5,7,9) r] by simp
    show "pipe K N (rl_kern ?rl') d' c' xy2 z2"
      using pipe_opposite [OF p' s'(4,2) fd s'(6,7)] by simp
  qed
qed

lemma estE:
  assumes "est K N S Q rl xy z"
  obtains c d where "rl_conns rl sd = Some c" "rl_conns rl (other sd) = Some d" "joined sd c d"
    "pipe K N (rl_kern rl) c d (opening_of xy sd) (z sd)"
    "pipe K N (rl_kern rl) d c (opening_of xy (other sd)) (z (other sd))"
    "Q (rl_app rl) xy" "length (snd xy) \<le> length (fst xy) + S"
proof -
  from assms obtain c where c: "\<And>sd. rl_conns rl sd = Some (c sd)" "wired (c Front) (c Back)"
    "\<And>sd. pipe K N (rl_kern rl) (c sd) (c (other sd)) (opening_of xy sd) (z sd)"
    and q: "Q (rl_app rl) xy" "length (snd xy) \<le> length (fst xy) + S"
    unfolding est_def by blast
  have "joined sd (c sd) (c (other sd))" using c(2) by (cases sd) (simp_all add: joined_def)
  with c(1) [of sd] c(1) [of "other sd"] show ?thesis using c(3) [of sd] c(3) [of "other sd"] q
    by (intro that) simp_all
qed

lemma estI:
  assumes "rl_conns rl sd = Some c" and "rl_conns rl (other sd) = Some d" and "joined sd c d"
    and "pipe K N (rl_kern rl) c d (opening_of xy sd) (z sd)"
    and "pipe K N (rl_kern rl) d c (opening_of xy (other sd)) (z (other sd))"
    and "Q (rl_app rl) xy" and "length (snd xy) \<le> length (fst xy) + S"
  shows "est K N S Q rl xy z"
proof -
  let ?c = "(\<lambda>_. d)(sd := c)"
  have "rl_conns rl x = Some (?c x) \<and> pipe K N (rl_kern rl) (?c x) (?c (other x)) (opening_of xy x) (z x)" for x
    using assms by (cases x; cases sd) simp_all
  moreover have "wired (?c Front) (?c Back)" using assms(3) by (cases sd) (simp_all add: joined_def)
  ultimately show ?thesis unfolding est_def using assms(6,7) by blast
qed

lemma opening_le: "length (snd xy) \<le> length (fst xy) + S \<Longrightarrow>
    length (snd (opening_of xy sd)) \<le> length (fst (opening_of xy sd)) + S"
  by (cases sd) (simp_all add: opening_of_def)

lemma boundedD:
  assumes "bounded K N S k"
  shows "length (vw_taken K k f) + length (concat (vw_incoming K k f)) + S \<le> N"
    and "d \<in> set (vw_incoming K k f) \<Longrightarrow> d \<noteq> [] \<and> length d \<le> 65536"
    and "length (vw_taken K k f) + S \<le> N"
proof -
  show 1: "length (vw_taken K k f) + length (concat (vw_incoming K k f)) + S \<le> N"
    and "d \<in> set (vw_incoming K k f) \<Longrightarrow> d \<noteq> [] \<and> length d \<le> 65536"
    using assms unfolding bounded_def by blast+
  from 1 show "length (vw_taken K k f) + S \<le> N" by simp
qed

text \<open>Sending \<open>data\<close>, which stands for the input taken, with a new opening if need be.\<close>

lemma est_data:
  assumes ne: "net_ok ne K" and fl: "flow_calls ne call" and e: "est K N S Q rl xy z"
    and q: "Q' (rl_app rl) xy'" "length (snd xy') \<le> length (fst xy') + S"
    and oth: "opening_of xy' (other sd) = opening_of xy (other sd)"
    and data: "\<And>c d. rl_conns rl sd = Some c \<Longrightarrow> rl_conns rl (other sd) = Some d \<Longrightarrow>
      pipe K N (rl_kern rl) c d (opening_of xy sd) (z sd) \<Longrightarrow>
      length data \<le> room (output_buffer d) \<and> (\<exists>r. vw_taken K (rl_kern rl) (conn_fd c) = fst (opening_of xy' sd) @ r \<and>
      vw_sent K (rl_kern rl) (conn_fd d) @ content (output_buffer d) @ data = snd (opening_of xy' sd) @ r)"
  shows "\<exists>rl1 rl'. rl_retrieve sd rl = Inr (z sd, rl1) \<and>
    rl_send (relay_env ne call om oc cl) (other sd) data rl1 = Inr rl' \<and>
    rl_app rl1 = rl_app rl \<and> rl_app rl' = rl_app rl \<and> inside K rl rl' \<and> est K N S Q' rl' xy' (z(sd := []))"
proof -
  obtain c d where cd: "rl_conns rl sd = Some c" "rl_conns rl (other sd) = Some d" "joined sd c d"
    "pipe K N (rl_kern rl) c d (opening_of xy sd) (z sd)"
    "pipe K N (rl_kern rl) d c (opening_of xy (other sd)) (z (other sd))"
    by (rule estE [OF e])
  from data [OF cd(1,2,4)] obtain r where r: "length data \<le> room (output_buffer d)"
    "vw_taken K (rl_kern rl) (conn_fd c) = fst (opening_of xy' sd) @ r"
    "vw_sent K (rl_kern rl) (conn_fd d) @ content (output_buffer d) @ data = snd (opening_of xy' sd) @ r" by blast
  show ?thesis
  proof (rule relay_data [OF ne fl cd r, where om = om and oc = oc and cl = cl])
    fix rl1 rl' c' d'
    assume h: "rl_retrieve sd rl = Inr (z sd, rl1)"
      "rl_send (relay_env ne call om oc cl) (other sd) data rl1 = Inr rl'"
      "rl_app rl1 = rl_app rl" "rl_app rl' = rl_app rl" "inside K rl rl'"
      "rl_conns rl' sd = Some c'" "rl_conns rl' (other sd) = Some d'" "joined sd c' d'"
      "pipe K N (rl_kern rl') c' d' (opening_of xy' sd) []"
      "pipe K N (rl_kern rl') d' c' (opening_of xy (other sd)) (z (other sd))"
    have "est K N S Q' rl' xy' (z(sd := []))"
      by (rule estI [OF h(6-8)]) (use h(4,9,10) oth q in simp_all)
    with h(1-5) show ?thesis by blast
  qed
qed

lemma est_pass:
  assumes ne: "net_ok ne K" and fl: "flow_calls ne call" and e: "est K N S Q rl xy z"
    and bd: "bounded K N S (rl_kern rl)"
  shows "\<exists>rl'. rl_pass (relay_env ne call om oc cl) sd rl = Inr rl' \<and> rl_app rl' = rl_app rl \<and> inside K rl rl' \<and>
    est K N S Q rl' xy (z(sd := []))"
proof -
  have q: "Q (rl_app rl) xy" "length (snd xy) \<le> length (fst xy) + S" using e by (simp_all add: est_def)
  have "\<exists>rl1 rl'. rl_retrieve sd rl = Inr (z sd, rl1) \<and>
    rl_send (relay_env ne call om oc cl) (other sd) (z sd) rl1 = Inr rl' \<and>
    rl_app rl1 = rl_app rl \<and> rl_app rl' = rl_app rl \<and> inside K rl rl' \<and> est K N S Q rl' xy (z(sd := []))"
  proof (rule est_data [where Q = Q and Q' = Q and xy = xy and xy' = xy and data = "z sd", OF ne fl e q])
    show "opening_of xy (other sd) = opening_of xy (other sd)" ..
  next
    fix c d assume "pipe K N (rl_kern rl) c d (opening_of xy sd) (z sd)"
    with pipe_fits [OF this opening_le [OF q(2)]] boundedD(3) [OF bd]
    show "length (z sd) \<le> room (output_buffer d) \<and> (\<exists>r. vw_taken K (rl_kern rl) (conn_fd c) = fst (opening_of xy sd) @ r \<and>
      vw_sent K (rl_kern rl) (conn_fd d) @ content (output_buffer d) @ z sd = snd (opening_of xy sd) @ r)"
      unfolding pipe_def by blast
  qed
  then show ?thesis by (auto simp: rl_pass_def)
qed

lemma on_app_fields [simp]:
  "rl_conns (on_app f rl) = rl_conns rl" "rl_app (on_app f rl) = f (rl_app rl)" "rl_kern (on_app f rl) = rl_kern rl"
  "rl_posted (on_app f rl) = rl_posted rl" "rl_removed (on_app f rl) = rl_removed rl"
  by (simp_all add: on_app_def)

lemma inside_on_app: "inside K (on_app f rl) rl' = inside K rl rl'"
  by (simp add: inside_def)

lemma est_on_app: "est K N S Q rl xy z \<Longrightarrow> Q' (f (rl_app rl)) xy \<Longrightarrow> est K N S Q' (on_app f rl) xy z"
  by (simp add: est_def)

end
