(* ===== verification/RelayApp.thy ===== *)
theory RelayApp
  imports RelayStream
begin

text \<open>
  The contract of a handler that relays, as the locale \<open>relay_app\<close>, and its consequence for every
  history of events: nothing faults, every event is handled to its end, and in each direction no byte
  is lost, repeated or reordered. LbHandler.thy and ProxyHandler.thy interpret it.
\<close>

subsection \<open>Before the backend has answered\<close>

text \<open>
  The backend connection is pending: it waits to become writable; what the client has sent so far is
  in the front's input buffer, and nothing has been sent either way.
\<close>

definition dialling :: "'k view \<Rightarrow> nat \<Rightarrow> ('h \<Rightarrow> bool) \<Rightarrow> ('h, 'k) relay \<Rightarrow> bool" where
  "dialling K N D rl \<longleftrightarrow> D (rl_app rl) \<and> (\<exists>f b. rl_conns rl Front = Some f \<and> rl_conns rl Back = Some b \<and>
     wired f b \<and> connection_callback b = Some BackConnection \<and> tcp_state b = kConnecting \<and>
     \<not> isReading (conn_channel b) \<and> tcp_state f = kConnected \<and> \<not> isWriting (conn_channel f) \<and>
     buffer_inv (input_buffer f) \<and> buffer_inv (output_buffer f) \<and>
     buffer_inv (input_buffer b) \<and> buffer_inv (output_buffer b) \<and>
     content (output_buffer f) = [] \<and> content (input_buffer b) = [] \<and> content (output_buffer b) = [] \<and>
     vw_sent K (rl_kern rl) (conn_fd b) = [] \<and> vw_taken K (rl_kern rl) (conn_fd b) = [] \<and>
     vw_sent K (rl_kern rl) (conn_fd f) = [] \<and>
     content (input_buffer f) = vw_taken K (rl_kern rl) (conn_fd f) \<and>
     N \<le> room (input_buffer f) + length (vw_taken K (rl_kern rl) (conn_fd f)) \<and>
     N \<le> room (output_buffer f) \<and> N \<le> room (input_buffer b) \<and> N \<le> room (output_buffer b))"

text \<open>The input the client's first bytes left, and nothing else.\<close>

definition only_at :: "side \<Rightarrow> bytes \<Rightarrow> side \<Rightarrow> bytes" where
  "only_at sd z = (\<lambda>_. [])(sd := z)"

lemma only_at_simps [simp]:
  "only_at sd z sd = z" "only_at sd z (other sd) = []" "(only_at sd z)(sd := y) = only_at sd y"
  "only_at sd [] = (\<lambda>_. [])"
  by (auto simp: only_at_def)

text \<open>Nothing has been sent on a side.\<close>

definition unsent :: "'k view \<Rightarrow> side \<Rightarrow> ('h, 'k) relay \<Rightarrow> bool" where
  "unsent K sd rl \<longleftrightarrow> (\<forall>c. rl_conns rl sd = Some c \<longrightarrow>
     vw_sent K (rl_kern rl) (conn_fd c) = [] \<and> content (output_buffer c) = [])"

subsection \<open>Events\<close>

text \<open>
  The kernel moves on, a socket becomes readable, or writable. \<open>Readable\<close> and \<open>Writable\<close> are what
  the channel calls (Channel.thy).
\<close>

datatype 'k relay_event = Arrive 'k | Readable side | Writable side

fun relay_do :: "('h, 'k) envs \<Rightarrow> 'k relay_event \<Rightarrow> ('h, 'k) relay \<Rightarrow> ('h, 'k) relay res option" where
  "relay_do e (Arrive k) rl = Some (Inr (rl\<lparr>rl_kern := k\<rparr>))"
| "relay_do e (Readable sd) rl = (case rl_take sd rl of Inl x \<Rightarrow> Some (Inl x)
     | Inr s \<Rightarrow> map_option (\<lambda>r. bind_res r (\<lambda>(c, w). Inr (rl_put sd c w))) (handleRead (e sd) s))"
| "relay_do e (Writable sd) rl = Some (on_conn sd (handleWrite (e sd)) rl)"

text \<open>
  What can happen: data arrives, in chunks \<open>::readv\<close> will return one by one, within the bound; a
  socket is readable only if its connection asked for input, or is connected.
\<close>

definition enabled :: "'k view \<Rightarrow> nat \<Rightarrow> nat \<Rightarrow> ('h, 'k) relay \<Rightarrow> 'k relay_event \<Rightarrow> bool" where
  "enabled K N S rl ev \<longleftrightarrow> (case ev of
     Arrive k \<Rightarrow> vw_sent K k = vw_sent K (rl_kern rl) \<and> vw_taken K k = vw_taken K (rl_kern rl) \<and> bounded K N S k
   | Readable sd \<Rightarrow> (\<exists>c. rl_conns rl sd = Some c \<and> (isReading (conn_channel c) \<or> tcp_state c = kConnected))
   | Writable sd \<Rightarrow> rl_conns rl sd \<noteq> None)"

inductive relay_reach :: "('h, 'k) envs \<Rightarrow> 'k view \<Rightarrow> nat \<Rightarrow> nat \<Rightarrow> ('h, 'k) relay \<Rightarrow> ('h, 'k) relay \<Rightarrow> bool"
  for e K N S rl0 where
  relay_start: "relay_reach e K N S rl0 rl0"
| relay_more: "relay_reach e K N S rl0 rl \<Longrightarrow> enabled K N S rl ev \<Longrightarrow> relay_do e ev rl = Some (Inr rl') \<Longrightarrow>
    relay_reach e K N S rl0 rl'"

subsection \<open>Steps of an established relay\<close>

lemma est_kern:
  assumes "est K N S Q rl xy z" and "vw_sent K k = vw_sent K (rl_kern rl)" and "vw_taken K k = vw_taken K (rl_kern rl)"
  shows "est K N S Q (rl\<lparr>rl_kern := k\<rparr>) xy z"
  using assms by (simp add: est_def pipe_def)

lemma rl_put_take [simp]: "rl_put sd c (rl\<lparr>rl_conns := (rl_conns rl)(sd := None)\<rparr>) = rl_put sd c rl"
  by (simp add: rl_put_def)

lemma rl_put_kern: "rl_put sd c (rl\<lparr>rl_kern := k\<rparr>) = (rl_put sd c rl)\<lparr>rl_kern := k\<rparr>"
  by (cases rl) (simp add: rl_put_def)

lemma rl_put_fields [simp]:
  "rl_conns (rl_put sd c rl) = (rl_conns rl)(sd \<mapsto> c)" "rl_app (rl_put sd c rl) = rl_app rl"
  "rl_posted (rl_put sd c rl) = rl_posted rl" "rl_removed (rl_put sd c rl) = rl_removed rl"
  "rl_kern (rl_put sd c rl) = rl_kern rl"
  by (simp_all add: rl_put_def)

lemma rl_put_same: "rl_conns rl sd = Some c \<Longrightarrow> rl_put sd c rl = rl"
  by (simp add: rl_put_def fun_upd_idem)

lemma est_write:
  assumes ne: "net_ok ne K" and fl: "flow_calls ne call" and e: "est K N S Q rl xy z"
  shows "\<exists>rl'. on_conn sd (handleWrite (relay_env ne call om oc cl sd)) rl = Inr rl' \<and> inside K rl rl' \<and>
    rl_app rl' = rl_app rl \<and> est K N S Q rl' xy z"
proof -
  obtain c d where cd: "rl_conns rl sd = Some c" "rl_conns rl (other sd) = Some d" "joined sd c d"
    "pipe K N (rl_kern rl) c d (opening_of xy sd) (z sd)"
    "pipe K N (rl_kern rl) d c (opening_of xy (other sd)) (z (other sd))"
    and q: "Q (rl_app rl) xy" "length (snd xy) \<le> length (fst xy) + S"
    by (rule estE [OF e, where sd = sd])
  have fd: "conn_fd c \<noteq> conn_fd d" using cd(3) by (cases sd) (auto simp: joined_def wired_def)
  have cbs: "write_complete_callback c = Some (WriteComplete sd)" "high_water_mark_callback c = Some (HighWater sd)"
    using cd(3) by (cases sd; simp add: joined_def wired_def)+
  have inv: "out_inv c" using cd(5) by (simp add: pipe_def)
  show ?thesis
  proof (rule on_conn_stream [where data = "[]" and om = om and oc = oc and cl = cl, OF ne fl cd(1,2) inv])
    fix c' d' k
    assume h: "handleWrite (relay_env ne call om oc cl sd) (c, rl\<lparr>rl_conns := (rl_conns rl)(sd := None)\<rparr>) =
        Inr (c', rl\<lparr>rl_conns := (rl_conns rl)(sd := None, other sd \<mapsto> d'), rl_kern := k\<rparr>)"
      "same_conn c c'" "out_inv c'" "like d d'"
      "vw_sent K k (conn_fd c) @ content (output_buffer c') =
         vw_sent K (rl_kern rl) (conn_fd c) @ content (output_buffer c) @ []"
      "\<And>g. g \<noteq> conn_fd c \<Longrightarrow> vw_sent K k g = vw_sent K (rl_kern rl) g"
      "vw_taken K k = vw_taken K (rl_kern rl)" "vw_incoming K k = vw_incoming K (rl_kern rl)"
      "room (output_buffer c) - length [] \<le> room (output_buffer c')"
    let ?rl' = "rl\<lparr>rl_conns := (rl_conns rl)(sd \<mapsto> c', other sd \<mapsto> d'), rl_kern := k\<rparr>"
    have run: "on_conn sd (handleWrite (relay_env ne call om oc cl sd)) rl = Inr ?rl'"
      using h(1) cd(1) by (simp add: on_conn_def rl_take_def rl_put_def fun_upd_twist)
    have same: "conn_fd c' = conn_fd c" "input_buffer c' = input_buffer c" using h(2) by (simp_all add: same_conn_def)
    have out: "out_inv d' = out_inv d" using likeD [OF h(4)] by (simp add: out_inv_def)
    have lens: "length (vw_sent K k (conn_fd c) @ content (output_buffer c')) =
        length (vw_sent K (rl_kern rl) (conn_fd c) @ content (output_buffer c))" using h(5) by simp
    have "pipe K N k c' d' (opening_of xy sd) (z sd)"
      using cd(4) fd h(6,7) same out likeD [OF h(4)] by (simp add: pipe_def)
    moreover have "pipe K N k d' c' (opening_of xy (other sd)) (z (other sd))"
    proof -
      from cd(5) obtain r where r: "vw_taken K (rl_kern rl) (conn_fd d) = fst (opening_of xy (other sd)) @ r"
        "vw_sent K (rl_kern rl) (conn_fd c) @ content (output_buffer c) @ z (other sd) = snd (opening_of xy (other sd)) @ r"
        unfolding pipe_def by blast
      have "vw_sent K k (conn_fd c) @ content (output_buffer c') @ z (other sd) = snd (opening_of xy (other sd)) @ r"
        using h(5) r(2) by (metis append.assoc append_Nil2)
      moreover have "N \<le> room (output_buffer c') + length (vw_sent K k (conn_fd c) @ content (output_buffer c'))"
        using cd(5) h(9) unfolding lens by (simp add: pipe_def)
      ultimately show ?thesis
        using cd(5) h(3,7) r(1) same likeD [OF h(4)] by (simp add: pipe_def)
    qed
    moreover have "joined sd c' d'"
      using cd(3) h(2) likeD [OF h(4)] by (cases sd) (auto simp: joined_def wired_def same_conn_def)
    ultimately have "est K N S Q ?rl' xy z"
      by (intro estI [where sd = sd and c = c' and d = d']) (use q in simp_all)
    moreover have "inside K rl ?rl'"
      unfolding inside_def
    proof (intro conjI allI)
      fix x show "map_option conn_fd (rl_conns ?rl' x) = map_option conn_fd (rl_conns rl x)"
        using cd(1,2) same likeD(1) [OF h(4)] by (cases x; cases sd) simp_all
    qed (use h in simp_all)
    ultimately show ?thesis using run by auto
  qed (use cbs in simp_all)
qed

definition relaying :: "'k view \<Rightarrow> nat \<Rightarrow> nat \<Rightarrow> ('h \<Rightarrow> bytes \<times> bytes \<Rightarrow> bool) \<Rightarrow> ('h, 'k) relay \<Rightarrow> bool" where
  "relaying K N S Q rl \<longleftrightarrow> (\<exists>xy. est K N S Q rl xy (\<lambda>_. []))"

lemma relayingI: "est K N S Q rl xy (\<lambda>_. []) \<Longrightarrow> relaying K N S Q rl"
  unfolding relaying_def by (rule exI)

text \<open>A chunk has arrived in the input buffer of one side.\<close>

lemma est_arrived:
  assumes e: "est K N S Q (rl_put sd c w) xy (\<lambda>_. [])" and b: "buffer_inv b" "content b = content (input_buffer c) @ d"
      "room (input_buffer c) - length d \<le> room b"
    and k: "vw_sent K k = vw_sent K (rl_kern w)"
      "vw_taken K k = (vw_taken K (rl_kern w))(conn_fd c := vw_taken K (rl_kern w) (conn_fd c) @ d)"
  shows "est K N S Q (rl_put sd (c\<lparr>input_buffer := b\<rparr>) (w\<lparr>rl_kern := k\<rparr>)) xy (only_at sd d)"
proof -
  obtain d0 where cd: "rl_conns w (other sd) = Some d0" "joined sd c d0"
    "pipe K N (rl_kern w) c d0 (opening_of xy sd) []"
    "pipe K N (rl_kern w) d0 c (opening_of xy (other sd)) []"
    and q: "Q (rl_app w) xy" "length (snd xy) \<le> length (fst xy) + S"
    by (rule estE [OF e, where sd = sd]) (auto simp: rl_put_def)
  let ?c = "c\<lparr>input_buffer := b\<rparr>"
  have fd: "conn_fd c \<noteq> conn_fd d0" using cd(2) by (cases sd) (auto simp: joined_def wired_def)
  have j: "joined sd ?c d0" using cd(2) by (cases sd) (auto simp: joined_def wired_def)
  from cd(3) obtain r where r: "vw_taken K (rl_kern w) (conn_fd c) = fst (opening_of xy sd) @ r"
    "vw_sent K (rl_kern w) (conn_fd d0) @ content (output_buffer d0) = snd (opening_of xy sd) @ r"
    "content (input_buffer c) = []" unfolding pipe_def by auto
  have "N \<le> room b + length (vw_taken K k (conn_fd c))"
  proof -
    have "N \<le> room (input_buffer c) + length (vw_taken K (rl_kern w) (conn_fd c))"
      using cd(3) unfolding pipe_def by blast
    moreover have "length (vw_taken K k (conn_fd c)) = length (vw_taken K (rl_kern w) (conn_fd c)) + length d"
      using k(2) by simp
    ultimately show ?thesis using b(3) by linarith
  qed
  then have p: "pipe K N k ?c d0 (opening_of xy sd) d"
    using cd(3) b(1,2) k r unfolding pipe_def by simp
  have p': "pipe K N k d0 ?c (opening_of xy (other sd)) []"
    using cd(4) fd k unfolding pipe_def by (simp add: out_inv_def)
  show ?thesis
    by (rule estI [where sd = sd and c = ?c and d = d0]) (use cd(1) j p p' q in \<open>simp_all add: rl_put_def\<close>)
qed

lemma enter_put: "enter sd body (c, w) = bind_res (body (rl_put sd c w)) (rl_take sd)"
  by (simp add: enter_def)

lemma bounded_next:
  assumes "bounded K N S k" and "vw_incoming K k f = d # ds"
    and "vw_taken K k' = (vw_taken K k)(f := vw_taken K k f @ d)" and "vw_incoming K k' = (vw_incoming K k)(f := ds)"
  shows "bounded K N S k'"
  unfolding bounded_def
proof (intro allI conjI)
  fix g
  have 1: "length (vw_taken K k g) + length (concat (vw_incoming K k g)) + S \<le> N"
    and 2: "\<forall>d\<in>set (vw_incoming K k g). d \<noteq> [] \<and> length d \<le> 65536"
    using boundedD(1,2) [OF assms(1)] by blast+
  show "\<forall>d\<in>set (vw_incoming K k' g). d \<noteq> [] \<and> length d \<le> 65536"
    using 2 assms(2,4) by (cases "g = f") auto
  show "length (vw_taken K k' g) + length (concat (vw_incoming K k' g)) + S \<le> N"
    using 1 assms(2-4) by (cases "g = f") auto
qed

lemma handleRead_in_loop: "env_in_loop env (snd s) \<Longrightarrow> handleRead env s = handleRead_loop env 0 s"
  by (simp add: handleRead_def)

text \<open>
  Reading on one side to the end: \<open>I\<close> holds of the whole relay between two chunks, and the body that
  runs on each chunk restores it.
\<close>

lemma relay_read:
  fixes I :: "('h, 'k) relay \<Rightarrow> bool"
  assumes ne: "net_ok ne K" and env: "e = relay_env ne call om oc cl"
    and bd: "\<And>rl. I rl \<Longrightarrow> bounded K N S (rl_kern rl)"
    and kern: "\<And>rl k. I rl \<Longrightarrow> same_view K (rl_kern rl) k \<Longrightarrow> I (rl\<lparr>rl_kern := k\<rparr>)"
    and conn: "\<And>rl c. I rl \<Longrightarrow> rl_conns rl sd = Some c \<Longrightarrow> buffer_inv (input_buffer c) \<and>
      N \<le> room (input_buffer c) + length (vw_taken K (rl_kern rl) (conn_fd c)) \<and>
      (sd = Front \<and> handler c = Some () \<or> sd = Back \<and> handler c = None \<and> message_callback c = Some BackMessage)"
    and body: "\<And>c w d ds b k. I (rl_put sd c w) \<Longrightarrow> rl_conns w sd = None \<Longrightarrow>
      vw_incoming K (rl_kern w) (conn_fd c) = d # ds \<Longrightarrow> buffer_inv b \<Longrightarrow>
      content b = content (input_buffer c) @ d \<Longrightarrow> room (input_buffer c) - length d \<le> room b \<Longrightarrow>
      vw_sent K k = vw_sent K (rl_kern w) \<Longrightarrow>
      vw_taken K k = (vw_taken K (rl_kern w))(conn_fd c := vw_taken K (rl_kern w) (conn_fd c) @ d) \<Longrightarrow>
      vw_incoming K k = (vw_incoming K (rl_kern w))(conn_fd c := ds) \<Longrightarrow> bounded K N S k \<Longrightarrow>
      \<exists>rl'. (case sd of Front \<Rightarrow> om | Back \<Rightarrow> call BackMessage) (rl_put sd (c\<lparr>input_buffer := b\<rparr>) (w\<lparr>rl_kern := k\<rparr>)) =
          Inr rl' \<and> I rl' \<and> inside K (rl_put sd (c\<lparr>input_buffer := b\<rparr>) (w\<lparr>rl_kern := k\<rparr>)) rl'"
    and rl: "I rl" "rl_conns rl sd = Some c0"
  shows "\<exists>rl'. relay_do e (Readable sd) rl = Some (Inr rl') \<and> I rl'"
proof -
  let ?J = "\<lambda>s. I (rl_put sd (fst s) (snd s))"
  let ?I = "\<lambda>ds s. rl_conns (snd s) sd = None \<and> ?J s \<and> vw_incoming K (rl_kern (snd s)) (conn_fd (fst s)) = ds"
  have "\<exists>s'. handleRead_loop (e sd) 0 (c0, rl\<lparr>rl_conns := (rl_conns rl)(sd := None)\<rparr>) = Some (Inr s') \<and> ?J s'"
  proof (rule handleRead_loop_inv [where I = ?I])
    fix c w assume i: "?I [] (c, w)"
    then have "vw_incoming K (rl_kern w) (conn_fd c) = []" by simp
    from net_okD(2) [OF ne this] obtain k where k: "net_readv ne (conn_fd c) (iov_lengths (input_buffer c)) (rl_kern w) =
        (Inl EAGAIN, k)" "same_view K (rl_kern w) k" by blast
    have "I (rl_put sd c w\<lparr>rl_kern := k\<rparr>)" by (rule kern) (use i k(2) in simp_all)
    then have "?J (c, w\<lparr>rl_kern := k\<rparr>)" by (simp add: rl_put_kern)
    then show "\<exists>w'. env_readv (e sd) (conn_fd c) (iov_lengths (input_buffer c)) w = (Inl EAGAIN, w') \<and> ?J (c, w')"
      using k(1) by (auto simp: env relay_env_def on_kern_def)
  next
    fix d ds c w assume i: "?I (d # ds) (c, w)"
    then have inc: "vw_incoming K (rl_kern w) (conn_fd c) = d # ds" and none: "rl_conns w sd = None"
      and I: "I (rl_put sd c w)" by simp_all
    from net_okD(3) [OF ne inc] obtain k where k: "net_readv ne (conn_fd c) (iov_lengths (input_buffer c)) (rl_kern w) = (Inr d, k)"
      "vw_sent K k = vw_sent K (rl_kern w)"
      "vw_taken K k = (vw_taken K (rl_kern w))(conn_fd c := vw_taken K (rl_kern w) (conn_fd c) @ d)"
      "vw_incoming K k = (vw_incoming K (rl_kern w))(conn_fd c := ds)" by blast
    have bw: "bounded K N S (rl_kern w)" using bd [OF I] by (simp add: rl_put_def)
    have at_c: "rl_conns (rl_put sd c w) sd = Some c" by (simp add: rl_put_def)
    note law = conn [OF I at_c]
    have d: "d \<noteq> []" "length d \<le> 65536" using boundedD(2) [OF bw, of d "conn_fd c"] inc by simp_all
    have "length d \<le> room (input_buffer c)"
      using boundedD(1) [OF bw, of "conn_fd c"] inc law by (simp add: rl_put_def)
    have bk: "bounded K N S k" by (rule bounded_next [OF bw inc k(3,4)])
    have del: "\<exists>s'. deliver (e sd) (c\<lparr>input_buffer := b\<rparr>, w\<lparr>rl_kern := k\<rparr>) = Inr s' \<and> ?I ds s'"
      if b: "buffer_inv b" "content b = content (input_buffer c) @ d" "room (input_buffer c) - length d \<le> room b" for b
    proof -
      let ?rl = "rl_put sd (c\<lparr>input_buffer := b\<rparr>) (w\<lparr>rl_kern := k\<rparr>)"
      from body [OF I none inc b k(2-4) bk] obtain rl' where
        r: "(case sd of Front \<Rightarrow> om | Back \<Rightarrow> call BackMessage) ?rl = Inr rl'" "I rl'" "inside K ?rl rl'" by blast
      have del: "deliver (e sd) (c\<lparr>input_buffer := b\<rparr>, w\<lparr>rl_kern := k\<rparr>) = rl_take sd rl'"
        using law r(1) by (cases sd) (auto simp: deliver_def env relay_env_def enter_put call_opt_def)
      from r(3) have "map_option conn_fd (rl_conns rl' sd) = Some (conn_fd c)"
        by (simp add: inside_def rl_put_def)
      then obtain c' where c': "rl_conns rl' sd = Some c'" "conn_fd c' = conn_fd c" by auto
      have "vw_incoming K (rl_kern rl') (conn_fd c) = ds" using r(3) k(4) by (simp add: inside_def rl_put_def)
      with c' r(2) show ?thesis
        by (intro exI [of _ "(c', rl'\<lparr>rl_conns := (rl_conns rl')(sd := None)\<rparr>)"])
          (simp add: del rl_take_def rl_put_same)
    qed
    have "env_readv (e sd) (conn_fd c) (iov_lengths (input_buffer c)) w = (Inr d, w\<lparr>rl_kern := k\<rparr>)"
      using k(1) by (simp add: env relay_env_def on_kern_def)
    then show "buffer_inv (input_buffer c) \<and> d \<noteq> [] \<and> length d \<le> 65536 \<and> length d \<le> room (input_buffer c) \<and>
      (\<exists>w1. env_readv (e sd) (conn_fd c) (iov_lengths (input_buffer c)) w = (Inr d, w1) \<and>
        (\<forall>b. buffer_inv b \<longrightarrow> content b = content (input_buffer c) @ d \<longrightarrow>
          room (input_buffer c) - length d \<le> room b \<longrightarrow>
          (\<exists>s'. deliver (e sd) (c\<lparr>input_buffer := b\<rparr>, w1) = Inr s' \<and> ?I ds s')))"
      using law d \<open>length d \<le> room (input_buffer c)\<close> del by blast
  qed (use rl in \<open>simp_all add: rl_put_same\<close>)
  then obtain c w where h: "handleRead_loop (e sd) 0 (c0, rl\<lparr>rl_conns := (rl_conns rl)(sd := None)\<rparr>) = Some (Inr (c, w))"
    "I (rl_put sd c w)" by auto
  have "env_in_loop (e sd) (rl\<lparr>rl_conns := (rl_conns rl)(sd := None)\<rparr>)"
    using net_okD(6) [OF ne] by (simp add: env relay_env_def)
  with h rl(2) show ?thesis by (auto simp: rl_take_def handleRead_in_loop)
qed

subsection \<open>Steps while the backend connection is pending\<close>

lemma diallingE:
  assumes "dialling K N D rl"
  obtains f b where "rl_conns rl Front = Some f" "rl_conns rl Back = Some b" "wired f b"
    "connection_callback b = Some BackConnection" "tcp_state b = kConnecting" "tcp_state f = kConnected"
    "\<not> isReading (conn_channel b)" "\<not> isWriting (conn_channel f)" "D (rl_app rl)"
    "buffer_inv (input_buffer f)" "content (input_buffer f) = vw_taken K (rl_kern rl) (conn_fd f)"
    "N \<le> room (input_buffer f) + length (vw_taken K (rl_kern rl) (conn_fd f))"
  using assms unfolding dialling_def by blast

lemma dialling_kern:
  assumes "dialling K N D rl" and "vw_sent K k = vw_sent K (rl_kern rl)" and "vw_taken K k = vw_taken K (rl_kern rl)"
  shows "dialling K N D (rl\<lparr>rl_kern := k\<rparr>)"
  using assms by (simp add: dialling_def)

lemma dialling_app: "dialling K N D rl \<Longrightarrow> D h \<Longrightarrow> dialling K N D (rl\<lparr>rl_app := h\<rparr>)"
  by (simp add: dialling_def)

lemma dialling_arrived:
  assumes di: "dialling K N D (rl_put Front c w)" and b: "buffer_inv b" "content b = content (input_buffer c) @ d"
      "room (input_buffer c) - length d \<le> room b"
    and k: "vw_sent K k = vw_sent K (rl_kern w)"
      "vw_taken K k = (vw_taken K (rl_kern w))(conn_fd c := vw_taken K (rl_kern w) (conn_fd c) @ d)"
  shows "dialling K N D (rl_put Front (c\<lparr>input_buffer := b\<rparr>) (w\<lparr>rl_kern := k\<rparr>))"
proof -
  from di obtain c2 where di': "D (rl_app w)" "rl_conns w Back = Some c2" "wired c c2"
     "connection_callback c2 = Some BackConnection" "tcp_state c2 = kConnecting"
     "\<not> isReading (conn_channel c2)" "tcp_state c = kConnected" "\<not> isWriting (conn_channel c)"
     "buffer_inv (input_buffer c)" "buffer_inv (output_buffer c)"
     "buffer_inv (input_buffer c2)" "buffer_inv (output_buffer c2)"
     "content (output_buffer c) = []" "content (input_buffer c2) = []" "content (output_buffer c2) = []"
     "vw_sent K (rl_kern w) (conn_fd c2) = []" "vw_taken K (rl_kern w) (conn_fd c2) = []"
     "vw_sent K (rl_kern w) (conn_fd c) = []"
     "content (input_buffer c) = vw_taken K (rl_kern w) (conn_fd c)"
     "N \<le> room (input_buffer c) + length (vw_taken K (rl_kern w) (conn_fd c))"
     "N \<le> room (output_buffer c)" "N \<le> room (input_buffer c2)" "N \<le> room (output_buffer c2)"
    unfolding dialling_def by auto
  have "conn_fd c \<noteq> conn_fd c2" using di'(3) by (simp add: wired_def)
  moreover have "N \<le> room b + length (vw_taken K k (conn_fd c))"
  proof -
    have "length (vw_taken K k (conn_fd c)) = length (vw_taken K (rl_kern w) (conn_fd c)) + length d"
      using k(2) by simp
    with di'(20) b(3) show ?thesis by linarith
  qed
  moreover have "wired (c\<lparr>input_buffer := b\<rparr>) c2" using di'(3) by (simp add: wired_def)
  ultimately show ?thesis using di' b(1,2) k by (simp add: dialling_def)
qed

text \<open>The front connection has nothing to write; the backend's connection completes.\<close>

lemma dialling_front_write:
  assumes ne: "net_ok ne K" and di: "dialling K N D rl" and e: "lifts ne e"
  shows "on_conn Front (handleWrite (e Front)) rl = Inr rl"
proof -
  from di obtain f where f: "rl_conns rl Front = Some f" "tcp_state f = kConnected" "\<not> isWriting (conn_channel f)"
    unfolding dialling_def by blast
  then show ?thesis
    using net_okD(6) [OF ne]
    by (simp add: on_conn_def rl_take_def handleWrite_def in_loop_def lifts_fields [OF e] rl_put_same)
qed

lemma dialling_connected:
  assumes ne: "net_ok ne K" and di: "dialling K N D rl" and e: "e = relay_env ne call om oc cl"
  obtains rl1 z where "on_conn Back (handleWrite (e Back)) rl =
      bind_res (bind_res (call BackConnection rl1) (rl_take Back)) (\<lambda>(c, w). Inr (rl_put Back c w))"
    "inside K rl rl1" "est K N S (\<lambda>h xy. D h) rl1 ([], []) (only_at Front z)" "unsent K Back rl1"
proof -
  from di obtain f b where c: "rl_conns rl Front = Some f" "rl_conns rl Back = Some b" "wired f b"
     "connection_callback b = Some BackConnection" "tcp_state b = kConnecting" "D (rl_app rl)"
     "tcp_state f = kConnected" "buffer_inv (input_buffer f)" "buffer_inv (output_buffer f)"
     "buffer_inv (input_buffer b)" "buffer_inv (output_buffer b)"
     "content (output_buffer f) = []" "content (input_buffer b) = []" "content (output_buffer b) = []"
     "vw_sent K (rl_kern rl) (conn_fd b) = []" "vw_taken K (rl_kern rl) (conn_fd b) = []"
     "vw_sent K (rl_kern rl) (conn_fd f) = []"
     "content (input_buffer f) = vw_taken K (rl_kern rl) (conn_fd f)"
     "N \<le> room (input_buffer f) + length (vw_taken K (rl_kern rl) (conn_fd f))"
     "N \<le> room (output_buffer f)" "N \<le> room (input_buffer b)" "N \<le> room (output_buffer b)"
    unfolding dialling_def by blast
  have lf: "lifts ne e" by (simp add: e)
  let ?w = "rl\<lparr>rl_conns := (rl_conns rl)(Back := None)\<rparr>"
  from net_okD(5) [OF ne] obtain k1 where k1: "net_so_error ne (conn_fd b) (rl_kern rl) = (0, 0, k1)"
    "same_view K (rl_kern rl) k1" by blast
  have so: "env_so_error (e Back) (conn_fd b) ?w = (0, 0, ?w\<lparr>rl_kern := k1\<rparr>)"
    using k1(1) by (simp add: lifts_fields [OF lf] on_kern3_def)
  have "env_in_loop (e Back) ?w" using net_okD(6) [OF ne] by (simp add: lifts_fields [OF lf])
  from connected_switch [OF this c(5) so] obtain ch and ch' :: "channel_cb channel" and w2
    where h: "handleWrite (e Back) (b, ?w) =
      call_opt (env_call (e Back)) (connection_callback b) (b\<lparr>tcp_state := kConnected, conn_channel := ch\<rparr>, w2)"
    "\<not> isWriting ch"
    "w2 = updateChannel (env_epoll (e Back)) ch (updateChannel (env_epoll (e Back)) ch' (?w\<lparr>rl_kern := k1\<rparr>))"
    by blast
  define k2 where "k2 = updateChannel (net_epoll ne) ch (updateChannel (net_epoll ne) ch' k1)"
  have w2: "w2 = ?w\<lparr>rl_kern := k2\<rparr>" using h(3) by (simp add: lifts_update [OF lf] k2_def)
  have v: "same_view K (rl_kern rl) k2"
    unfolding k2_def using k1(2) net_update [OF ne] same_view_trans by metis
  let ?b = "b\<lparr>tcp_state := kConnected, conn_channel := ch\<rparr>" and ?z = "vw_taken K (rl_kern rl) (conn_fd f)"
  let ?rl = "(rl_put Back ?b rl)\<lparr>rl_kern := k2\<rparr>"
  have put: "rl_put Back ?b w2 = ?rl" by (cases rl) (simp add: w2 rl_put_def)
  have vs: "vw_sent K k2 = vw_sent K (rl_kern rl)" "vw_taken K k2 = vw_taken K (rl_kern rl)"
    "vw_incoming K k2 = vw_incoming K (rl_kern rl)" using v by (simp_all add: same_view_def)
  have run: "on_conn Back (handleWrite (e Back)) rl =
      bind_res (bind_res (call BackConnection ?rl) (rl_take Back)) (\<lambda>(c, w). Inr (rl_put Back c w))"
    using c(2,4) h(1) put by (simp add: on_conn_def rl_take_def call_opt_def e relay_env_def enter_put)
  have ins: "inside K rl ?rl"
    using c(2) vs by (simp add: inside_def)
  have "out_inv f" "out_inv ?b" using c by (simp_all add: out_inv_def)
  then have est: "est K N S (\<lambda>h xy. D h) ?rl ([], []) (only_at Front ?z)"
    using c vs by (intro estI [where sd = Front and c = f and d = ?b])
      (simp_all add: joined_def wired_def pipe_def opening_of_def only_at_def)
  have un: "unsent K Back ?rl" using c(14,15) vs by (simp add: unsent_def)
  show ?thesis by (rule that [OF run ins est un])
qed

subsection \<open>Closing\<close>

lemma lifts_disableAll:
  assumes "lifts ne e"
  obtains ch k where "on_channel (e sd) disableAll (set_state st (c, w)) =
      (c\<lparr>tcp_state := st, conn_channel := ch\<rparr>, w\<lparr>rl_kern := k\<rparr>)" "isNoneEvent ch"
  by (auto simp: on_channel_def disableAll_def set_events_def Let_def set_state_def lifts_update [OF assms] isNoneEvent_def)

text \<open>A fault in the handler's \<open>onClose\<close> stops the closing of the front connection.\<close>

lemma front_close_fault:
  assumes "\<forall>k. net_in_loop ne k" and "rl_conns rl Front = Some f" and "handler f = Some ()"
    and "tcp_state f = kConnected \<or> tcp_state f = kDisConnecting"
    and fault: "\<And>rl'. rl_conns rl' Back = rl_conns rl Back \<Longrightarrow> cl rl' = Inl x"
  shows "on_conn Front (handleClose (relay_env ne call om oc cl Front)) rl = Inl x"
proof -
  let ?e = "relay_env ne call om oc cl Front" and ?w = "rl\<lparr>rl_conns := (rl_conns rl)(Front := None)\<rparr>"
  obtain ch k where off: "on_channel ?e disableAll (set_state kDisConnected (f, ?w)) =
      (f\<lparr>tcp_state := kDisConnected, conn_channel := ch\<rparr>, ?w\<lparr>rl_kern := k\<rparr>)"
    by (rule lifts_disableAll [OF lifts_relay_env])
  have "call_opt (env_on_close ?e) (Some ()) (f\<lparr>tcp_state := kDisConnected, conn_channel := ch\<rparr>, ?w\<lparr>rl_kern := k\<rparr>) = Inl x"
    by (simp add: call_opt_def relay_env_def enter_put fault)
  moreover have "env_in_loop ?e w" for w using assms(1) by (simp add: relay_env_def)
  ultimately have "handleClose ?e (f, ?w) = Inl x"
    using assms(3,4) off by (auto simp: handleClose_def connectDestroyed_def in_loop_def Let_def)
  then show ?thesis using assms(2) by (simp add: on_conn_def rl_take_def)
qed

subsection \<open>Dialling\<close>

text \<open>
  \<open>rl_open\<close> with a fresh descriptor gives a relay that is dialling: \<open>f\<close> is a front connection that has
  sent nothing and whose input is still in its buffer.
\<close>

definition fresh_front :: "'k view \<Rightarrow> nat \<Rightarrow> 'k \<Rightarrow> relay_conn \<Rightarrow> bool" where
  "fresh_front K N k f \<longleftrightarrow> tcp_state f = kConnected \<and> handler f = Some () \<and> \<not> isWriting (conn_channel f) \<and>
     buffer_inv (input_buffer f) \<and> buffer_inv (output_buffer f) \<and> content (output_buffer f) = [] \<and>
     vw_sent K k (conn_fd f) = [] \<and> content (input_buffer f) = vw_taken K k (conn_fd f) \<and>
     N \<le> room (input_buffer f) + length (vw_taken K k (conn_fd f)) \<and> N \<le> room (output_buffer f)"

text \<open>
  While the loop runs its pending functors \<open>calling_pending_functors_\<close> is set; nothing else differs.
\<close>

definition in_functors :: "'k net_env \<Rightarrow> 'k net_env" where
  "in_functors ne = ne\<lparr>net_calling := \<lambda>_. True\<rparr>"

lemma rl_open_dialling_in:
  assumes ne: "net_ok ne K" and e: "lifts ne e \<or> lifts (in_functors ne) e" and conns: "rl_conns rl Front = Some f" "rl_conns rl Back = None"
    and f: "fresh_front K N (rl_kern rl) f" and sock: "sock \<noteq> conn_fd f"
    and new: "vw_sent K (rl_kern rl) sock = []" "vw_taken K (rl_kern rl) sock = []"
    and n: "N \<le> vector_max_size - 8" and d: "D (rl_app rl)"
    and wire: "wire = backend_setup \<or> wire = (\<lambda>b. setConnCloseCallback cb (backend_setup b))"
  shows "\<exists>rl'. rl_open e sock peer wire rl = Inr rl' \<and> dialling K N D rl' \<and> rl_app rl' = rl_app rl \<and>
    same_view K (rl_kern rl) (rl_kern rl')"
proof -
  have "unat initialSize_default + 8 \<le> vector_max_size"
    by (simp add: initialSize_default_def vector_max_size_def)
  from new_buffer_props [OF this] obtain buf where
    buf: "new_buffer initialSize_default = Inr buf" "buffer_inv buf" "content buf = []" "room buf = vector_max_size - 8"
    by blast
  define ch where "ch = setErrorCallback OnError (setCloseCallback OnClose
      (setWriteCallback OnWrite (setReadCallback OnRead (new_Channel sock))))"
  define ch' where "ch' = ch\<lparr>ch_events := ch_events ch OR EPOLLOUT\<rparr>"
  have reading: "\<not> isReading ch'"
    by (simp add: ch'_def ch_def setErrorCallback_def setCloseCallback_def setWriteCallback_def setReadCallback_def
        new_Channel_def isReading_def epoll_masks)
  let ?made = "\<lparr>conn_name = conn_name f @ ''_backend'', conn_fd = sock, peer_addr = peer, conn_channel = ch,
      input_buffer = buf, output_buffer = buf, tcp_state = kConnecting, handler = None,
      connection_callback = None, message_callback = None, write_complete_callback = None,
      high_water_mark_callback = None, conn_close_callback = None,
      high_water_mark = 64 * 1024 * 1024\<rparr> :: relay_conn"
  have make: "new_TcpConnection (conn_name f @ ''_backend'') sock peer = Inr ?made"
    by (simp add: new_TcpConnection_def buf(1) ch_def)
  let ?f = "setWriteCompleteCallback (WriteComplete Front) (setHighWaterMarkCallback (HighWater Front) backend_mark f)"
  let ?w = "rl_put Back (wire ?made) (rl_put Front ?f rl)"
  let ?k = "updateChannel (net_epoll ne) ch' (rl_kern rl)"
  let ?b = "(wire ?made)\<lparr>tcp_state := kConnecting, conn_channel := ch'\<rparr>"
  let ?rl = "(rl_put Back ?b (rl_put Front ?f rl))\<lparr>rl_kern := ?k\<rparr>"
  have ch_b: "conn_channel (wire ?made) = ch"
    using wire by (elim disjE) (simp_all add: backend_setup_def setConnCloseCallback_def setConnectionCallback_def
        setMessageCallback_def setWriteCompleteCallback_def setHighWaterMarkCallback_def)
  have upd: "updateChannel (env_epoll (e sd)) ch rl = rl\<lparr>rl_kern := updateChannel (net_epoll ne) ch (rl_kern rl)\<rparr>" for sd ch rl
    using e lifts_update [of ne e] lifts_update [of "in_functors ne" e] by (auto simp: in_functors_def)
  have "env_in_loop (e Back) w" for w
    using e net_okD(6) [OF ne] lifts_fields(1) [of ne e] lifts_fields(1) [of "in_functors ne" e] by (auto simp: in_functors_def)
  then have "rl_open e sock peer wire rl = Inr ?rl"
    using conns ch_b
    by (cases rl) (simp add: rl_open_def make on_conn_def rl_take_def rl_put_def connectEstablishedAsClient_def in_loop_def
        set_state_def on_channel_def enableWriting_def set_events_def Let_def upd ch'_def)
  moreover have v: "same_view K (rl_kern rl) ?k" by (rule net_update [OF ne])
  then have vs: "vw_sent K ?k = vw_sent K (rl_kern rl)" "vw_taken K ?k = vw_taken K (rl_kern rl)"
    by (simp_all add: same_view_def)
  have "wired ?f ?b" "connection_callback ?b = Some BackConnection" "conn_fd ?b = sock"
    "input_buffer ?b = buf" "output_buffer ?b = buf"
    using f sock wire by (auto simp: wired_def fresh_front_def backend_setup_def setConnCloseCallback_def
        setConnectionCallback_def setMessageCallback_def setWriteCompleteCallback_def setHighWaterMarkCallback_def)
  moreover have "tcp_state ?f = kConnected" "conn_channel ?f = conn_channel f" "input_buffer ?f = input_buffer f"
    "output_buffer ?f = output_buffer f" "conn_fd ?f = conn_fd f"
    using f by (simp_all add: fresh_front_def setWriteCompleteCallback_def setHighWaterMarkCallback_def)
  ultimately have "dialling K N D ?rl"
    using f new n d buf(2-4) reading unfolding dialling_def by (simp add: vs fresh_front_def)
  with \<open>rl_open e sock peer wire rl = Inr ?rl\<close> v show ?thesis by auto
qed

lemma rl_open_dialling:
  assumes "net_ok ne K" and "lifts ne e" and "rl_conns rl Front = Some f" "rl_conns rl Back = None"
    and "fresh_front K N (rl_kern rl) f" and "sock \<noteq> conn_fd f"
    and "vw_sent K (rl_kern rl) sock = []" "vw_taken K (rl_kern rl) sock = []"
    and "N \<le> vector_max_size - 8" and "D (rl_app rl)"
    and "wire = backend_setup \<or> wire = (\<lambda>b. setConnCloseCallback cb (backend_setup b))"
  shows "\<exists>rl'. rl_open e sock peer wire rl = Inr rl' \<and> dialling K N D rl' \<and> rl_app rl' = rl_app rl \<and>
    same_view K (rl_kern rl) (rl_kern rl')"
  by (rule rl_open_dialling_in [where f = f and N = N and D = D]) (use assms in auto)

subsection \<open>The contract\<close>

text \<open>
  \<open>call\<close> are the closures, \<open>om\<close>, \<open>oc\<close> and \<open>cl\<close> the handler's methods, for a kernel. \<open>D\<close> holds of the
  handler's members while the backend connection is pending, \<open>Q\<close>, with the opening and what replaced
  it, afterwards; \<open>S\<close> is by how much the replacement may be longer.
\<close>

locale relay_app =
  fixes call :: "'k net_env \<Rightarrow> relay_cb \<Rightarrow> ('h, 'k) relay_op"
    and om oc cl :: "'k net_env \<Rightarrow> ('h, 'k) relay_op"
    and D :: "'h \<Rightarrow> bool" and Q :: "'h \<Rightarrow> bytes \<times> bytes \<Rightarrow> bool" and S :: nat
  assumes flow_law: "flow_calls ne (call ne)"
    and hold_law: "D (rl_app rl) \<Longrightarrow> rl_conns rl Front \<noteq> None \<Longrightarrow> rl_conns rl Back = Some b \<Longrightarrow>
      tcp_state b = kConnecting \<Longrightarrow> \<exists>h. om ne rl = Inr (rl\<lparr>rl_app := h\<rparr>) \<and> D h"
    and connect_law: "net_ok ne K \<Longrightarrow> bounded K N S (rl_kern rl) \<Longrightarrow>
      est K N S (\<lambda>h xy. D h) rl ([], []) (only_at Front z) \<Longrightarrow> unsent K Back rl \<Longrightarrow>
      \<exists>rl' xy. call ne BackConnection rl = Inr rl' \<and> inside K rl rl' \<and> est K N S Q rl' xy (\<lambda>_. [])"
    and front_law: "net_ok ne K \<Longrightarrow> bounded K N S (rl_kern rl) \<Longrightarrow> est K N S Q rl xy (only_at Front z) \<Longrightarrow>
      \<exists>rl'. om ne rl = Inr rl' \<and> inside K rl rl' \<and> est K N S Q rl' xy (\<lambda>_. [])"
    and back_law: "net_ok ne K \<Longrightarrow> bounded K N S (rl_kern rl) \<Longrightarrow> est K N S Q rl xy (only_at Back z) \<Longrightarrow>
      \<exists>rl'. call ne BackMessage rl = Inr rl' \<and> inside K rl rl' \<and> est K N S Q rl' xy (\<lambda>_. [])"
begin

lemma read_est:
  assumes ne: "net_ok ne K" and e: "est K N S Q rl xy (\<lambda>_. [])" and bd: "bounded K N S (rl_kern rl)"
  shows "\<exists>rl'. relay_do (relay_env ne (call ne) (om ne) (oc ne) (cl ne)) (Readable sd) rl = Some (Inr rl') \<and>
    est K N S Q rl' xy (\<lambda>_. []) \<and> bounded K N S (rl_kern rl')"
proof -
  obtain c0 where c0: "rl_conns rl sd = Some c0" by (rule estE [OF e, where sd = sd])
  show ?thesis
  proof (rule relay_read [where I = "\<lambda>rl. est K N S Q rl xy (\<lambda>_. []) \<and> bounded K N S (rl_kern rl)", OF ne refl])
    fix rl k assume "est K N S Q rl xy (\<lambda>_. []) \<and> bounded K N S (rl_kern rl)" "same_view K (rl_kern rl) k"
    then show "est K N S Q (rl\<lparr>rl_kern := k\<rparr>) xy (\<lambda>_. []) \<and> bounded K N S (rl_kern (rl\<lparr>rl_kern := k\<rparr>))"
      by (auto simp: same_view_def bounded_def intro: est_kern)
  next
    fix rl c assume i: "est K N S Q rl xy (\<lambda>_. []) \<and> bounded K N S (rl_kern rl)" "rl_conns rl sd = Some c"
    obtain d where "joined sd c d" "pipe K N (rl_kern rl) c d (opening_of xy sd) []"
      by (rule estE [OF conjunct1 [OF i(1)], where sd = sd]) (use i(2) in simp)
    then show "buffer_inv (input_buffer c) \<and> N \<le> room (input_buffer c) + length (vw_taken K (rl_kern rl) (conn_fd c)) \<and>
      (sd = Front \<and> handler c = Some () \<or> sd = Back \<and> handler c = None \<and> message_callback c = Some BackMessage)"
      by (cases sd) (simp_all add: pipe_def joined_def wired_def)
  next
    fix c w d ds b k
    assume i: "est K N S Q (rl_put sd c w) xy (\<lambda>_. []) \<and> bounded K N S (rl_kern (rl_put sd c w))"
      and b: "buffer_inv b" "content b = content (input_buffer c) @ d" "room (input_buffer c) - length d \<le> room b"
      and k: "vw_sent K k = vw_sent K (rl_kern w)"
        "vw_taken K k = (vw_taken K (rl_kern w))(conn_fd c := vw_taken K (rl_kern w) (conn_fd c) @ d)"
      and bk: "bounded K N S k"
    let ?rl = "rl_put sd (c\<lparr>input_buffer := b\<rparr>) (w\<lparr>rl_kern := k\<rparr>)"
    have a: "est K N S Q ?rl xy (only_at sd d)" by (rule est_arrived [OF conjunct1 [OF i] b k])
    have bk': "bounded K N S (rl_kern ?rl)" using bk by simp
    have "\<exists>rl'. (case sd of Front \<Rightarrow> om ne | Back \<Rightarrow> call ne BackMessage) ?rl = Inr rl' \<and>
        inside K ?rl rl' \<and> est K N S Q rl' xy (\<lambda>_. [])"
      using front_law [OF ne bk'] back_law [OF ne bk'] a by (cases sd) auto
    then obtain rl' where r: "(case sd of Front \<Rightarrow> om ne | Back \<Rightarrow> call ne BackMessage) ?rl = Inr rl'"
      "inside K ?rl rl'" "est K N S Q rl' xy (\<lambda>_. [])" by blast
    with bounded_inside [OF r(2), of N S] bk'
    show "\<exists>rl'. (case sd of Front \<Rightarrow> om ne | Back \<Rightarrow> call ne BackMessage) ?rl = Inr rl' \<and>
      (est K N S Q rl' xy (\<lambda>_. []) \<and> bounded K N S (rl_kern rl')) \<and> inside K ?rl rl'" by blast
  qed (use e bd c0 in auto)
qed

lemma read_dialling:
  assumes ne: "net_ok ne K" and e: "dialling K N D rl" and bd: "bounded K N S (rl_kern rl)"
  shows "\<exists>rl'. relay_do (relay_env ne (call ne) (om ne) (oc ne) (cl ne)) (Readable Front) rl = Some (Inr rl') \<and>
    dialling K N D rl' \<and> bounded K N S (rl_kern rl')"
proof -
  obtain c0 where c0: "rl_conns rl Front = Some c0" by (rule diallingE [OF e])
  show ?thesis
  proof (rule relay_read [where I = "\<lambda>rl. dialling K N D rl \<and> bounded K N S (rl_kern rl)", OF ne refl])
    fix rl k assume "dialling K N D rl \<and> bounded K N S (rl_kern rl)" "same_view K (rl_kern rl) k"
    then show "dialling K N D (rl\<lparr>rl_kern := k\<rparr>) \<and> bounded K N S (rl_kern (rl\<lparr>rl_kern := k\<rparr>))"
      by (auto simp: same_view_def bounded_def intro: dialling_kern)
  next
    fix rl c assume i: "dialling K N D rl \<and> bounded K N S (rl_kern rl)" "rl_conns rl Front = Some c"
    show "buffer_inv (input_buffer c) \<and> N \<le> room (input_buffer c) + length (vw_taken K (rl_kern rl) (conn_fd c)) \<and>
      (Front = Front \<and> handler c = Some () \<or> Front = Back \<and> handler c = None \<and> message_callback c = Some BackMessage)"
      by (rule diallingE [OF conjunct1 [OF i(1)]]) (use i(2) in \<open>simp add: wired_def\<close>)
  next
    fix c w d ds b k
    assume i: "dialling K N D (rl_put Front c w) \<and> bounded K N S (rl_kern (rl_put Front c w))"
      and b: "buffer_inv b" "content b = content (input_buffer c) @ d" "room (input_buffer c) - length d \<le> room b"
      and k: "vw_sent K k = vw_sent K (rl_kern w)"
        "vw_taken K k = (vw_taken K (rl_kern w))(conn_fd c := vw_taken K (rl_kern w) (conn_fd c) @ d)"
      and bk: "bounded K N S k"
    let ?rl = "rl_put Front (c\<lparr>input_buffer := b\<rparr>) (w\<lparr>rl_kern := k\<rparr>)"
    have a: "dialling K N D ?rl" by (rule dialling_arrived [OF conjunct1 [OF i] b k])
    obtain b2 where "rl_conns ?rl Back = Some b2" "tcp_state b2 = kConnecting" "D (rl_app ?rl)"
      by (rule diallingE [OF a])
    from hold_law [OF this(3) _ this(1,2), of ne] obtain h where h: "om ne ?rl = Inr (?rl\<lparr>rl_app := h\<rparr>)" "D h"
      by auto
    have "dialling K N D (?rl\<lparr>rl_app := h\<rparr>)" by (rule dialling_app [OF a h(2)])
    moreover have "inside K ?rl (?rl\<lparr>rl_app := h\<rparr>)" by (simp add: inside_def)
    ultimately show "\<exists>rl'. (case Front of Front \<Rightarrow> om ne | Back \<Rightarrow> call ne BackMessage) ?rl = Inr rl' \<and>
      (dialling K N D rl' \<and> bounded K N S (rl_kern rl')) \<and> inside K ?rl rl'"
      using h(1) bk by (intro exI [of _ "?rl\<lparr>rl_app := h\<rparr>"]) simp
  qed (use e bd c0 in auto)
qed

text \<open>The invariant, and that no enabled event faults or fails to end.\<close>

lemma step_ok:
  assumes ne: "net_ok ne K" and ev: "enabled K N S rl ev" and bd: "bounded K N S (rl_kern rl)"
    and inv: "dialling K N D rl \<or> relaying K N S Q rl"
  shows "\<exists>rl'. relay_do (relay_env ne (call ne) (om ne) (oc ne) (cl ne)) ev rl = Some (Inr rl') \<and>
    bounded K N S (rl_kern rl') \<and> (dialling K N D rl' \<or> relaying K N S Q rl')"
  using inv
proof (elim disjE)
  assume "relaying K N S Q rl"
  then obtain xy where e: "est K N S Q rl xy (\<lambda>_. [])" unfolding relaying_def by blast
  show ?thesis
  proof (cases ev)
    case (Arrive k)
    with ev have k: "vw_sent K k = vw_sent K (rl_kern rl)" "vw_taken K k = vw_taken K (rl_kern rl)" "bounded K N S k"
      by (simp_all add: enabled_def)
    from relayingI [OF est_kern [OF e k(1,2)]] k(3) Arrive show ?thesis by auto
  next
    case (Readable sd)
    with read_est [OF ne e bd, of sd] show ?thesis using relayingI by blast
  next
    case (Writable sd)
    from est_write [OF ne flow_law e, where sd = sd and om = "om ne" and oc = "oc ne" and cl = "cl ne"] obtain rl' where
      r: "on_conn sd (handleWrite (relay_env ne (call ne) (om ne) (oc ne) (cl ne) sd)) rl = Inr rl'" "inside K rl rl'"
        "est K N S Q rl' xy (\<lambda>_. [])" by blast
    with Writable bounded_inside [OF r(2), of N S] bd relayingI [OF r(3)] show ?thesis by auto
  qed
next
  assume di: "dialling K N D rl"
  show ?thesis
  proof (cases ev)
    case (Arrive k)
    with ev have k: "vw_sent K k = vw_sent K (rl_kern rl)" "vw_taken K k = vw_taken K (rl_kern rl)" "bounded K N S k"
      by (simp_all add: enabled_def)
    from dialling_kern [OF di k(1,2)] k(3) Arrive show ?thesis by auto
  next
    case (Readable sd)
    obtain b where "rl_conns rl Back = Some b" "tcp_state b = kConnecting" "\<not> isReading (conn_channel b)"
      by (rule diallingE [OF di])
    then have "sd = Front" using ev Readable by (cases sd) (auto simp: enabled_def)
    with Readable read_dialling [OF ne di bd] show ?thesis by auto
  next
    case (Writable sd)
    show ?thesis
    proof (cases sd)
      case Front
      with Writable dialling_front_write [OF ne di lifts_relay_env] di bd show ?thesis by auto
    next
      case Back
      let ?e = "relay_env ne (call ne) (om ne) (oc ne) (cl ne)"
      obtain rl1 z where 1: "on_conn Back (handleWrite (?e Back)) rl =
          bind_res (bind_res (call ne BackConnection rl1) (rl_take Back)) (\<lambda>(c, w). Inr (rl_put Back c w))"
        "inside K rl rl1" "est K N S (\<lambda>h xy. D h) rl1 ([], []) (only_at Front z)" "unsent K Back rl1"
        by (rule dialling_connected [OF ne di refl])
      have b1: "bounded K N S (rl_kern rl1)" using bounded_inside [OF 1(2), of N S] bd by simp
      from connect_law [OF ne b1 1(3,4)] obtain rl' xy where
        2: "call ne BackConnection rl1 = Inr rl'" "inside K rl1 rl'" "est K N S Q rl' xy (\<lambda>_. [])" by blast
      obtain c where "rl_conns rl' Back = Some c" by (rule estE [OF 2(3), where sd = Back])
      then have "on_conn Back (handleWrite (?e Back)) rl = Inr rl'"
        by (simp add: 1(1) 2(1) rl_take_def rl_put_same)
      moreover have "bounded K N S (rl_kern rl')" using bounded_inside [OF 2(2), of N S] b1 by simp
      ultimately show ?thesis using Writable Back relayingI [OF 2(3)] by auto
    qed
  qed
qed

lemma reach_ok:
  assumes "relay_reach (relay_env ne (call ne) (om ne) (oc ne) (cl ne)) K N S rl0 rl"
    and "net_ok ne K" and "bounded K N S (rl_kern rl0)" and "dialling K N D rl0"
  shows "bounded K N S (rl_kern rl) \<and> (dialling K N D rl \<or> relaying K N S Q rl)"
  using assms(1)
proof induction
  case relay_start
  with assms show ?case by blast
next
  case (relay_more rl ev rl')
  from step_ok [OF assms(2) relay_more.hyps(2)] relay_more show ?case by auto
qed

end

subsection \<open>A kernel for the witnesses\<close>

text \<open>What was sent, taken, and is to come, on each descriptor; at most three bytes per \<open>::write\<close>.\<close>

type_synonym demo = "(fd \<Rightarrow> bytes) \<times> (fd \<Rightarrow> bytes) \<times> (fd \<Rightarrow> bytes list)"

definition demo_net :: "demo net_env" where
  "demo_net = \<lparr>net_write = (\<lambda>f data (s, t, i). (of_nat (min 3 (length data)), 0, (s(f := s f @ take 3 data), t, i))),
     net_readv = (\<lambda>f lens (s, t, i). case i f of [] \<Rightarrow> (Inl EAGAIN, (s, t, i))
       | d # ds \<Rightarrow> (Inr d, (s, t(f := t f @ d), i(f := ds)))),
     net_so_error = (\<lambda>f k. (0, 0, k)), net_close = (\<lambda>f k. k), net_epoll = (\<lambda>op f ev k. (None, k)),
     net_looping = (\<lambda>k. True), net_in_loop = (\<lambda>k. True), net_calling = (\<lambda>k. False),
     net_socket = (\<lambda>k. (9, k)), net_nonblock = (\<lambda>f k. k), net_connect = (\<lambda>f a k. (- 1, EINPROGRESS, k)),
     net_addr = (\<lambda>k. 1)\<rparr>"

definition demo_view :: "demo view" where
  "demo_view = \<lparr>vw_sent = fst, vw_taken = fst \<circ> snd, vw_incoming = snd \<circ> snd\<rparr>"

lemma demo_net_ok: "net_ok demo_net demo_view"
proof -
  have "sint (word_of_nat (min 3 l) :: ssize_t) = int (min 3 l)" for l
  proof -
    have "min 3 l = 0 \<or> min 3 l = 1 \<or> min 3 l = 2 \<or> min 3 l = 3" by linarith
    then show ?thesis by (elim disjE) simp_all
  qed
  then show ?thesis
    by (auto simp: net_ok_def demo_net_def demo_view_def same_view_def min_def split: list.split)
qed

definition demo_front :: relay_conn where
  "demo_front = \<lparr>conn_name = ''conn_7'', conn_fd = 7, peer_addr = InetAddress (127, 0, 0, 1) 0,
     conn_channel = (new_Channel 7)\<lparr>ch_events := EPOLLIN\<rparr>,
     input_buffer = \<lparr>storage = replicate 64 (CHR 0x00), readerIndex = 8, writerIndex = 8\<rparr>,
     output_buffer = \<lparr>storage = replicate 64 (CHR 0x00), readerIndex = 8, writerIndex = 8\<rparr>,
     tcp_state = kConnected, handler = Some (), connection_callback = None, message_callback = None,
     write_complete_callback = None, high_water_mark_callback = None, conn_close_callback = Some ServerRemove,
     high_water_mark = backend_mark\<rparr>"

definition demo_start :: "'h \<Rightarrow> ('h, demo) relay" where
  "demo_start h = \<lparr>rl_conns = (\<lambda>_. None)(Front := Some demo_front), rl_app = h, rl_posted = [], rl_removed = False,
     rl_kern = (\<lambda>_. [], \<lambda>_. [], \<lambda>_. [])\<rparr>"

lemma demo_start_ok:
  "rl_conns (demo_start h) Front = Some demo_front" "rl_conns (demo_start h) Back = None" "rl_app (demo_start h) = h"
  "conn_fd demo_front = 7" "N \<le> 100 \<Longrightarrow> fresh_front demo_view N (rl_kern (demo_start h)) demo_front"
  "vw_sent demo_view (rl_kern (demo_start h)) f = []" "vw_taken demo_view (rl_kern (demo_start h)) f = []"
  "S \<le> N \<Longrightarrow> bounded demo_view N S (rl_kern (demo_start h))"
  by (auto simp: demo_start_def demo_front_def demo_view_def fresh_front_def buffer_inv_def content_def readableBytes_def
      vector_max_size_def room_def bounded_def isWriting_def epoll_masks)

text \<open>Dialled, and the client's first bytes on their way.\<close>

lemma demo_dialled:
  assumes "wire = backend_setup \<or> wire = (\<lambda>b. setConnCloseCallback cb (backend_setup b))" and "D h" and "lifts demo_net e"
    and "S \<le> 50"
  obtains rl where "rl_open e 9 addr wire (demo_start h) = Inr rl" "dialling demo_view 100 D rl"
    "bounded demo_view 100 S (rl_kern rl)" "enabled demo_view 100 S rl (Arrive ((\<lambda>_. [], \<lambda>_. [], (\<lambda>_. [])(7 := [''GET / ''])) :: demo))"
proof -
  have "\<exists>rl. rl_open e 9 addr wire (demo_start h) = Inr rl \<and> dialling demo_view 100 D rl \<and> rl_app rl = rl_app (demo_start h) \<and>
    same_view demo_view (rl_kern (demo_start h)) (rl_kern rl)"
    by (rule rl_open_dialling [OF demo_net_ok assms(3) demo_start_ok(1,2)])
      (use assms in \<open>simp_all add: demo_start_ok vector_max_size_def\<close>)
  then obtain rl where rl: "rl_open e 9 addr wire (demo_start h) = Inr rl" "dialling demo_view 100 D rl"
    "same_view demo_view (rl_kern (demo_start h)) (rl_kern rl)" by blast
  have "bounded demo_view 100 S (rl_kern rl)"
    using rl(3) assms(4) demo_start_ok(8) [of S 100 h] by (simp add: same_view_def bounded_def)
  moreover have "enabled demo_view 100 S rl (Arrive ((\<lambda>_. [], \<lambda>_. [], (\<lambda>_. [])(7 := [''GET / ''])) :: demo))"
    using rl(3) assms(4) by (simp add: enabled_def same_view_def demo_view_def bounded_def demo_start_def)
  ultimately show ?thesis using rl(1,2) by (intro that)
qed

end
