(* ===== verification/LbHandler.thy ===== *)
theory LbHandler
  imports RelayApp
begin

text \<open>
  The load balancer's handler (src/app/load_balancer_handler.h, src/app/load_balancer_handler.cpp):
  one per client connection. It picks a backend, dials it, and relays; a timer guards the client's
  first byte and another one idleness. The loop's timers are the service of LoopTimers.thy.
\<close>

subsection \<open>State\<close>

datatype lb_timer = InitialTimeout | IdleTimeout

record lb_handler =
  lbh_load_balancer :: load_balancer
  lbh_backend_connected :: bool
  lbh_first_byte_received :: bool
  lbh_initial_timer_id :: timer_id
  lbh_idle_timer_id :: timer_id
  lbh_timers :: "lb_timer timers"

definition new_LoadBalancerHandler :: "load_balancer \<Rightarrow> lb_timer timers \<Rightarrow> lb_handler" where
  "new_LoadBalancerHandler lb ts = \<lparr>lbh_load_balancer = lb, lbh_backend_connected = False,
     lbh_first_byte_received = False, lbh_initial_timer_id = null_TimerId,
     lbh_idle_timer_id = null_TimerId, lbh_timers = ts\<rparr>"

subsection \<open>Timers\<close>

text \<open>\<open>conn->getLoop()->cancel(...)\<close> and \<open>runAfter\<close>, on the handler's members.\<close>

definition lbh_cancel :: "timer_id \<Rightarrow> lb_handler \<Rightarrow> lb_handler" where
  "lbh_cancel tid h = h\<lparr>lbh_timers := ts_cancel tid (lbh_timers h)\<rparr>"

definition lbh_runAfter :: "nat \<Rightarrow> lb_timer \<Rightarrow> lb_handler \<Rightarrow> timer_id \<times> lb_handler" where
  "lbh_runAfter addr cb h = (case ts_add addr False cb (lbh_timers h) of (tid, ts) \<Rightarrow> (tid, h\<lparr>lbh_timers := ts\<rparr>))"

definition lbh_startIdle :: "nat \<Rightarrow> lb_handler \<Rightarrow> lb_handler" where
  "lbh_startIdle addr h = (case lbh_runAfter addr IdleTimeout h of (tid, h) \<Rightarrow> h\<lparr>lbh_idle_timer_id := tid\<rparr>)"

definition resetIdleTimer :: "nat \<Rightarrow> lb_handler \<Rightarrow> lb_handler" where
  "resetIdleTimer addr h = lbh_startIdle addr (lbh_cancel (lbh_idle_timer_id h) h)"

definition first_message :: "nat \<Rightarrow> lb_handler \<Rightarrow> lb_handler" where
  "first_message addr h =
     (if \<not> lbh_first_byte_received h
      then lbh_startIdle addr ((lbh_cancel (lbh_initial_timer_id h) h)\<lparr>lbh_first_byte_received := True\<rparr>)
      else resetIdleTimer addr h)"

definition lbh_startInitial :: "nat \<Rightarrow> lb_handler \<Rightarrow> lb_handler" where
  "lbh_startInitial addr h = (case lbh_runAfter addr InitialTimeout h of (tid, h) \<Rightarrow> h\<lparr>lbh_initial_timer_id := tid\<rparr>)"

definition lbh_stopTimers :: "lb_handler \<Rightarrow> lb_handler" where
  "lbh_stopTimers h =
     lbh_cancel (if \<not> lbh_first_byte_received h then lbh_initial_timer_id h else lbh_idle_timer_id h) h"

subsection \<open>Operations\<close>

type_synonym 'k lb_relay = "(lb_handler, 'k) relay"

definition lb_onInitialTimeout :: "(lb_handler, 'k) envs \<Rightarrow> (lb_handler, 'k) relay_op" where
  "lb_onInitialTimeout e rl =
     (if \<not> lbh_first_byte_received (rl_app rl) then rl_shutdown e Front rl else Inr rl)"

definition lb_onIdleTimeout :: "(lb_handler, 'k) envs \<Rightarrow> (lb_handler, 'k) relay_op" where
  "lb_onIdleTimeout e = rl_shutdown e Front"

definition lb_setupBackend :: "relay_conn \<Rightarrow> relay_conn" where
  "lb_setupBackend b = setConnCloseCallback BackClose (backend_setup b)"

definition lb_createBackendConnection :: "'k net_env \<Rightarrow> (lb_handler, 'k) envs \<Rightarrow> inet_address
    \<Rightarrow> (lb_handler, 'k) relay_op" where
  "lb_createBackendConnection ne e addr rl =
     (case rl_dial ne addr rl of
        (None, rl) \<Rightarrow> rl_shutdown e Front rl
      | (Some sock, rl) \<Rightarrow> rl_open e sock addr lb_setupBackend rl)"

definition lb_onConnection :: "'k net_env \<Rightarrow> (lb_handler, 'k) envs \<Rightarrow> (lb_handler, 'k) relay_op" where
  "lb_onConnection ne e rl = bind_res (rl_connected Front rl) (\<lambda>connected.
     if connected then
       (let rl = on_app (lbh_startInitial (net_addr ne (rl_kern rl))) rl in
        bind_res (getNextBackend (lbh_load_balancer (rl_app rl))) (\<lambda>(backend, lb).
        let rl = on_app (\<lambda>h. h\<lparr>lbh_load_balancer := lb\<rparr>) rl in
        case backend of
          None \<Rightarrow> rl_shutdown e Front rl
        | Some addr \<Rightarrow> rl_runInLoop ne (CreateBackend addr '''') (lb_createBackendConnection ne e addr) rl))
     else Inr rl)"

definition lb_onMessage :: "'k net_env \<Rightarrow> (lb_handler, 'k) envs \<Rightarrow> (lb_handler, 'k) relay_op" where
  "lb_onMessage ne e rl =
     (let rl = on_app (first_message (net_addr ne (rl_kern rl))) rl in
      if rl_conns rl Back \<noteq> None \<and> lbh_backend_connected (rl_app rl) then rl_pass e Front rl else Inr rl)"

definition lb_onClose :: "(lb_handler, 'k) envs \<Rightarrow> (lb_handler, 'k) relay_op" where
  "lb_onClose e rl =
     (let rl = on_app lbh_stopTimers rl in
      if rl_conns rl Back \<noteq> None then bind_res (rl_shutdown e Back rl) (rl_reset e) else Inr rl)"

text \<open>The closures of \<open>setupBidirectionalRelay\<close>.\<close>

definition lb_backMessage :: "'k net_env \<Rightarrow> (lb_handler, 'k) envs \<Rightarrow> (lb_handler, 'k) relay_op" where
  "lb_backMessage ne e rl = bind_res (rl_connected Front rl) (\<lambda>connected.
     let rl = on_app (resetIdleTimer (net_addr ne (rl_kern rl))) rl in
     if connected then rl_pass e Back rl
     else (case rl_conns rl Back of None \<Rightarrow> Inl UseAfterFree
       | Some b \<Rightarrow> Inr (rl_put Back (b\<lparr>input_buffer := retrieveAll (input_buffer b)\<rparr>) rl)))"

definition lb_backConnection :: "(lb_handler, 'k) envs \<Rightarrow> (lb_handler, 'k) relay_op" where
  "lb_backConnection e rl = bind_res (rl_connected Back rl) (\<lambda>connected.
     if connected then
       (let rl = on_app (\<lambda>h. h\<lparr>lbh_backend_connected := True\<rparr>) rl in
        case rl_conns rl Front of None \<Rightarrow> Inl UseAfterFree
        | Some f \<Rightarrow> if 0 < readableBytes (input_buffer f) then rl_pass e Front rl else Inr rl)
     else rl_shutdown e Front rl)"

fun lb_call :: "'k net_env \<Rightarrow> (lb_handler, 'k) envs \<Rightarrow> relay_cb \<Rightarrow> (lb_handler, 'k) relay_op" where
  "lb_call ne e BackMessage rl = lb_backMessage ne e rl"
| "lb_call ne e BackConnection rl = lb_backConnection e rl"
| "lb_call ne e BackClose rl = rl_shutdown e Front rl"
| "lb_call ne e (HighWater sd) rl = flow_call e sd False rl"
| "lb_call ne e (WriteComplete sd) rl = flow_call e sd True rl"
| "lb_call ne e ServerRemove rl = Inr (rl\<lparr>rl_removed := True\<rparr>)"

text \<open>The environments, by how deep calls nest; events run in \<open>lb_env ne (Suc (Suc n))\<close>.\<close>

primrec lb_env :: "'k net_env \<Rightarrow> nat \<Rightarrow> (lb_handler, 'k) envs" where
  "lb_env ne 0 = leaf_env ne"
| "lb_env ne (Suc n) = relay_env ne (lb_call ne (lb_env ne n)) (lb_onMessage ne (lb_env ne n))
     (lb_onConnection ne (lb_env ne n)) (lb_onClose (lb_env ne n))"

text \<open>
  The expiry of a timer, and the stored functors, as the loop runs them. A timer's closure holds the
  handler, which lives as long as the front connection.
\<close>

definition lb_expire :: "(lb_handler, 'k) envs \<Rightarrow> timer_id \<Rightarrow> (lb_handler, 'k) relay_op" where
  "lb_expire e tid rl = (case pending (lbh_timers (rl_app rl)) tid of
     None \<Rightarrow> Inr rl
   | Some (_, cb) \<Rightarrow> if rl_conns rl Front = None then Inl UseAfterFree else (let rl = on_app (\<lambda>h. h\<lparr>lbh_timers := ts_fire tid (lbh_timers h)\<rparr>) rl in
       case cb of InitialTimeout \<Rightarrow> lb_onInitialTimeout e rl | IdleTimeout \<Rightarrow> lb_onIdleTimeout e rl))"

fun lb_run_task :: "'k net_env \<Rightarrow> (lb_handler, 'k) envs \<Rightarrow> relay_task \<Rightarrow> (lb_handler, 'k) relay_op" where
  "lb_run_task ne e (ConnTask sd t) rl = on_conn sd (run_task (e sd) t) rl"
| "lb_run_task ne e (CreateBackend addr text) rl = lb_createBackendConnection ne e addr rl"

subsection \<open>The handler keeps the contract\<close>

lemma lifts_lb_env [simp]: "lifts ne (lb_env ne n)"
  by (cases n) simp_all

lemma lb_flow_calls: "flow_calls ne (lb_call ne (lb_env ne n))"
  unfolding flow_calls_def by (intro exI [of _ "lb_env ne n"]) (auto simp: fun_eq_iff)

lemma timer_frame [simp]:
  "lbh_backend_connected (first_message addr h) = lbh_backend_connected h"
  "lbh_backend_connected (resetIdleTimer addr h) = lbh_backend_connected h"
  by (simp_all add: first_message_def resetIdleTimer_def lbh_startIdle_def lbh_runAfter_def lbh_cancel_def ts_add_def)

abbreviation lb_Q :: "lb_handler \<Rightarrow> bytes \<times> bytes \<Rightarrow> bool" where
  "lb_Q h xy \<equiv> lbh_backend_connected h \<and> xy = ([], [])"

lemma lb_pass:
  assumes "net_ok ne K" and "est K N S lb_Q rl xy (only_at sd z)" and "bounded K N S (rl_kern rl)"
  shows "\<exists>rl'. rl_pass (lb_env ne (Suc n)) sd rl = Inr rl' \<and> inside K rl rl' \<and> est K N S lb_Q rl' xy (\<lambda>_. [])"
  using est_pass [OF assms(1) lb_flow_calls assms(2,3), where sd = sd and n1 = n and om = "lb_onMessage ne (lb_env ne n)"
      and oc = "lb_onConnection ne (lb_env ne n)" and cl = "lb_onClose (lb_env ne n)"] by auto

interpretation lb_relay: relay_app "\<lambda>ne. lb_call ne (lb_env ne (Suc n))" "\<lambda>ne. lb_onMessage ne (lb_env ne (Suc n))"
    "\<lambda>ne. lb_onConnection ne (lb_env ne (Suc n))" "\<lambda>ne. lb_onClose (lb_env ne (Suc n))"
    "\<lambda>h. \<not> lbh_backend_connected h" lb_Q 0 for n
proof (unfold_locales, goal_cases)
  case (1 ne)
  show ?case by (rule lb_flow_calls)
next
  case (2 rl b ne)
  then show ?case
    by (intro exI [of _ "first_message (net_addr ne (rl_kern rl)) (rl_app rl)"]) (simp add: lb_onMessage_def on_app_def)
next
  case (3 ne K N rl z)
  let ?rl = "on_app (\<lambda>h. h\<lparr>lbh_backend_connected := True\<rparr>) rl"
  have e: "est K N 0 lb_Q ?rl ([], []) (only_at Front z)" by (rule est_on_app [OF 3(3)]) simp
  obtain f b where fb: "rl_conns rl Front = Some f" "rl_conns rl Back = Some b" "buffer_inv (input_buffer f)"
    "content (input_buffer f) = z" "tcp_state b = kConnected"
    by (rule estE [OF 3(3), where sd = Front]) (auto simp: pipe_def out_inv_def only_at_def)
  show ?case
  proof (cases "z = []")
    case True
    then have "lb_backConnection (lb_env ne (Suc n)) rl = Inr ?rl"
      using fb content_empty_iff [OF fb(3)] by (simp add: lb_backConnection_def rl_connected_def)
    moreover have "inside K rl ?rl" by (simp add: inside_def)
    ultimately show ?thesis using e True by (intro exI [of _ ?rl] exI [of _ "([], [])"]) simp
  next
    case False
    then have pos: "0 < readableBytes (input_buffer f)"
      using fb(4) content_empty_iff [OF fb(3)] by (simp add: word_greater_zero_iff)
    from lb_pass [OF 3(1) e] 3(2) obtain rl' where
      r: "rl_pass (lb_env ne (Suc n)) Front ?rl = Inr rl'" "inside K ?rl rl'" "est K N 0 lb_Q rl' ([], []) (\<lambda>_. [])"
      by auto
    have "lb_backConnection (lb_env ne (Suc n)) rl = Inr rl'"
      using fb pos r(1) by (simp add: lb_backConnection_def rl_connected_def del: lb_env.simps)
    then show ?thesis using r(2,3)
      by (intro exI [of _ rl'] exI [of _ "([], [])"]) (simp add: inside_on_app del: lb_env.simps)
  qed
next
  case (4 ne K N rl xy z)
  let ?rl = "on_app (first_message (net_addr ne (rl_kern rl))) rl"
  have e: "est K N 0 lb_Q ?rl xy (only_at Front z)" by (rule est_on_app [OF 4(3)]) (use 4(3) in \<open>simp add: est_def\<close>)
  have "rl_conns rl Back \<noteq> None" "lbh_backend_connected (rl_app rl)" using 4(3) by (auto simp: est_def)
  moreover from lb_pass [OF 4(1) e] 4(2) obtain rl' where
    "rl_pass (lb_env ne (Suc n)) Front ?rl = Inr rl'" "inside K ?rl rl'" "est K N 0 lb_Q rl' xy (\<lambda>_. [])" by auto
  ultimately show ?case by (intro exI [of _ rl']) (simp add: lb_onMessage_def inside_on_app Let_def del: lb_env.simps)
next
  case (5 ne K N rl xy z)
  let ?rl = "on_app (resetIdleTimer (net_addr ne (rl_kern rl))) rl"
  have e: "est K N 0 lb_Q ?rl xy (only_at Back z)" by (rule est_on_app [OF 5(3)]) (use 5(3) in \<open>simp add: est_def\<close>)
  obtain f where "rl_conns rl Front = Some f" "tcp_state f = kConnected"
    by (rule estE [OF 5(3), where sd = Back]) (auto simp: pipe_def out_inv_def)
  moreover from lb_pass [OF 5(1) e] 5(2) obtain rl' where
    "rl_pass (lb_env ne (Suc n)) Back ?rl = Inr rl'" "inside K ?rl rl'" "est K N 0 lb_Q rl' xy (\<lambda>_. [])" by auto
  ultimately show ?case
    by (intro exI [of _ rl']) (simp add: lb_backMessage_def rl_connected_def inside_on_app Let_def del: lb_env.simps)
qed

subsection \<open>Properties\<close>

lemma lb_reach_exact:
  assumes "net_ok ne K" and "bounded K N 0 (rl_kern rl0)"
    and "dialling K N (\<lambda>h. \<not> lbh_backend_connected h) rl0"
    and "relay_reach (lb_env ne (Suc (Suc n))) K N 0 rl0 rl"
  shows "(\<exists>f b. rl_conns rl Front = Some f \<and> rl_conns rl Back = Some b \<and>
      vw_sent K (rl_kern rl) (conn_fd b) @ content (output_buffer b) @ content (input_buffer f) =
        vw_taken K (rl_kern rl) (conn_fd f) \<and>
      vw_sent K (rl_kern rl) (conn_fd f) @ content (output_buffer f) @ content (input_buffer b) =
        vw_taken K (rl_kern rl) (conn_fd b) \<and>
      (tcp_state b = kConnected \<or> vw_sent K (rl_kern rl) (conn_fd b) = [])) \<and>
    (\<forall>ev. enabled K N 0 rl ev \<longrightarrow> (\<exists>rl'. relay_do (lb_env ne (Suc (Suc n))) ev rl = Some (Inr rl')))"
proof -
  note inv = lb_relay.reach_ok [where n = n, folded lb_env.simps(2), OF assms(4,1-3)]
  have "\<exists>rl'. relay_do (lb_env ne (Suc (Suc n))) ev rl = Some (Inr rl')" if "enabled K N 0 rl ev" for ev
    using lb_relay.step_ok [where n = n, folded lb_env.simps(2), OF assms(1) that] inv by blast
  moreover from inv have "dialling K N (\<lambda>h. \<not> lbh_backend_connected h) rl \<or> relaying K N 0 lb_Q rl" by blast
  then have "\<exists>f b. rl_conns rl Front = Some f \<and> rl_conns rl Back = Some b \<and>
      vw_sent K (rl_kern rl) (conn_fd b) @ content (output_buffer b) @ content (input_buffer f) =
        vw_taken K (rl_kern rl) (conn_fd f) \<and>
      vw_sent K (rl_kern rl) (conn_fd f) @ content (output_buffer f) @ content (input_buffer b) =
        vw_taken K (rl_kern rl) (conn_fd b) \<and>
      (tcp_state b = kConnected \<or> vw_sent K (rl_kern rl) (conn_fd b) = [])"
  proof
    assume "relaying K N 0 lb_Q rl"
    then obtain xy where e: "est K N 0 lb_Q rl xy (\<lambda>_. [])" by (auto simp: relaying_def)
    then have "xy = ([], [])" by (simp add: est_def)
    with e show ?thesis
      by (elim estE [where sd = Front]) (auto simp: pipe_def out_inv_def opening_of_def)
  qed (auto simp: dialling_def)
  ultimately show ?thesis by blast
qed

text \<open>
  C2. The load balancer relays both ways without loss: from the moment the backend is being dialled,
  over any history of arrivals, readable and writable events on both sockets, with partial writes,
  full socket buffers and flow control in any pattern, what the backend was sent, what waits to be
  sent to it and what waits in the client's input buffer is what the client has sent, in order, and
  the same the other way; nothing goes to the backend before it is connected; and every event is
  handled to its end without a fault.
\<close>

theorem lb_relays_both_ways:
  assumes "net_ok ne K" and "bounded K N 0 (rl_kern rl0)"
    and "dialling K N (\<lambda>h. \<not> lbh_backend_connected h) rl0"
    and "relay_reach (lb_env ne (Suc (Suc n))) K N 0 rl0 rl"
  shows "(\<exists>f b. rl_conns rl Front = Some f \<and> rl_conns rl Back = Some b \<and>
      vw_sent K (rl_kern rl) (conn_fd b) @ content (output_buffer b) @ content (input_buffer f) =
        vw_taken K (rl_kern rl) (conn_fd f) \<and>
      vw_sent K (rl_kern rl) (conn_fd f) @ content (output_buffer f) @ content (input_buffer b) =
        vw_taken K (rl_kern rl) (conn_fd b) \<and>
      (tcp_state b = kConnected \<or> vw_sent K (rl_kern rl) (conn_fd b) = [])) \<and>
    (\<forall>ev. enabled K N 0 rl ev \<longrightarrow> (\<exists>rl'. relay_do (lb_env ne (Suc (Suc n))) ev rl = Some (Inr rl')))"
  by (rule lb_reach_exact [OF assms])

text \<open>
  C36. A client that leaves takes the process down: closing the front connection runs \<open>onClose\<close>, which
  marks the backend connection as disconnecting and drops the last reference to it, and its destructor
  asserts that it is disconnected.
\<close>

theorem lb_client_close_aborts:
  assumes "\<forall>k. net_in_loop ne k" and "rl_conns rl Front = Some f" and "handler f = Some ()"
    and "tcp_state f = kConnected \<or> tcp_state f = kDisConnecting"
    and "rl_conns rl Back = Some b" and "tcp_state b \<noteq> kDisConnected"
  shows "on_conn Front (handleClose (lb_env ne (Suc n) Front)) rl = Inl AssertFail"
  unfolding lb_env.simps
proof (rule front_close_fault [OF assms(1-4)])
  fix rl' :: "'a lb_relay" assume "rl_conns rl' Back = rl_conns rl Back"
  then have "rl_conns rl' Back = Some b" using assms(5) by simp
  then show "lb_onClose (lb_env ne n) rl' = Inl AssertFail"
    using assms(1,6) by (auto simp: lb_onClose_def Let_def rl_shutdown_def on_conn_def rl_take_def shutdown_def
        shutdownInLoop_def in_loop_def set_state_def rl_reset_def tcp_destroy_def lifts_fields [OF lifts_lb_env])
qed

text \<open>A handler, and a relay that dials, for the witnesses.\<close>

definition demo_lbh :: lb_handler where
  "demo_lbh = new_LoadBalancerHandler \<lparr>all_backends_set = [InetAddress (10, 0, 0, 1) 80],
     healthy_backends = [InetAddress (10, 0, 0, 1) 80], next_index = 0\<rparr> new_timers"

theorem lb_relays_both_ways_witness:
  "\<exists>rl rl' rl''. rl_open (leaf_env demo_net) 9 (InetAddress (10, 0, 0, 1) 80) lb_setupBackend (demo_start demo_lbh) = Inr rl \<and>
     relay_do (lb_env demo_net 2) (Arrive (\<lambda>_. [], \<lambda>_. [], (\<lambda>_. [])(7 := [''GET / '']))) rl = Some (Inr rl') \<and>
     relay_do (lb_env demo_net 2) (Readable Front) rl' = Some (Inr rl'')"
proof -
  let ?k = "(\<lambda>_. [], \<lambda>_. [], (\<lambda>_. [])(7 := [''GET / ''])) :: demo"
  have nc: "\<not> lbh_backend_connected demo_lbh" by (simp add: demo_lbh_def new_LoadBalancerHandler_def)
  have w: "lb_setupBackend = backend_setup \<or> lb_setupBackend = (\<lambda>b. setConnCloseCallback BackClose (backend_setup b))"
    by (simp add: lb_setupBackend_def fun_eq_iff)
  obtain rl where rl: "rl_open (leaf_env demo_net) 9 (InetAddress (10, 0, 0, 1) 80) lb_setupBackend (demo_start demo_lbh) = Inr rl"
    "dialling demo_view 100 (\<lambda>h. \<not> lbh_backend_connected h) rl" "bounded demo_view 100 0 (rl_kern rl)"
    "enabled demo_view 100 0 rl (Arrive ?k)"
    by (rule demo_dialled [OF w _ lifts_leaf, where D = "\<lambda>h. \<not> lbh_backend_connected h" and h = demo_lbh and S = 0])
      (use nc in simp_all)
  let ?rl' = "rl\<lparr>rl_kern := ?k\<rparr>"
  have step: "relay_do (lb_env demo_net 2) (Arrive ?k) rl = Some (Inr ?rl')" by simp
  have "relay_reach (lb_env demo_net (Suc (Suc 0))) demo_view 100 0 rl ?rl'"
    by (rule relay_more [OF relay_start rl(4)]) simp
  note safe = lb_relays_both_ways [OF demo_net_ok rl(3,2) this]
  have "rl_conns ?rl' Front \<noteq> None \<and> (\<forall>c. rl_conns ?rl' Front = Some c \<longrightarrow> tcp_state c = kConnected)"
    using rl(2) by (auto simp: dialling_def)
  then have "enabled demo_view 100 0 ?rl' (Readable Front)" by (auto simp: enabled_def)
  with safe obtain rl'' where "relay_do (lb_env demo_net (Suc (Suc 0))) (Readable Front) ?rl' = Some (Inr rl'')" by blast
  then show ?thesis using rl(1) step by (intro exI [of _ rl] exI [of _ ?rl'] exI [of _ rl'']) (simp add: numeral_2_eq_2)
qed

definition demo_back :: relay_conn where
  "demo_back = demo_front\<lparr>conn_fd := 9, handler := None, conn_close_callback := Some BackClose\<rparr>"

theorem lb_client_close_aborts_witness:
  "on_conn Front (handleClose (lb_env demo_net 2 Front)) (rl_put Back demo_back (demo_start demo_lbh)) = Inl AssertFail"
proof -
  have "on_conn Front (handleClose (lb_env demo_net (Suc (Suc 0)) Front)) (rl_put Back demo_back (demo_start demo_lbh)) = Inl AssertFail"
    by (rule lb_client_close_aborts [where f = demo_front and b = demo_back])
      (simp_all add: demo_net_def demo_start_def demo_front_def demo_back_def)
  then show ?thesis by (simp add: numeral_2_eq_2)
qed

text \<open>
  Dialling, in the functor phase or outside it: the backend connection exists with its callbacks
  installed and waits to become writable, and nothing has been sent.
\<close>

lemma lb_create_dialling:
  assumes "net_ok ne K" and ne': "ne' = ne \<or> ne' = in_functors ne" and "rl_conns rl Front = Some f" and "rl_conns rl Back = None"
    and "net_socket ne (rl_kern rl) = (sock, k1)" and "0 \<le> sock" and "sock \<noteq> conn_fd f"
    and "net_connect ne sock addr (net_nonblock ne sock k1) = (ret, err, k2)"
    and "0 \<le> ret \<or> err = EINPROGRESS" and "fresh_front K N k2 f"
    and "vw_sent K k2 sock = []" and "vw_taken K k2 sock = []"
    and "N \<le> vector_max_size - 8" and "\<not> lbh_backend_connected (rl_app rl)"
  shows "\<exists>rl'. lb_createBackendConnection ne' (lb_env ne' n) addr rl = Inr rl' \<and>
    dialling K N (\<lambda>h. \<not> lbh_backend_connected h) rl' \<and> rl_app rl' = rl_app rl \<and> same_view K k2 (rl_kern rl')"
proof -
  let ?rl = "rl\<lparr>rl_kern := k2\<rparr>"
  have "\<not> (ret < 0 \<and> err \<noteq> EINPROGRESS)" using assms(9) by auto
  then have dial: "rl_dial ne' addr rl = (Some sock, ?rl)" using assms(5,6,8) ne' by (auto simp: rl_dial_def in_functors_def)
  have e: "lifts ne (lb_env ne' n) \<or> lifts (in_functors ne) (lb_env ne' n)" using ne' lifts_lb_env [of ne' n] by metis
  have "\<exists>rl'. rl_open (lb_env ne' n) sock addr lb_setupBackend ?rl = Inr rl' \<and>
    dialling K N (\<lambda>h. \<not> lbh_backend_connected h) rl' \<and> rl_app rl' = rl_app ?rl \<and> same_view K (rl_kern ?rl) (rl_kern rl')"
    by (rule rl_open_dialling_in [OF assms(1) e, where f = f and cb = BackClose]) (use assms in \<open>auto simp: lb_setupBackend_def fun_eq_iff\<close>)
  with dial show ?thesis by (auto simp: lb_createBackendConnection_def)
qed

subsection \<open>The timers\<close>

text \<open>What a handler does with its timers over its life: data from the client, or from the backend.\<close>

fun lbh_events :: "(side \<times> nat) list \<Rightarrow> lb_handler \<Rightarrow> lb_handler" where
  "lbh_events [] h = h"
| "lbh_events ((Front, addr) # evs) h = lbh_events evs (first_message addr h)"
| "lbh_events ((Back, addr) # evs) h = lbh_events evs (resetIdleTimer addr h)"

text \<open>The timers of others, \<open>p\<close>, and one of the handler's own.\<close>

definition one_timer :: "(timer_id \<Rightarrow> (bool \<times> lb_timer) option) \<Rightarrow> lb_handler \<Rightarrow> bool" where
  "one_timer p h \<longleftrightarrow> lbh_first_byte_received h \<and> p (lbh_idle_timer_id h) = None \<and>
     pending (lbh_timers h) = p(lbh_idle_timer_id h \<mapsto> (False, IdleTimeout)) \<and>
     (\<forall>tid. p tid \<noteq> None \<longrightarrow> snd tid < next_timer (lbh_timers h))"

lemmas lbh_defs = first_message_def resetIdleTimer_def lbh_startIdle_def lbh_startInitial_def lbh_runAfter_def
  lbh_cancel_def lbh_stopTimers_def ts_add_def ts_cancel_def

lemma one_timer_reset:
  assumes "one_timer p h"
  shows "one_timer p (resetIdleTimer addr h)"
proof -
  have lt: "\<And>tid. p tid \<noteq> None \<Longrightarrow> snd tid < next_timer (lbh_timers h)"
    using assms unfolding one_timer_def by blast
  have "p (addr, next_timer (lbh_timers h)) = None" using lt [of "(addr, next_timer (lbh_timers h))"] by fastforce
  moreover have "snd tid < next_timer (lbh_timers h) + 1" if "p tid \<noteq> None" for tid using lt [OF that] by simp
  ultimately show ?thesis using assms unfolding one_timer_def
    by (simp add: lbh_defs fun_upd_idem)
qed

lemma first_message_later: "lbh_first_byte_received h \<Longrightarrow> first_message addr h = resetIdleTimer addr h"
  by (simp add: first_message_def)

lemma one_timer_events: "one_timer p h \<Longrightarrow> one_timer p (lbh_events evs h)"
proof (induction evs h rule: lbh_events.induct)
  case (2 addr evs h)
  then have "lbh_first_byte_received h" by (simp add: one_timer_def)
  with 2 show ?case by (simp add: first_message_later one_timer_reset)
qed (simp_all add: one_timer_reset)

lemma one_timer_stop: "one_timer p h \<Longrightarrow> pending (lbh_timers (lbh_stopTimers h)) = p"
  by (auto simp: one_timer_def lbh_defs fun_eq_iff)

text \<open>The first message, on a handler whose initial timer alone is pending.\<close>

lemma one_timer_first:
  assumes "\<And>tid. pending ts tid \<noteq> None \<Longrightarrow> snd tid < next_timer ts" and "\<not> lbh_first_byte_received h" and "lbh_timers h = ts"
  shows "one_timer (pending ts) (first_message addr' (lbh_startInitial addr h))"
proof -
  have fresh: "pending ts (a, next_timer ts) = None" "pending ts (a, next_timer ts + 1) = None" for a
    using assms(1) [of "(a, next_timer ts)"] assms(1) [of "(a, next_timer ts + 1)"] by fastforce+
  have "snd tid < next_timer ts + 1 + 1" if "pending ts tid \<noteq> None" for tid using assms(1) [OF that] by simp
  with fresh assms(2,3) show ?thesis
    by (simp add: one_timer_def lbh_defs fun_upd_idem)
qed



text \<open>A timer that is pending and that the handler no longer knows.\<close>

definition lost_timer :: "timer_id \<Rightarrow> lb_handler \<Rightarrow> bool" where
  "lost_timer tid h \<longleftrightarrow> lbh_first_byte_received h \<and> pending (lbh_timers h) tid = Some (False, IdleTimeout) \<and>
     snd tid < snd (lbh_idle_timer_id h) \<and> snd (lbh_idle_timer_id h) < next_timer (lbh_timers h)"

lemma lost_timer_reset: "lost_timer tid h \<Longrightarrow> lost_timer tid (resetIdleTimer addr h)"
  by (auto simp: lost_timer_def lbh_defs)

lemma lost_timer_events: "lost_timer tid h \<Longrightarrow> lost_timer tid (lbh_events evs h)"
proof (induction evs h rule: lbh_events.induct)
  case (2 addr evs h)
  then have "lbh_first_byte_received h" by (simp add: lost_timer_def)
  with 2 show ?case by (simp add: first_message_later lost_timer_reset)
qed (simp_all add: lost_timer_reset)

lemma lost_timer_first:
  assumes "\<not> lbh_first_byte_received h" and "snd (lbh_initial_timer_id h) < next_timer (lbh_timers h)"
  shows "lost_timer (a, next_timer (lbh_timers h)) (first_message b (resetIdleTimer a h))"
proof -
  have "(a, next_timer (lbh_timers h)) \<noteq> lbh_initial_timer_id h" using assms(2) by (cases "lbh_initial_timer_id h") simp
  with assms(1) show ?thesis by (auto simp: lost_timer_def lbh_defs)
qed

text \<open>
  When the backend speaks first a timer is lost: the idle timer its data starts is replaced, not
  cancelled, by the client's first message, no later traffic cancels it, and neither does the close.
  When it expires it shuts down a busy connection, or, once the connection is gone, runs on freed
  memory.
\<close>

theorem lb_backend_first_leaks_timer:
  assumes "\<not> lbh_first_byte_received h" and "snd (lbh_initial_timer_id h) < next_timer (lbh_timers h)"
    and "h' = lbh_stopTimers (lbh_events ((Back, a) # (Front, b) # evs) h)"
  shows "pending (lbh_timers h') (a, next_timer (lbh_timers h)) = Some (False, IdleTimeout) \<and>
    (rl_conns rl Front = None \<and> rl_app rl = h' \<longrightarrow>
      lb_expire (lb_env ne n) (a, next_timer (lbh_timers h)) rl = Inl UseAfterFree)"
proof -
  let ?tid = "(a, next_timer (lbh_timers h))"
  have "lost_timer ?tid (lbh_events ((Back, a) # (Front, b) # evs) h)"
    using lost_timer_events [OF lost_timer_first [OF assms(1,2), where a = a and b = b], where evs = evs] by simp
  then have "pending (lbh_timers h') ?tid = Some (False, IdleTimeout)"
    unfolding assms(3) by (auto simp: lost_timer_def lbh_defs)
  then show ?thesis by (simp add: lb_expire_def del: lb_env.simps)
qed

theorem lb_backend_first_leaks_timer_witness:
  "\<exists>h'. h' = lbh_stopTimers (lbh_events [(Back, 3), (Front, 4), (Front, 5)] (lbh_startInitial 2 demo_lbh)) \<and>
     pending (lbh_timers h') (3, 1) = Some (False, IdleTimeout) \<and>
     lb_expire (lb_env demo_net 1) (3, 1) ((demo_start h')\<lparr>rl_conns := \<lambda>_. None\<rparr>) = Inl UseAfterFree"
proof -
  let ?h = "lbh_startInitial 2 demo_lbh" and ?h' = "lbh_stopTimers (lbh_events ((Back, 3) # (Front, 4) # [(Front, 5)]) (lbh_startInitial 2 demo_lbh))"
  have h: "\<not> lbh_first_byte_received ?h" "snd (lbh_initial_timer_id ?h) < next_timer (lbh_timers ?h)"
    "next_timer (lbh_timers ?h) = 1"
    by (simp_all add: lbh_defs demo_lbh_def new_LoadBalancerHandler_def new_timers_def)
  have "rl_conns ((demo_start ?h')\<lparr>rl_conns := \<lambda>_. None\<rparr>) Front = None \<and> rl_app ((demo_start ?h')\<lparr>rl_conns := \<lambda>_. None\<rparr>) = ?h'"
    by (simp add: demo_start_def)
  with lb_backend_first_leaks_timer [OF h(1,2) refl, where a = 3 and b = 4 and evs = "[(Front, 5)]"
      and rl = "(demo_start ?h')\<lparr>rl_conns := \<lambda>_. None\<rparr>" and ne = demo_net and n = 1] show ?thesis
    unfolding h(3) by blast
qed

end
