(* ===== verification/ProxyHandler.thy ===== *)
theory ProxyHandler
  imports RelayApp HttpParse
begin

text \<open>
  The HTTP proxy's handler (src/app/http_proxy_handler.h, src/app/http_proxy_handler.cpp): one per
  client connection. It waits for a request line and a Host header, looks the path up, dials the
  backend, rewrites the Host header of what has arrived until then, and relays. The parsing is in
  HttpParse.thy.
\<close>

subsection \<open>State\<close>

text \<open>\<open>hp_backend_addr\<close> is the address text that the closures of \<open>setupBidirectionalRelay\<close> capture.\<close>

record hp_handler =
  hp_routing_table :: route_map
  hp_waiting_for_initial_data :: bool
  hp_backend_addr :: string

definition new_HttpProxyHandler :: "route_map \<Rightarrow> hp_handler" where
  "new_HttpProxyHandler routing_table =
     \<lparr>hp_routing_table = routing_table, hp_waiting_for_initial_data = True, hp_backend_addr = []\<rparr>"

subsection \<open>Operations\<close>

definition not_found_response :: bytes where
  "not_found_response = ''HTTP/1.1 404 Not Found'' @ CRLF @ ''Content-Length: 0'' @ CRLF @ ''Connection: close'' @ CRLF @ CRLF"

text \<open>The default peer address of the backend connection is that of \<open>InetAddress()\<close>.\<close>

definition hp_createBackendConnection :: "(string \<Rightarrow> ipv4) \<Rightarrow> 'k net_env \<Rightarrow> (hp_handler, 'k) envs \<Rightarrow> inet_address
    \<Rightarrow> string \<Rightarrow> (hp_handler, 'k) relay_op" where
  "hp_createBackendConnection inet_addr ne e backend_addr backend_addr_str rl =
     (case rl_dial ne backend_addr rl of
        (None, rl) \<Rightarrow> Inr rl
      | (Some sock, rl) \<Rightarrow> rl_open e sock (new_InetAddress inet_addr ''127.0.0.1'' 0) backend_setup
          (on_app (\<lambda>h. h\<lparr>hp_backend_addr := backend_addr_str, hp_waiting_for_initial_data := False\<rparr>) rl))"

definition hp_startForwarding :: "(string \<Rightarrow> ipv4) \<Rightarrow> 'k net_env \<Rightarrow> (hp_handler, 'k) envs \<Rightarrow> string
    \<Rightarrow> (hp_handler, 'k) relay_op" where
  "hp_startForwarding inet_addr ne e path rl =
     (case lookup_route (hp_routing_table (rl_app rl)) path of
        None \<Rightarrow> bind_res (rl_send e Front not_found_response rl) (rl_shutdown e Front)
      | Some backend_addr \<Rightarrow>
          (case parse_backend inet_addr backend_addr of
             None \<Rightarrow> Inr rl
           | Some addr \<Rightarrow> rl_runInLoop ne (CreateBackend addr backend_addr)
               (hp_createBackendConnection inet_addr ne e addr backend_addr) rl))"

definition hp_onMessage :: "(string \<Rightarrow> ipv4) \<Rightarrow> 'k net_env \<Rightarrow> (hp_handler, 'k) envs \<Rightarrow> (hp_handler, 'k) relay_op" where
  "hp_onMessage inet_addr ne e rl = (case rl_conns rl Front of None \<Rightarrow> Inl UseAfterFree
     | Some f \<Rightarrow>
         if hp_waiting_for_initial_data (rl_app rl) then
           bind_res (peekAsString (readableBytes (input_buffer f)) (input_buffer f)) (\<lambda>preview.
           bind_res (parseHeader preview ''Host'') (\<lambda>host.
           bind_res (parsePath preview) (\<lambda>path.
           if host = [] \<or> path = [] then Inr rl else hp_startForwarding inet_addr ne e path rl)))
         else (case rl_conns rl Back of None \<Rightarrow> Inr rl
           | Some b \<Rightarrow> if tcp_state b = kConnected then rl_pass e Front rl else Inr rl))"

definition hp_onConnection :: "(hp_handler, 'k) relay_op" where
  "hp_onConnection rl = Inr rl"

definition hp_onClose :: "(hp_handler, 'k) envs \<Rightarrow> (hp_handler, 'k) relay_op" where
  "hp_onClose e = rl_present Back (rl_reset e)"

text \<open>The closures of \<open>setupBidirectionalRelay\<close>.\<close>

definition hp_backMessage :: "(hp_handler, 'k) envs \<Rightarrow> (hp_handler, 'k) relay_op" where
  "hp_backMessage e rl = bind_res (rl_retrieve Back rl) (\<lambda>(response, rl).
     bind_res (rl_connected Front rl) (\<lambda>connected.
     if connected then rl_send e Front response rl else Inr rl))"

definition hp_backConnection :: "(hp_handler, 'k) envs \<Rightarrow> (hp_handler, 'k) relay_op" where
  "hp_backConnection e rl = (case rl_conns rl Front of None \<Rightarrow> Inl UseAfterFree
     | Some f \<Rightarrow>
         if \<exists>b. rl_conns rl Back = Some b \<and> tcp_state b = kConnected then
           (if 0 < readableBytes (input_buffer f) then
              bind_res (rl_retrieve Front rl) (\<lambda>(request, rl).
              bind_res (modifyRequestForBackend request (hp_backend_addr (rl_app rl))) (\<lambda>modified_request.
              rl_send e Back modified_request rl))
            else Inr rl)
         else rl_shutdown e Front rl)"

fun hp_call :: "(hp_handler, 'k) envs \<Rightarrow> relay_cb \<Rightarrow> (hp_handler, 'k) relay_op" where
  "hp_call e BackMessage rl = hp_backMessage e rl"
| "hp_call e BackConnection rl = hp_backConnection e rl"
| "hp_call e BackClose rl = Inl BadFunctionCall"
| "hp_call e (HighWater sd) rl = flow_call e sd False rl"
| "hp_call e (WriteComplete sd) rl = flow_call e sd True rl"
| "hp_call e ServerRemove rl = Inr (rl\<lparr>rl_removed := True\<rparr>)"

text \<open>The environments, by how deep calls nest; events run in \<open>hp_env inet_addr ne (Suc (Suc n))\<close>.\<close>

primrec hp_env :: "(string \<Rightarrow> ipv4) \<Rightarrow> 'k net_env \<Rightarrow> nat \<Rightarrow> (hp_handler, 'k) envs" where
  "hp_env inet_addr ne 0 = leaf_env ne"
| "hp_env inet_addr ne (Suc n) = relay_env ne (hp_call (hp_env inet_addr ne n))
     (hp_onMessage inet_addr ne (hp_env inet_addr ne n)) hp_onConnection (hp_onClose (hp_env inet_addr ne n))"

fun hp_run_task :: "(string \<Rightarrow> ipv4) \<Rightarrow> 'k net_env \<Rightarrow> (hp_handler, 'k) envs \<Rightarrow> relay_task \<Rightarrow> (hp_handler, 'k) relay_op" where
  "hp_run_task inet_addr ne e (ConnTask sd t) rl = on_conn sd (run_task (e sd) t) rl"
| "hp_run_task inet_addr ne e (CreateBackend addr text) rl = hp_createBackendConnection inet_addr ne e addr text rl"

subsection \<open>The handler keeps the contract\<close>

lemma lifts_hp_env [simp]: "lifts ne (hp_env inet_addr ne n)"
  by (cases n) simp_all

lemma hp_flow_calls: "flow_calls ne (hp_call (hp_env inet_addr ne n))"
  unfolding flow_calls_def by (intro exI [of _ "hp_env inet_addr ne n"]) (auto simp: fun_eq_iff)

lemma modify_total:
  "\<exists>y. modifyRequestForBackend x addr = Inr y \<and> length y \<le> length x + (length addr + 8)"
proof (cases "str_find ''Host: '' x 0")
  case None
  then show ?thesis by (simp add: modifyRequestForBackend_def)
next
  case (Some p)
  show ?thesis
  proof (cases "str_find CRLF x p")
    case None
    with Some show ?thesis by (simp add: modifyRequestForBackend_def)
  next
    case (Some q)
    with \<open>str_find ''Host: '' x 0 = Some p\<close> str_find_bound [of "''Host: ''" x 0 p] show ?thesis
      by (simp add: modifyRequestForBackend_def str_replace_def Let_def)
  qed
qed

text \<open>The opening: what had arrived when the backend answered, if anything, and its rewriting.\<close>

definition hp_D :: "string \<Rightarrow> hp_handler \<Rightarrow> bool" where
  "hp_D addr h \<longleftrightarrow> \<not> hp_waiting_for_initial_data h \<and> hp_backend_addr h = addr"

definition hp_Q :: "string \<Rightarrow> hp_handler \<Rightarrow> bytes \<times> bytes \<Rightarrow> bool" where
  "hp_Q addr h xy \<longleftrightarrow> hp_D addr h \<and>
     (if fst xy = [] then snd xy = [] else modifyRequestForBackend (fst xy) addr = Inr (snd xy))"

text \<open>By how much the rewriting may lengthen the request.\<close>

abbreviation hp_S :: "string \<Rightarrow> nat" where
  "hp_S addr \<equiv> length addr + 8"

lemma hp_pass:
  assumes "net_ok ne K" and "est K N S (hp_Q A) rl xy (only_at sd z)" and "bounded K N S (rl_kern rl)"
  shows "\<exists>rl'. rl_pass (hp_env inet_addr ne (Suc n)) sd rl = Inr rl' \<and> inside K rl rl' \<and> est K N S (hp_Q A) rl' xy (\<lambda>_. [])"
  using est_pass [OF assms(1) hp_flow_calls assms(2,3), where sd = sd and n1 = n and inet_addr1 = inet_addr
      and om = "hp_onMessage inet_addr ne (hp_env inet_addr ne n)"
      and oc = hp_onConnection and cl = "hp_onClose (hp_env inet_addr ne n)"] by auto

lemma rl_retrieve_frame:
  assumes "rl_retrieve sd rl = Inr (data, rl1)"
  shows "rl_conns rl1 (other sd) = rl_conns rl (other sd)" "rl_app rl1 = rl_app rl"
  using assms by (auto simp: rl_retrieve_def res_simps split: option.splits)

lemma hp_opening:
  assumes ne: "net_ok ne K" and bd: "bounded K N (hp_S A) (rl_kern rl)"
    and e: "est K N (hp_S A) (\<lambda>h xy. hp_D A h) rl ([], []) (only_at Front z)" and un: "unsent K Back rl" and z: "z \<noteq> []"
  shows "\<exists>rl' y. hp_backConnection (hp_env inet_addr ne (Suc n)) rl = Inr rl' \<and> inside K rl rl' \<and>
    est K N (hp_S A) (hp_Q A) rl' (z, y) (\<lambda>_. [])"
proof -
  let ?e = "hp_env inet_addr ne (Suc n)" 
  have d: "hp_D A (rl_app rl)" using e by (simp add: est_def)
  obtain y where y: "modifyRequestForBackend z A = Inr y" "length y \<le> length z + hp_S A"
    using modify_total by blast
  have "\<exists>rl1 rl'. rl_retrieve Front rl = Inr (only_at Front z Front, rl1) \<and> rl_send ?e (other Front) y rl1 = Inr rl' \<and>
    rl_app rl1 = rl_app rl \<and> rl_app rl' = rl_app rl \<and> inside K rl rl' \<and> est K N (hp_S A) (hp_Q A) rl' (z, y) ((only_at Front z)(Front := []))"
    unfolding hp_env.simps
  proof (rule est_data [where Q' = "hp_Q A" and xy' = "(z, y)" and data = y, OF ne hp_flow_calls e])
    show "(hp_Q A) (rl_app rl) (z, y)" using z d y(1) by (simp add: hp_Q_def hp_D_def)
    show "length (snd (z, y)) \<le> length (fst (z, y)) + hp_S A" using y(2) by simp
    show "opening_of (z, y) (other Front) = opening_of ([], []) (other Front)" by (simp add: opening_of_def)
    fix c b assume cb: "rl_conns rl (other Front) = Some b"
      "pipe K N (rl_kern rl) c b (opening_of ([], []) Front) (only_at Front z Front)"
    have s: "vw_sent K (rl_kern rl) (conn_fd b) = []" "content (output_buffer b) = []"
      using un cb(1) by (simp_all add: unsent_def)
    with cb(2) have t: "vw_taken K (rl_kern rl) (conn_fd c) = z" "N \<le> room (output_buffer b)"
      by (auto simp: pipe_def opening_of_def)
    with boundedD(3) [OF bd, of "conn_fd c"] y(2) s
    show "length y \<le> room (output_buffer b) \<and> (\<exists>r. vw_taken K (rl_kern rl) (conn_fd c) = fst (opening_of (z, y) Front) @ r \<and>
      vw_sent K (rl_kern rl) (conn_fd b) @ content (output_buffer b) @ y = snd (opening_of (z, y) Front) @ r)"
      by (simp add: opening_of_def)
  qed
  then obtain rl1 rl' where r: "rl_retrieve Front rl = Inr (z, rl1)" "rl_send ?e Back y rl1 = Inr rl'"
    "rl_app rl1 = rl_app rl" "inside K rl rl'" "est K N (hp_S A) (hp_Q A) rl' (z, y) (\<lambda>_. [])" by auto
  obtain f b where fb: "rl_conns rl Front = Some f" "rl_conns rl Back = Some b" "buffer_inv (input_buffer f)"
    "content (input_buffer f) = z" "tcp_state b = kConnected"
    by (rule estE [OF e, where sd = Front]) (auto simp: pipe_def out_inv_def)
  have "0 < readableBytes (input_buffer f)"
    using fb(4) z content_empty_iff [OF fb(3)] by (simp add: word_greater_zero_iff)
  then have "hp_backConnection ?e rl = Inr rl'"
    using fb r(1-3) y(1) d by (simp add: hp_backConnection_def hp_D_def del: hp_env.simps)
  with r(4,5) show ?thesis by blast
qed

interpretation hp_relay: relay_app "\<lambda>ne. hp_call (hp_env inet_addr ne (Suc n))" "\<lambda>ne. hp_onMessage inet_addr ne (hp_env inet_addr ne (Suc n))"
    "\<lambda>ne. hp_onConnection" "\<lambda>ne. hp_onClose (hp_env inet_addr ne (Suc n))" "hp_D A" "hp_Q A" "hp_S A" for inet_addr n A
proof (unfold_locales, goal_cases)
  case (1 ne)
  show ?case by (rule hp_flow_calls)
next
  case (2 rl b ne)
  then show ?case
    by (intro exI [of _ "rl_app rl"]) (auto simp: hp_onMessage_def hp_D_def)
next
  case (3 ne K N rl z)
  show ?case
  proof (cases "z = []")
    case True
    obtain f b where fb: "rl_conns rl Front = Some f" "rl_conns rl Back = Some b" "buffer_inv (input_buffer f)"
      "content (input_buffer f) = z" "tcp_state b = kConnected"
      by (rule estE [OF 3(3), where sd = Front]) (auto simp: pipe_def out_inv_def)
    then have "hp_backConnection (hp_env inet_addr ne (Suc n)) rl = Inr rl"
      using True content_empty_iff [OF fb(3)] by (simp add: hp_backConnection_def)
    moreover have "est K N (hp_S A) (hp_Q A) rl ([], []) (\<lambda>_. [])"
      using 3(3) True by (simp add: est_def hp_Q_def hp_D_def)
    moreover have "inside K rl rl" by (simp add: inside_def)
    ultimately show ?thesis by (intro exI [of _ rl] exI [of _ "([], [])"]) simp
  next
    case False
    from hp_opening [OF 3(1-4) False] obtain rl' y where
      "hp_backConnection (hp_env inet_addr ne (Suc n)) rl = Inr rl'" "inside K rl rl'" "est K N (hp_S A) (hp_Q A) rl' (z, y) (\<lambda>_. [])" by blast
    then show ?thesis by (intro exI [of _ rl'] exI [of _ "(z, y)"]) (simp del: hp_env.simps)
  qed
next
  case (4 ne K N rl xy z)
  obtain f b where "rl_conns rl Front = Some f" "rl_conns rl Back = Some b" "tcp_state b = kConnected"
    by (rule estE [OF 4(3), where sd = Front]) (auto simp: pipe_def out_inv_def)
  moreover have "\<not> hp_waiting_for_initial_data (rl_app rl)" using 4(3) by (simp add: est_def hp_Q_def hp_D_def)
  moreover obtain rl' where "rl_pass (hp_env inet_addr ne (Suc n)) Front rl = Inr rl'" "inside K rl rl'"
    "est K N (hp_S A) (hp_Q A) rl' xy (\<lambda>_. [])" using hp_pass [OF 4(1,3,2)] by blast
  ultimately show ?case by (intro exI [of _ rl']) (simp add: hp_onMessage_def del: hp_env.simps)
next
  case (5 ne K N rl xy z)
  obtain f where f: "rl_conns rl Front = Some f" "tcp_state f = kConnected"
    by (rule estE [OF 5(3), where sd = Back]) (auto simp: pipe_def out_inv_def)
  obtain rl' where r: "rl_pass (hp_env inet_addr ne (Suc n)) Back rl = Inr rl'" "inside K rl rl'"
    "est K N (hp_S A) (hp_Q A) rl' xy (\<lambda>_. [])" using hp_pass [OF 5(1,3,2)] by blast
  then obtain data rl1 where p: "rl_retrieve Back rl = Inr (data, rl1)" "rl_send (hp_env inet_addr ne (Suc n)) Front data rl1 = Inr rl'"
    by (auto simp: rl_pass_def res_simps simp del: hp_env.simps)
  have "rl_connected Front rl1 = Inr True"
    using rl_retrieve_frame(1) [OF p(1)] f by (simp add: rl_connected_def)
  with p r(2,3) show ?case by (intro exI [of _ rl']) (simp add: hp_backMessage_def del: hp_env.simps)
qed

subsection \<open>Properties\<close>


text \<open>A handler with one route, for every path, and a client that has sent a request, for the witnesses.\<close>

definition demo_hp :: hp_handler where
  "demo_hp = new_HttpProxyHandler [''/'' \<mapsto> ''10.0.0.1:80'']"

definition demo_request :: bytes where
  "demo_request = ''GET / HTTP/1.1'' @ CRLF @ ''Host: x'' @ CRLF @ CRLF"

definition demo_asking :: relay_conn where
  "demo_asking = demo_front\<lparr>input_buffer := \<lparr>storage = replicate 8 (CHR 0x00) @ demo_request @ replicate 64 (CHR 0x00),
     readerIndex = 8, writerIndex = 35\<rparr>\<rparr>"

definition demo_asked :: "hp_handler \<Rightarrow> (hp_handler, demo) relay" where
  "demo_asked h = \<lparr>rl_conns = (\<lambda>_. None)(Front := Some demo_asking), rl_app = h, rl_posted = [], rl_removed = False,
     rl_kern = (\<lambda>_. [], (\<lambda>_. [])(7 := demo_request), \<lambda>_. [])\<rparr>"

lemma demo_request_length [simp]: "length demo_request = 27"
  by (simp add: demo_request_def CRLF_def)

lemma demo_request_parses:
  "parseHeader demo_request ''Host'' = Inr ''x''" "parsePath demo_request = Inr ''/''"
  "parse_backend (\<lambda>_. (10, 0, 0, 1)) ''10.0.0.1:80'' \<noteq> None"
  by code_simp+

lemma demo_asked_ok:
  "rl_conns (demo_asked h) Front = Some demo_asking" "rl_conns (demo_asked h) Back = None" "rl_app (demo_asked h) = h"
  "conn_fd demo_asking = 7" "content (input_buffer demo_asking) = demo_request" "buffer_inv (input_buffer demo_asking)"
  "fresh_front demo_view 100 (rl_kern (demo_asked h)) demo_asking" "out_inv demo_asking"
  by (auto simp: demo_asked_def demo_asking_def demo_front_def demo_view_def fresh_front_def buffer_inv_def content_def
      readableBytes_def vector_max_size_def room_def isWriting_def epoll_masks out_inv_def)


text \<open>
  C20. A complete request is forwarded: when what has arrived has a path and a Host header, the path has
  a route whose address parses, and a socket can be had, then handling the message dials that backend,
  with its address as the new Host, and leaves the request in the client's input buffer until the
  backend answers.
\<close>

theorem proxy_dials_route:
  assumes "net_ok ne K" and "rl_conns rl Front = Some f" and "rl_conns rl Back = None"
    and "hp_waiting_for_initial_data (rl_app rl)"
    and "parseHeader (content (input_buffer f)) ''Host'' = Inr host" and "host \<noteq> []"
    and "parsePath (content (input_buffer f)) = Inr path" and "path \<noteq> []"
    and "lookup_route (hp_routing_table (rl_app rl)) path = Some backend"
    and "parse_backend inet_addr backend = Some addr"
    and "net_socket ne (rl_kern rl) = (sock, k1)" and "0 \<le> sock" and "sock \<noteq> conn_fd f"
    and "net_connect ne sock addr (net_nonblock ne sock k1) = (ret, err, k2)"
    and "0 \<le> ret \<or> err = EINPROGRESS" and "fresh_front K N k2 f"
    and "vw_sent K k2 sock = []" and "vw_taken K k2 sock = []" and "N \<le> vector_max_size - 8"
  shows "\<exists>rl'. hp_onMessage inet_addr ne (hp_env inet_addr ne n) rl = Inr rl' \<and> dialling K N (hp_D backend) rl'"
proof -
  let ?rl = "on_app (\<lambda>h. h\<lparr>hp_backend_addr := backend, hp_waiting_for_initial_data := False\<rparr>) (rl\<lparr>rl_kern := k2\<rparr>)"
  have inv: "buffer_inv (input_buffer f)" using assms(16) by (simp add: fresh_front_def)
  have "\<not> (ret < 0 \<and> err \<noteq> EINPROGRESS)" using assms(15) by auto
  then have dial: "rl_dial ne addr rl = (Some sock, rl\<lparr>rl_kern := k2\<rparr>)"
    using assms(11,12,14) by (simp add: rl_dial_def)
  have "\<exists>rl'. rl_open (hp_env inet_addr ne n) sock (new_InetAddress inet_addr ''127.0.0.1'' 0) backend_setup ?rl = Inr rl' \<and>
    dialling K N (hp_D backend) rl' \<and> rl_app rl' = rl_app ?rl \<and> same_view K (rl_kern ?rl) (rl_kern rl')"
    by (rule rl_open_dialling [OF assms(1) lifts_hp_env, where f = f and cb = BackClose])
      (use assms in \<open>simp_all add: hp_D_def\<close>)
  then obtain rl' where rl': "rl_open (hp_env inet_addr ne n) sock (new_InetAddress inet_addr ''127.0.0.1'' 0) backend_setup ?rl = Inr rl'"
    "dialling K N (hp_D backend) rl'" by blast
  have "hp_onMessage inet_addr ne (hp_env inet_addr ne n) rl = Inr rl'"
    using assms(2,4-10) dial rl'(1) net_okD(6,7) [OF assms(1)]
    by (simp add: hp_onMessage_def peekAsString_def peek_content [OF inv] hp_startForwarding_def rl_runInLoop_def
        hp_createBackendConnection_def)
  with rl'(2) show ?thesis by blast
qed

theorem proxy_dials_route_witness:
  "\<exists>rl'. hp_onMessage (\<lambda>_. (10, 0, 0, 1)) demo_net (hp_env (\<lambda>_. (10, 0, 0, 1)) demo_net 1) (demo_asked demo_hp) = Inr rl' \<and>
     dialling demo_view 100 (hp_D ''10.0.0.1:80'') rl'"
proof -
  obtain addr where addr: "parse_backend (\<lambda>_. (10, 0, 0, 1)) ''10.0.0.1:80'' = Some addr" using demo_request_parses(3) by blast
  show ?thesis
    by (rule proxy_dials_route [OF demo_net_ok demo_asked_ok(1,2), where sock = 9 and ret = "- 1" and err = EINPROGRESS
          and host = "''x''" and path = "''/''" and addr = addr and ?k1.0 = "rl_kern (demo_asked demo_hp)"
          and ?k2.0 = "rl_kern (demo_asked demo_hp)"])
      (simp_all add: addr demo_asked_ok demo_request_parses vector_max_size_def, simp_all add: demo_net_def demo_hp_def
        new_HttpProxyHandler_def lookup_route_def demo_asked_def demo_view_def)
qed

text \<open>
  C22. A request without a route is answered with 404, and the client connection is marked as
  disconnecting: the answer, whole and once, follows what was sent before, nothing is dialled, and the
  request stays in the input buffer.
\<close>

theorem proxy_unknown_route:
  assumes "net_ok ne K" and "rl_conns rl Front = Some f" and "hp_waiting_for_initial_data (rl_app rl)"
    and "out_inv f" and "write_complete_callback f = None" and "high_water_mark_callback f = None"
    and "buffer_inv (input_buffer f)" and "length not_found_response \<le> room (output_buffer f)"
    and "parseHeader (content (input_buffer f)) ''Host'' = Inr host" and "host \<noteq> []"
    and "parsePath (content (input_buffer f)) = Inr path" and "path \<noteq> []"
    and "lookup_route (hp_routing_table (rl_app rl)) path = None"
  shows "\<exists>f' k. hp_onMessage inet_addr ne (hp_env inet_addr ne (Suc n)) rl = Inr (rl_put Front f' (rl\<lparr>rl_kern := k\<rparr>)) \<and>
    tcp_state f' = kDisConnecting \<and> input_buffer f' = input_buffer f \<and>
    vw_sent K k (conn_fd f) @ content (output_buffer f') =
      vw_sent K (rl_kern rl) (conn_fd f) @ content (output_buffer f) @ not_found_response"
proof -
  let ?w = "rl\<lparr>rl_conns := (rl_conns rl)(Front := None)\<rparr>" and ?P = "\<lambda>w. \<exists>k. w = rl\<lparr>rl_conns := (rl_conns rl)(Front := None), rl_kern := k\<rparr>"
  let ?e = "hp_env inet_addr ne (Suc n)"
  have env: "stream_on ?P (?e Front) (\<lambda>w. vw_sent K (rl_kern w)) (conn_fd f)"
    unfolding hp_env.simps by (rule kern_stream [OF assms(1)]) auto
  have q: "quiet_conn ?P (?e Front) (\<lambda>w. vw_sent K (rl_kern w)) f"
    using assms(5,6) by (simp add: quiet_conn_def quiet_def)
  have p: "?P ?w" by (rule exI [of _ "rl_kern rl"]) simp
  have len: "length not_found_response < 2 ^ 63" by (simp add: not_found_response_def CRLF_def)
  from sendInLoop_ok [OF env q assms(4) p len assms(8)] obtain f1 w1 where
    s: "sendInLoop (?e Front) not_found_response (f, ?w) = Inr (f1, w1)" "same_conn f f1" "out_inv f1" "?P w1"
      "vw_sent K (rl_kern w1) (conn_fd f) @ content (output_buffer f1) =
        vw_sent K (rl_kern ?w) (conn_fd f) @ content (output_buffer f) @ not_found_response" by blast
  from s(4) obtain k where k: "w1 = rl\<lparr>rl_conns := (rl_conns rl)(Front := None), rl_kern := k\<rparr>" by blast
  have loop: "env_in_loop (?e Front) w" for w
    using net_okD(6) [OF assms(1)] by (simp add: lifts_fields [OF lifts_hp_env] del: hp_env.simps)
  let ?f' = "f1\<lparr>tcp_state := kDisConnecting\<rparr>"
  have send: "rl_send ?e Front not_found_response rl = Inr (rl_put Front f1 (rl\<lparr>rl_kern := k\<rparr>))"
    using assms(2) s(1) loop k by (cases rl) (simp add: rl_send_def on_conn_def rl_take_def send_def rl_put_def del: hp_env.simps)
  have down: "rl_shutdown ?e Front (rl_put Front f1 (rl\<lparr>rl_kern := k\<rparr>)) = Inr (rl_put Front ?f' (rl\<lparr>rl_kern := k\<rparr>))"
    using s(3) loop by (cases rl) (simp add: rl_shutdown_def on_conn_def rl_take_def shutdown_def shutdownInLoop_def in_loop_def
      set_state_def out_inv_def rl_put_def del: hp_env.simps)
  have "hp_onMessage inet_addr ne ?e rl = Inr (rl_put Front ?f' (rl\<lparr>rl_kern := k\<rparr>))"
    using assms(2,3,9-13) send down
    by (simp add: hp_onMessage_def peekAsString_def peek_content [OF assms(7)] hp_startForwarding_def del: hp_env.simps)
  with s(2,5) k show ?thesis by (intro exI [of _ ?f'] exI [of _ k]) (simp add: same_conn_def)
qed

theorem proxy_unknown_route_witness:
  "\<exists>f' k. hp_onMessage (\<lambda>_. (10, 0, 0, 1)) demo_net (hp_env (\<lambda>_. (10, 0, 0, 1)) demo_net (Suc 0))
       (demo_asked (new_HttpProxyHandler Map.empty)) = Inr (rl_put Front f' ((demo_asked (new_HttpProxyHandler Map.empty))\<lparr>rl_kern := k\<rparr>)) \<and>
     vw_sent demo_view k 7 @ content (output_buffer f') = not_found_response"
proof -
  let ?rl = "demo_asked (new_HttpProxyHandler Map.empty)"
  have out: "content (output_buffer demo_asking) = []" "vw_sent demo_view (rl_kern ?rl) 7 = []"
    by (simp_all add: demo_asking_def demo_front_def content_def readableBytes_def demo_asked_def demo_view_def)
  have "\<exists>f' k. hp_onMessage (\<lambda>_. (10, 0, 0, 1)) demo_net (hp_env (\<lambda>_. (10, 0, 0, 1)) demo_net (Suc 0)) ?rl =
      Inr (rl_put Front f' (?rl\<lparr>rl_kern := k\<rparr>)) \<and> tcp_state f' = kDisConnecting \<and> input_buffer f' = input_buffer demo_asking \<and>
      vw_sent demo_view k (conn_fd demo_asking) @ content (output_buffer f') =
        vw_sent demo_view (rl_kern ?rl) (conn_fd demo_asking) @ content (output_buffer demo_asking) @ not_found_response"
    by (rule proxy_unknown_route [OF demo_net_ok demo_asked_ok(1), where host = "''x''" and path = "''/''"])
      (simp_all add: demo_asked_ok demo_request_parses, simp_all add: new_HttpProxyHandler_def lookup_route_def demo_asking_def
        demo_front_def not_found_response_def CRLF_def room_def vector_max_size_def)
  then show ?thesis unfolding out demo_asked_ok(4) by auto
qed


definition demo_backend :: relay_conn where
  "demo_backend = demo_front\<lparr>conn_fd := 9, handler := None, conn_close_callback := None\<rparr>"


text \<open>
  A client that leaves takes the proxy down: closing the front connection runs \<open>onClose\<close>, which
  drops the last reference to the backend connection, and its destructor asserts that it is
  disconnected, which it is not.
\<close>

theorem proxy_client_close_aborts:
  assumes "\<forall>k. net_in_loop ne k" and "rl_conns rl Front = Some f" and "handler f = Some ()"
    and "tcp_state f = kConnected \<or> tcp_state f = kDisConnecting"
    and "rl_conns rl Back = Some b" and "tcp_state b \<noteq> kDisConnected"
  shows "on_conn Front (handleClose (hp_env inet_addr ne (Suc n) Front)) rl = Inl AssertFail"
  unfolding hp_env.simps
proof (rule front_close_fault [OF assms(1-4)])
  fix rl' :: "(hp_handler, 'a) relay" assume "rl_conns rl' Back = rl_conns rl Back"
  then show "hp_onClose (hp_env inet_addr ne n) rl' = Inl AssertFail"
    using assms(5,6) by (simp add: hp_onClose_def rl_present_def rl_reset_def rl_take_def tcp_destroy_def)
qed

theorem proxy_client_close_aborts_witness:
  "on_conn Front (handleClose (hp_env (\<lambda>_. (10, 0, 0, 1)) demo_net (Suc 0) Front)) (rl_put Back demo_backend (demo_start demo_hp)) =
     Inl AssertFail"
  by (rule proxy_client_close_aborts [where f = demo_front and b = demo_backend])
    (simp_all add: demo_net_def demo_start_def demo_front_def demo_backend_def)

end
