(* ===== verification/EventLoopThread.thy ===== *)
theory EventLoopThread
  imports EventLoop
begin

text \<open>
  A thread that runs an event loop (src/net/event_loop_thread.h, src/net/event_loop_thread.cpp), as a
  concurrent program of two threads: the owner, which calls \<open>startLoop\<close>, \<open>stop\<close>, \<open>join\<close> and the
  destructor in any order, and the worker, which runs \<open>threadFunc\<close>. They share the mutex, the condition
  variable, \<open>loop_ptr_\<close>, and the loop, a local variable of \<open>threadFunc\<close>: it exists from its construction
  until \<open>loop\<close> returns. The loop itself is the model of EventLoop.thy.

  A move is what one thread does between two accesses to shared state; \<open>lt_move\<close> is undefined for a
  move that is not possible, because the thread is elsewhere or blocked. A history is a list of moves,
  so a statement about all histories is one about all schedules.
\<close>

subsection \<open>State\<close>

text \<open>
  Where the owner is: between calls; in \<open>startLoop\<close>, about to lock the mutex, holding it in front of
  the predicate, blocked on the condition variable; in \<open>quit\<close> between its two accesses to the loop; in
  \<open>thread_.join()\<close>, called by \<open>join\<close> or by the destructor; after the destructor; ended by a fault.
\<close>

datatype owner_pc = OwnerIdle | StartLock | StartTest | StartWait | QuitWakeup bool | Joining bool | Destroyed | OwnerFault fault

text \<open>Where the worker is in \<open>threadFunc\<close>; \<open>WorkerNone\<close> is before the thread has been created.\<close>

datatype worker_pc = WorkerNone | WorkerConstruct | WorkerLock | WorkerPublish | WorkerNotify | WorkerEnter | WorkerLoop
  | WorkerDone | WorkerFault fault

datatype lt_role = OwnerRole | WorkerRole

text \<open>
  A pointer to a loop is the number of the thread that has it on its stack, \<open>lt_run\<close> the number of the
  last thread created. \<open>lt_returned\<close> is what the last \<open>startLoop\<close> returned, and \<open>lt_asked\<close> whether the
  owner has called \<open>quit\<close> on this thread's loop; the program keeps neither.
\<close>

record ('f, 'k) loop_thread =
  lt_loop_ptr :: "nat option"
  lt_joinable :: bool
  lt_mutex :: "lt_role option"
  lt_exiting :: bool
  lt_loop :: "('f, 'k) event_loop option"
  lt_run :: nat
  lt_owner :: owner_pc
  lt_worker :: worker_pc
  lt_returned :: "nat option"
  lt_asked :: bool

definition new_EventLoopThread :: "('f, 'k) loop_thread" where
  "new_EventLoopThread = \<lparr>lt_loop_ptr = None, lt_joinable = False, lt_mutex = None, lt_exiting = False,
     lt_loop = None, lt_run = 0, lt_owner = OwnerIdle, lt_worker = WorkerNone, lt_returned = None, lt_asked = False\<rparr>"

subsection \<open>The owner\<close>

text \<open>
  \<open>loop_ptr_->quit()\<close>: the flag, and then, as another thread than the loop's, the eventfd. Both need
  the loop to be there. The owner's thread has number 0, the workers' threads have theirs.
\<close>

definition pointee :: "('f, 'k) loop_thread \<Rightarrow> ('f, 'k) event_loop option" where
  "pointee s = (if lt_loop_ptr s = Some (lt_run s) then lt_loop s else None)"

definition owner_quit :: "bool \<Rightarrow> ('f, 'k) loop_thread \<Rightarrow> ('f, 'k) loop_thread" where
  "owner_quit destroying s = (case pointee s of
     None \<Rightarrow> s\<lparr>lt_owner := OwnerFault UseAfterFree\<rparr>
   | Some l \<Rightarrow> s\<lparr>lt_loop := Some (el_quit_by 0 l), lt_asked := True, lt_owner := QuitWakeup destroying\<rparr>)"

definition owner_wakeup :: "('k \<Rightarrow> 'k) \<Rightarrow> bool \<Rightarrow> ('f, 'k) loop_thread \<Rightarrow> ('f, 'k) loop_thread" where
  "owner_wakeup wr destroying s = (case pointee s of
     None \<Rightarrow> s\<lparr>lt_owner := OwnerFault UseAfterFree\<rparr>
   | Some l \<Rightarrow> s\<lparr>lt_loop := Some (wakeup wr (l\<lparr>owed := owed l - 1\<rparr>)),
       lt_owner := (if destroying then Joining True else OwnerIdle)\<rparr>)"

text \<open>
  \<open>startLoop\<close>. The assignment to \<open>thread_\<close> destroys the thread object that was there, which
  terminates the program when it is joinable.
\<close>

definition startLoop_create :: "('f, 'k) loop_thread \<Rightarrow> ('f, 'k) loop_thread" where
  "startLoop_create s =
     (if lt_joinable s then s\<lparr>lt_owner := OwnerFault Terminate\<rparr>
      else s\<lparr>lt_joinable := True, lt_run := lt_run s + 1, lt_loop := None, lt_worker := WorkerConstruct,
             lt_asked := False, lt_owner := StartLock\<rparr>)"

definition startLoop_test :: "('f, 'k) loop_thread \<Rightarrow> ('f, 'k) loop_thread" where
  "startLoop_test s =
     (if lt_loop_ptr s \<noteq> None then s\<lparr>lt_mutex := None, lt_returned := lt_loop_ptr s, lt_owner := OwnerIdle\<rparr>
      else s\<lparr>lt_mutex := None, lt_owner := StartWait\<rparr>)"

definition lt_stop :: "('f, 'k) loop_thread \<Rightarrow> ('f, 'k) loop_thread" where
  "lt_stop s = (if lt_loop_ptr s \<noteq> None then owner_quit False s else s)"

definition lt_join :: "('f, 'k) loop_thread \<Rightarrow> ('f, 'k) loop_thread" where
  "lt_join s = (if lt_joinable s then s\<lparr>lt_owner := Joining False\<rparr> else s)"

definition lt_destroy :: "('f, 'k) loop_thread \<Rightarrow> ('f, 'k) loop_thread" where
  "lt_destroy s =
     (if lt_joinable s then
        (let s = s\<lparr>lt_exiting := True\<rparr> in
         if lt_loop_ptr s \<noteq> None then owner_quit True s else s\<lparr>lt_owner := Joining True\<rparr>)
      else s\<lparr>lt_owner := Destroyed\<rparr>)"

definition joined :: "bool \<Rightarrow> ('f, 'k) loop_thread \<Rightarrow> ('f, 'k) loop_thread" where
  "joined destroying s = s\<lparr>lt_joinable := False, lt_owner := (if destroying then Destroyed else OwnerIdle)\<rparr>"

text \<open>The owner's next move inside a call, unless it is blocked.\<close>

definition owner_go :: "('k \<Rightarrow> 'k) \<Rightarrow> ('f, 'k) loop_thread \<Rightarrow> ('f, 'k) loop_thread option" where
  "owner_go wr s = (case lt_owner s of
     StartLock \<Rightarrow> if lt_mutex s = None then Some (s\<lparr>lt_mutex := Some OwnerRole, lt_owner := StartTest\<rparr>) else None
   | StartTest \<Rightarrow> Some (startLoop_test s)
   | QuitWakeup d \<Rightarrow> Some (owner_wakeup wr d s)
   | Joining d \<Rightarrow> if lt_worker s = WorkerDone then Some (joined d s) else None
   | _ \<Rightarrow> None)"

subsection \<open>The worker\<close>

definition threadFunc_construct :: "bool \<Rightarrow> 'k \<Rightarrow> ('f, 'k) loop_thread \<Rightarrow> ('f, 'k) loop_thread" where
  "threadFunc_construct c k s = s\<lparr>lt_loop := Some (new_EventLoop (lt_run s) c k), lt_worker := WorkerLock\<rparr>"

definition threadFunc_publish :: "('f, 'k) loop_thread \<Rightarrow> ('f, 'k) loop_thread" where
  "threadFunc_publish s = s\<lparr>lt_loop_ptr := Some (lt_run s), lt_mutex := None, lt_worker := WorkerNotify\<rparr>"

definition threadFunc_notify :: "('f, 'k) loop_thread \<Rightarrow> ('f, 'k) loop_thread" where
  "threadFunc_notify s =
     s\<lparr>lt_owner := (if lt_owner s = StartWait then StartLock else lt_owner s), lt_worker := WorkerEnter\<rparr>"

text \<open>\<open>loop.loop()\<close>: its entry, then one statement at a time; when it has returned, \<open>loop\<close> is destroyed.\<close>

definition threadFunc_enter :: "('f, 'k) event_loop \<Rightarrow> ('f, 'k) loop_thread \<Rightarrow> ('f, 'k) loop_thread" where
  "threadFunc_enter l s = (case loop_enter (lt_run s) l of
     Inl e \<Rightarrow> s\<lparr>lt_worker := WorkerFault e\<rparr>
   | Inr l' \<Rightarrow> s\<lparr>lt_loop := Some l', lt_worker := WorkerLoop\<rparr>)"

definition threadFunc_loop :: "('f \<Rightarrow> 'f loop_action list) \<Rightarrow> ('k \<Rightarrow> 'k) \<Rightarrow> ('k \<Rightarrow> 'k) \<Rightarrow> ('f, 'k) event_loop
    \<Rightarrow> ('f, 'k) loop_thread \<Rightarrow> ('f, 'k) loop_thread option" where
  "threadFunc_loop prog wr rd l s =
     (if el_pc l = Outside then Some (s\<lparr>lt_loop := None, lt_worker := WorkerDone\<rparr>)
      else if el_pc l = AtWait then None
      else Some (s\<lparr>lt_loop := Some (loop_next prog wr rd l)\<rparr>))"

definition worker_go :: "('f \<Rightarrow> 'f loop_action list) \<Rightarrow> ('k \<Rightarrow> 'k) \<Rightarrow> ('k \<Rightarrow> 'k) \<Rightarrow> ('f, 'k) loop_thread
    \<Rightarrow> ('f, 'k) loop_thread option" where
  "worker_go prog wr rd s = (case lt_worker s of
     WorkerLock \<Rightarrow> if lt_mutex s = None then Some (s\<lparr>lt_mutex := Some WorkerRole, lt_worker := WorkerPublish\<rparr>) else None
   | WorkerPublish \<Rightarrow> Some (threadFunc_publish s)
   | WorkerNotify \<Rightarrow> Some (threadFunc_notify s)
   | WorkerEnter \<Rightarrow> map_option (\<lambda>l. threadFunc_enter l s) (lt_loop s)
   | WorkerLoop \<Rightarrow> (case lt_loop s of None \<Rightarrow> None | Some l \<Rightarrow> threadFunc_loop prog wr rd l s)
   | _ \<Rightarrow> None)"

subsection \<open>Moves\<close>

text \<open>
  \<open>Construct\<close> is the construction of the loop, with the values the program does not determine;
  \<open>Spurious\<close> a return of the condition variable's wait that nothing has caused; \<open>WaitReturns\<close> the return
  of \<open>epoll_wait\<close>, with the eventfd among the events only when it is readable. \<open>OtherPosts\<close> and
  \<open>OtherWakes\<close> are the two halves of a \<open>runInLoop\<close> by a thread that was given the loop; none begins one
  after the loop has been asked to quit, and one that is overtaken by the end of the loop is not followed
  further.
\<close>

datatype ('f, 'k) lt_event = StartLoop | Stop | Join | Destroy | OwnerGo | Spurious | Construct bool 'k | WorkerGo
  | WaitReturns "'f loop_event list" | OtherPosts nat 'f | OtherWakes

definition on_loop :: "(('f, 'k) event_loop \<Rightarrow> ('f, 'k) event_loop option) \<Rightarrow> ('f, 'k) loop_thread
    \<Rightarrow> ('f, 'k) loop_thread option" where
  "on_loop op s = (case lt_loop s of None \<Rightarrow> None | Some l \<Rightarrow> map_option (\<lambda>l. s\<lparr>lt_loop := Some l\<rparr>) (op l))"

definition if_idle :: "(('f, 'k) loop_thread \<Rightarrow> ('f, 'k) loop_thread) \<Rightarrow> ('f, 'k) loop_thread
    \<Rightarrow> ('f, 'k) loop_thread option" where
  "if_idle call s = (if lt_owner s = OwnerIdle then Some (call s) else None)"

text \<open>The third thread's part: \<open>owed\<close> counts the owner too while it is in \<open>quit\<close>.\<close>

definition others_owed :: "('f, 'k) loop_thread \<Rightarrow> ('f, 'k) event_loop \<Rightarrow> nat" where
  "others_owed s l = owed l - (if \<exists>d. lt_owner s = QuitWakeup d then 1 else 0)"

fun lt_move :: "('f \<Rightarrow> 'f loop_action list) \<Rightarrow> ('k \<Rightarrow> 'k) \<Rightarrow> ('k \<Rightarrow> 'k) \<Rightarrow> ('k \<Rightarrow> bool)
    \<Rightarrow> ('f, 'k) lt_event \<Rightarrow> ('f, 'k) loop_thread \<Rightarrow> ('f, 'k) loop_thread option" where
  "lt_move prog wr rd readable StartLoop s = if_idle startLoop_create s"
| "lt_move prog wr rd readable Stop s = if_idle lt_stop s"
| "lt_move prog wr rd readable Join s = if_idle lt_join s"
| "lt_move prog wr rd readable Destroy s = if_idle lt_destroy s"
| "lt_move prog wr rd readable OwnerGo s = owner_go wr s"
| "lt_move prog wr rd readable Spurious s = (if lt_owner s = StartWait then Some (s\<lparr>lt_owner := StartLock\<rparr>) else None)"
| "lt_move prog wr rd readable (Construct c k) s =
     (if lt_worker s = WorkerConstruct then Some (threadFunc_construct c k s) else None)"
| "lt_move prog wr rd readable WorkerGo s = worker_go prog wr rd s"
| "lt_move prog wr rd readable (WaitReturns evs) s = on_loop (\<lambda>l.
     if lt_worker s = WorkerLoop \<and> el_pc l = AtWait \<and> (WakeupEvent \<in> set evs \<longrightarrow> readable (wakeup_fd l)) \<and>
       (readable (wakeup_fd l) \<longrightarrow> evs \<noteq> []) then Some (loop_wait evs l) else None) s"
| "lt_move prog wr rd readable (OtherPosts t cb) s = on_loop (\<lambda>l.
     if lt_returned s = Some (lt_run s) \<and> \<not> lt_asked s \<and> \<not> isInLoopThread t l then Some (runInLoop prog t cb l) else None) s"
| "lt_move prog wr rd readable OtherWakes s = on_loop (\<lambda>l.
     if 0 < others_owed s l then Some (wakeup wr (l\<lparr>owed := owed l - 1\<rparr>)) else None) s"

fun lt_run_moves :: "('f \<Rightarrow> 'f loop_action list) \<Rightarrow> ('k \<Rightarrow> 'k) \<Rightarrow> ('k \<Rightarrow> 'k) \<Rightarrow> ('k \<Rightarrow> bool)
    \<Rightarrow> ('f, 'k) lt_event list \<Rightarrow> ('f, 'k) loop_thread \<Rightarrow> ('f, 'k) loop_thread option" where
  "lt_run_moves prog wr rd readable [] s = Some s"
| "lt_run_moves prog wr rd readable (m # ms) s =
     Option.bind (lt_move prog wr rd readable m s) (lt_run_moves prog wr rd readable ms)"

lemma lt_run_moves_append:
  "lt_run_moves prog wr rd readable (ms @ ns) s =
     Option.bind (lt_run_moves prog wr rd readable ms s) (lt_run_moves prog wr rd readable ns)"
  by (induction ms arbitrary: s) (auto split: Option.bind_splits)

lemmas owner_defs = startLoop_create_def startLoop_test_def lt_stop_def lt_join_def lt_destroy_def joined_def
  owner_quit_def owner_wakeup_def owner_go_def if_idle_def pointee_def Let_def
lemmas worker_defs = threadFunc_construct_def threadFunc_publish_def threadFunc_notify_def threadFunc_enter_def
  threadFunc_loop_def worker_go_def on_loop_def others_owed_def

subsection \<open>The invariant\<close>

text \<open>The loop as the worker uses it: the invariants of EventLoop.thy, and what its code is made of.\<close>

definition code_of :: "('f \<Rightarrow> 'f loop_action list) \<Rightarrow> 'f loop_action set" where
  "code_of prog = insert WriteWakeup (\<Union>f. set (prog f))"

definition loop_wf :: "('f \<Rightarrow> 'f loop_action list) \<Rightarrow> ('k \<Rightarrow> bool) \<Rightarrow> ('f, 'k) event_loop \<Rightarrow> bool" where
  "loop_wf prog readable l \<longleftrightarrow> queue_ok l \<and> wake_ok readable l \<and> set (todo l) \<subseteq> code_of prog"

text \<open>Without a call of \<open>quit\<close> in the code that runs in the loop, only another thread's stops it.\<close>

definition unquit :: "('f \<Rightarrow> 'f loop_action list) \<Rightarrow> ('f, 'k) event_loop \<Rightarrow> bool" where
  "unquit prog l \<longleftrightarrow> (QuitLoopAction \<notin> code_of prog \<longrightarrow> \<not> el_quit l)"

lemma code_of_prog: "set (prog f) \<subseteq> code_of prog" "WriteWakeup \<in> code_of prog"
  by (auto simp: code_of_def)

lemma todo_ops:
  "\<not> isInLoopThread t l \<Longrightarrow> todo (runInLoop prog t cb l) = todo l" "todo (el_quit_by t l) = todo l"
  "todo (wakeup wr (l\<lparr>owed := n\<rparr>)) = todo l" "todo (loop_wait evs l) = todo l" "loop_enter t l = Inr l' \<Longrightarrow> todo l' = todo l"
  by (auto simp: el_defs loop_enter_def cassert_def split: if_splits)

lemma loop_wf_ops:
  assumes "loop_wf prog readable l" and "eventfd_ok wr readable"
  shows "\<not> isInLoopThread t l \<Longrightarrow> loop_wf prog readable (runInLoop prog t cb l)"
    and "\<not> isInLoopThread t l \<Longrightarrow> loop_wf prog readable (el_quit_by t l)"
    and "0 < owed l \<Longrightarrow> loop_wf prog readable (wakeup wr (l\<lparr>owed := owed l - 1\<rparr>))"
    and "el_pc l = AtWait \<Longrightarrow> loop_wf prog readable (loop_wait evs l)"
    and "el_pc l = Outside \<Longrightarrow> loop_enter t l = Inr l' \<Longrightarrow> loop_wf prog readable l'"
proof -
  have l: "queue_ok l" "wake_ok readable l" "set (todo l) \<subseteq> code_of prog" using assms(1) by (simp_all add: loop_wf_def)
  note ops = wake_ok_ops [OF l(2) assms(2)]
  show "\<not> isInLoopThread t l \<Longrightarrow> loop_wf prog readable (runInLoop prog t cb l)"
    using l ops(2) queue_ok_ops(2) by (simp add: loop_wf_def todo_ops)
  show "\<not> isInLoopThread t l \<Longrightarrow> loop_wf prog readable (el_quit_by t l)"
    using l ops(3) by (simp add: loop_wf_def todo_ops queue_ok_ops(3))
  show "0 < owed l \<Longrightarrow> loop_wf prog readable (wakeup wr (l\<lparr>owed := owed l - 1\<rparr>))"
    using l ops(4) by (simp add: loop_wf_def todo_ops queue_ok_ops(4,5))
  show "el_pc l = AtWait \<Longrightarrow> loop_wf prog readable (loop_wait evs l)"
    using l ops(9) queue_ok_ops(10) by (simp add: loop_wf_def todo_ops)
  show "el_pc l = Outside \<Longrightarrow> loop_enter t l = Inr l' \<Longrightarrow> loop_wf prog readable l'"
    using l ops(11) [of t l'] queue_ok_ops(11) [of l t l'] by (simp add: loop_wf_def todo_ops(5))
qed

lemma loop_wf_next:
  assumes "loop_wf prog readable l" and "eventfd_ok wr readable" and "el_pc l \<noteq> AtWait"
  shows "loop_wf prog readable (loop_next prog wr rd l)"
proof -
  have "set (todo (loop_next prog wr rd l)) \<subseteq> code_of prog"
    using assms(1) code_of_prog [of prog]
    by (cases "el_pc l") (auto simp: loop_wf_def el_defs split: list.splits loop_action.splits loop_event.splits if_splits)
  then show ?thesis
    using assms wake_ok_next [OF _ assms(2,3)] queue_ok_next by (auto simp: loop_wf_def)
qed

lemma unquit_next:
  assumes "loop_wf prog readable l" and "unquit prog l"
  shows "unquit prog (loop_next prog wr rd l)"
  using assms
  by (cases "el_pc l") (auto simp: loop_wf_def unquit_def el_defs split: list.splits loop_action.splits loop_event.splits if_splits)

text \<open>
  Control: who holds the mutex, when the loop exists, what \<open>loop_ptr_\<close> points to, and where the owner can
  be while the worker is somewhere.
\<close>

text \<open>Before the worker has published its loop, \<open>loop_ptr_\<close> is null in the first run, and left over later.\<close>

definition old_ptr :: "nat \<Rightarrow> nat option \<Rightarrow> bool" where
  "old_ptr run ptr \<longleftrightarrow> (case ptr of None \<Rightarrow> run = 1 | Some p \<Rightarrow> 0 < p \<and> p < run)"

fun worker_at :: "worker_pc \<Rightarrow> bool \<Rightarrow> nat \<Rightarrow> nat option \<Rightarrow> bool \<Rightarrow> bool" where
  "worker_at WorkerNone loop_there run ptr joinable \<longleftrightarrow> \<not> loop_there \<and> run = 0 \<and> ptr = None \<and> \<not> joinable"
| "worker_at WorkerConstruct loop_there run ptr joinable \<longleftrightarrow> \<not> loop_there \<and> 0 < run \<and> old_ptr run ptr \<and> joinable"
| "worker_at WorkerLock loop_there run ptr joinable \<longleftrightarrow> loop_there \<and> 0 < run \<and> old_ptr run ptr \<and> joinable"
| "worker_at WorkerPublish loop_there run ptr joinable \<longleftrightarrow> loop_there \<and> 0 < run \<and> old_ptr run ptr \<and> joinable"
| "worker_at WorkerDone loop_there run ptr joinable \<longleftrightarrow> \<not> loop_there \<and> 0 < run \<and> ptr = Some run"
| "worker_at (WorkerFault e) loop_there run ptr joinable \<longleftrightarrow> False"
| "worker_at _ loop_there run ptr joinable \<longleftrightarrow> loop_there \<and> 0 < run \<and> ptr = Some run \<and> joinable"

fun owner_at :: "owner_pc \<Rightarrow> worker_pc \<Rightarrow> nat \<Rightarrow> nat option \<Rightarrow> bool \<Rightarrow> bool" where
  "owner_at StartLock worker run ptr joinable \<longleftrightarrow> joinable"
| "owner_at StartTest worker run ptr joinable \<longleftrightarrow> joinable"
| "owner_at StartWait worker run ptr joinable \<longleftrightarrow> joinable \<and>
     worker \<in> {WorkerConstruct, WorkerLock, WorkerPublish, WorkerNotify}"
| "owner_at (QuitWakeup d) worker run ptr joinable \<longleftrightarrow> ptr = Some run \<and> (d \<longrightarrow> joinable)"
| "owner_at (Joining d) worker run ptr joinable \<longleftrightarrow> ptr \<noteq> None \<and> joinable"
| "owner_at _ worker run ptr joinable \<longleftrightarrow> run = 0 \<or> ptr \<noteq> None"

definition control_ok :: "('f, 'k) loop_thread \<Rightarrow> bool" where
  "control_ok s \<longleftrightarrow>
     worker_at (lt_worker s) (lt_loop s \<noteq> None) (lt_run s) (lt_loop_ptr s) (lt_joinable s) \<and>
     owner_at (lt_owner s) (lt_worker s) (lt_run s) (lt_loop_ptr s) (lt_joinable s) \<and>
     \<not> (lt_owner s = StartTest \<and> lt_worker s = WorkerPublish) \<and>
     lt_mutex s = (if lt_owner s = StartTest then Some OwnerRole else if lt_worker s = WorkerPublish then Some WorkerRole else None)"

definition loop_at :: "('f \<Rightarrow> 'f loop_action list) \<Rightarrow> ('k \<Rightarrow> bool) \<Rightarrow> ('f, 'k) loop_thread \<Rightarrow> ('f, 'k) event_loop \<Rightarrow> bool" where
  "loop_at prog readable s l \<longleftrightarrow> loop_wf prog readable l \<and> el_thread l = lt_run s \<and>
     (lt_worker s \<noteq> WorkerLoop \<longrightarrow> el_pc l = Outside \<and> todo l = []) \<and>
     ((\<exists>d. lt_owner s = QuitWakeup d) \<longrightarrow> 0 < owed l) \<and> (\<not> lt_asked s \<longrightarrow> unquit prog l) \<and>
     (lt_worker s = WorkerLoop \<and> el_pc l = Outside \<longrightarrow> el_quit l)"

definition lt_ok :: "('f \<Rightarrow> 'f loop_action list) \<Rightarrow> ('k \<Rightarrow> bool) \<Rightarrow> ('f, 'k) loop_thread \<Rightarrow> bool" where
  "lt_ok prog readable s \<longleftrightarrow> control_ok s \<and> (\<forall>l. lt_loop s = Some l \<longrightarrow> loop_at prog readable s l)"

lemma lt_ok_start: "lt_ok prog readable new_EventLoopThread"
  by (simp add: lt_ok_def control_ok_def new_EventLoopThread_def)

lemma control_loop:
  "control_ok s \<Longrightarrow> lt_loop s \<noteq> None \<Longrightarrow> control_ok (s\<lparr>lt_loop := Some l, lt_asked := a\<rparr>)"
  "control_ok s \<Longrightarrow> lt_loop s \<noteq> None \<Longrightarrow> control_ok (s\<lparr>lt_loop := Some l\<rparr>)"
  by (auto simp: control_ok_def)

lemma pointee_loop: "pointee s = Some l \<Longrightarrow> lt_loop s = Some l"
  by (simp add: pointee_def split: if_splits)

lemma control_create: "control_ok s \<Longrightarrow> lt_owner s = OwnerIdle \<Longrightarrow> control_ok (startLoop_create s)"
  by (cases "lt_worker s") (auto simp: control_ok_def startLoop_create_def old_ptr_def split: option.splits)

lemma control_quit:
  "control_ok s \<Longrightarrow> lt_owner s = OwnerIdle \<Longrightarrow> lt_loop_ptr s \<noteq> None \<Longrightarrow> d \<longrightarrow> lt_joinable s \<Longrightarrow> control_ok (owner_quit d s)"
  by (auto simp: owner_quit_def control_ok_def pointee_def split: option.splits if_splits)

lemma control_wakeup: "control_ok s \<Longrightarrow> lt_owner s = QuitWakeup d \<Longrightarrow> control_ok (owner_wakeup wr d s)"
  by (auto simp: owner_wakeup_def control_ok_def dest: pointee_loop split: option.splits)

lemma control_exiting: "control_ok (s\<lparr>lt_exiting := e\<rparr>) = control_ok s"
  by (simp add: control_ok_def)

lemma control_calls:
  assumes "control_ok s" and "lt_owner s = OwnerIdle"
  shows "control_ok (lt_stop s)" "control_ok (lt_join s)" "control_ok (lt_destroy s)"
proof -
  show "control_ok (lt_stop s)" using assms control_quit [OF assms, of False] by (simp add: lt_stop_def)
  show "control_ok (lt_join s)"
    using assms by (cases "lt_worker s") (auto simp: lt_join_def control_ok_def)
  have ex: "control_ok (s\<lparr>lt_exiting := True\<rparr>)" using assms(1) by (simp add: control_exiting)
  have "lt_joinable s \<Longrightarrow> lt_loop_ptr s \<noteq> None" using assms by (cases "lt_worker s") (auto simp: control_ok_def)
  then show "control_ok (lt_destroy s)"
    using assms control_quit [OF ex, of True] by (auto simp: lt_destroy_def control_ok_def Let_def)
qed

lemma control_owner_go:
  assumes "control_ok s" and "owner_go wr s = Some s'"
  shows "control_ok s'"
proof (cases "lt_owner s")
  case (QuitWakeup d)
  then show ?thesis using assms control_wakeup [OF assms(1) QuitWakeup] by (auto simp: owner_go_def)
next
  case StartTest
  then show ?thesis using assms
    by (cases "lt_worker s"; cases "lt_loop_ptr s") (auto simp: owner_go_def startLoop_test_def control_ok_def)
next
  case (Joining d)
  then show ?thesis using assms by (auto simp: owner_go_def joined_def control_ok_def split: if_splits)
next
  case StartLock
  then show ?thesis using assms by (auto simp: owner_go_def control_ok_def split: if_splits)
qed (use assms in \<open>simp_all add: owner_go_def\<close>)

text \<open>The worker's.\<close>

lemma control_construct: "control_ok s \<Longrightarrow> lt_worker s = WorkerConstruct \<Longrightarrow> control_ok (threadFunc_construct c k s)"
  by (cases "lt_owner s") (auto simp: threadFunc_construct_def control_ok_def)

lemma control_enter:
  "control_ok s \<Longrightarrow> lt_worker s = WorkerEnter \<Longrightarrow> loop_enter (lt_run s) l = Inr l' \<Longrightarrow> control_ok (threadFunc_enter l s)"
  by (cases "lt_owner s") (auto simp: threadFunc_enter_def control_ok_def)

lemma control_publish: "control_ok s \<Longrightarrow> lt_worker s = WorkerPublish \<Longrightarrow> control_ok (threadFunc_publish s)"
  by (cases "lt_owner s") (auto simp: threadFunc_publish_def control_ok_def)

lemma control_notify: "control_ok s \<Longrightarrow> lt_worker s = WorkerNotify \<Longrightarrow> control_ok (threadFunc_notify s)"
  by (cases "lt_owner s") (auto simp: threadFunc_notify_def control_ok_def)

lemma control_threadFunc_loop:
  "control_ok s \<Longrightarrow> lt_worker s = WorkerLoop \<Longrightarrow> threadFunc_loop prog wr rd l s = Some s' \<Longrightarrow> control_ok s'"
  by (cases "lt_owner s") (auto simp: threadFunc_loop_def control_ok_def split: if_splits)

lemma control_worker_go:
  assumes "control_ok s" and "worker_go prog wr rd s = Some s'"
    and "\<And>l. lt_worker s = WorkerEnter \<Longrightarrow> lt_loop s = Some l \<Longrightarrow> \<exists>l'. loop_enter (lt_run s) l = Inr l'"
  shows "control_ok s'"
proof (cases "lt_worker s")
  case WorkerEnter
  then obtain l l' where "lt_loop s = Some l" "loop_enter (lt_run s) l = Inr l'"
    using assms by (auto simp: worker_go_def)
  then show ?thesis using assms(1,2) WorkerEnter control_enter [OF assms(1) WorkerEnter] by (auto simp: worker_go_def)
next
  case WorkerLoop
  then show ?thesis using assms(1,2) control_threadFunc_loop by (auto simp: worker_go_def split: option.splits)
next
  case WorkerLock
  then show ?thesis using assms(1,2) by (cases "lt_owner s") (auto simp: worker_go_def control_ok_def split: if_splits)
qed (use assms(1,2) control_publish control_notify in \<open>auto simp: worker_go_def\<close>)


text \<open>The loop under the moves.\<close>

lemma el_frames:
  "el_thread (runInLoop prog t cb l) = el_thread l" "\<not> isInLoopThread t l \<Longrightarrow> el_pc (runInLoop prog t cb l) = el_pc l"
  "el_quit (runInLoop prog t cb l) = el_quit l" "\<not> isInLoopThread t l \<Longrightarrow> owed l \<le> owed (runInLoop prog t cb l)"
  "el_quit (el_quit_by t l)" "el_thread (el_quit_by t l) = el_thread l" "el_pc (el_quit_by t l) = el_pc l" "\<not> isInLoopThread t l \<Longrightarrow> 0 < owed (el_quit_by t l)"
  "el_thread (wakeup wr l) = el_thread l" "el_pc (wakeup wr l) = el_pc l" "el_quit (wakeup wr l) = el_quit l"
  "owed (wakeup wr l) = owed l" "el_thread (loop_wait evs l) = el_thread l" "owed (loop_wait evs l) = owed l"
  "el_quit (loop_wait evs l) = el_quit l" "el_pc (loop_wait evs l) = InEvents"
  by (auto simp: el_defs)

lemma el_frames_next: "el_thread (loop_next prog wr rd l) = el_thread l" "owed (loop_next prog wr rd l) = owed l"
  by (cases "el_pc l"; auto simp: el_defs split: list.splits loop_action.splits loop_event.splits)+

lemma loop_next_quits: "el_pc l \<noteq> Outside \<Longrightarrow> el_pc (loop_next prog wr rd l) = Outside \<Longrightarrow> el_quit (loop_next prog wr rd l)"
  by (cases "el_pc l") (auto simp: el_defs split: list.splits loop_action.splits loop_event.splits if_splits)

lemma loop_at_quit:
  assumes "loop_at prog readable s l" and "eventfd_ok wr readable" and "0 < lt_run s"
  shows "loop_at prog readable (s\<lparr>lt_loop := Some (el_quit_by 0 l), lt_asked := True, lt_owner := p\<rparr>) (el_quit_by 0 l)"
proof -
  have "\<not> isInLoopThread 0 l" using assms(1,3) by (simp add: loop_at_def isInLoopThread_def)
  moreover have "loop_wf prog readable l" using assms(1) by (simp add: loop_at_def)
  ultimately show ?thesis using assms(1) loop_wf_ops(2) [OF _ assms(2), of prog l] by (simp add: loop_at_def el_frames todo_ops)
qed

lemma loop_at_wake:
  assumes "loop_at prog readable s l" and "eventfd_ok wr readable" and "0 < owed l"
    and "(\<exists>d. p = QuitWakeup d) \<longrightarrow> 0 < owed l - 1"
  shows "loop_at prog readable (s\<lparr>lt_loop := L, lt_owner := p\<rparr>) (wakeup wr (l\<lparr>owed := owed l - 1\<rparr>))"
  using assms loop_wf_ops(3) [OF _ assms(2), of prog l]
  by (simp add: loop_at_def el_frames todo_ops unquit_def del: One_nat_def)

text \<open>A move that changes neither the loop nor the worker.\<close>

lemma lt_ok_frame:
  assumes "lt_ok prog readable s" and "control_ok s'" and "lt_loop s' = None \<or> lt_loop s' = lt_loop s" and "lt_run s' = lt_run s"
    and "(lt_worker s = WorkerLoop \<longleftrightarrow> lt_worker s' = WorkerLoop) \<or> lt_loop s' = None" and "lt_asked s' = lt_asked s"
    and "\<And>d. lt_owner s' = QuitWakeup d \<Longrightarrow> lt_owner s = QuitWakeup d"
  shows "lt_ok prog readable s'"
  using assms by (auto simp: lt_ok_def loop_at_def)

lemma control_run: "control_ok s \<Longrightarrow> lt_loop s \<noteq> None \<Longrightarrow> 0 < lt_run s"
  by (cases "lt_worker s") (auto simp: control_ok_def)

lemma lt_ok_quit:
  assumes "lt_ok prog readable s" and "eventfd_ok wr readable" and "lt_owner s = OwnerIdle" and "lt_loop_ptr s \<noteq> None" and "d \<longrightarrow> lt_joinable s"
  shows "lt_ok prog readable (owner_quit d s)"
proof (cases "pointee s")
  case None
  have "control_ok (owner_quit d s)" using assms control_quit by (auto simp: lt_ok_def)
  with None show ?thesis by (intro lt_ok_frame [OF assms(1)]) (auto simp: owner_quit_def)
next
  case (Some l)
  have "control_ok (owner_quit d s)" "0 < lt_run s"
    using assms control_quit control_run pointee_loop [OF Some] by (auto simp: lt_ok_def)
  with Some assms(1) pointee_loop [OF Some] loop_at_quit [OF _ assms(2), of prog s l] show ?thesis
    by (simp add: lt_ok_def owner_quit_def)
qed

lemma lt_ok_calls:
  assumes "lt_ok prog readable s" and "eventfd_ok wr readable" and "lt_owner s = OwnerIdle"
  shows "lt_ok prog readable (startLoop_create s)" "lt_ok prog readable (lt_stop s)" "lt_ok prog readable (lt_join s)"
    "lt_ok prog readable (lt_destroy s)"
proof -
  have c: "control_ok s" using assms(1) by (simp add: lt_ok_def)
  show "lt_ok prog readable (startLoop_create s)"
    using control_create [OF c assms(3)] assms(1,3) by (auto simp: lt_ok_def startLoop_create_def loop_at_def)
  show "lt_ok prog readable (lt_stop s)" using lt_ok_quit [OF assms, of False] assms(1) by (simp add: lt_stop_def)
  show "lt_ok prog readable (lt_join s)"
    by (rule lt_ok_frame [OF assms(1) control_calls(2) [OF c assms(3)]]) (auto simp: lt_join_def assms(3) split: if_splits)
  have ex: "lt_ok prog readable (s\<lparr>lt_exiting := True\<rparr>)"
    by (rule lt_ok_frame [OF assms(1)]) (simp_all add: control_exiting c)
  show "lt_ok prog readable (lt_destroy s)"
  proof (cases "lt_joinable s \<and> lt_loop_ptr s \<noteq> None")
    case True
    then show ?thesis using lt_ok_quit [OF ex assms(2), of True] assms(3) by (simp add: lt_destroy_def Let_def)
  next
    case False
    then show ?thesis
      by (intro lt_ok_frame [OF assms(1) control_calls(3) [OF c assms(3)]]) (auto simp: lt_destroy_def Let_def split: if_splits)
  qed
qed

lemma lt_ok_owner_go:
  assumes "lt_ok prog readable s" and "eventfd_ok wr readable" and "owner_go wr s = Some s'"
  shows "lt_ok prog readable s'"
proof -
  have c: "control_ok s'" using assms(1,3) control_owner_go by (auto simp: lt_ok_def)
  show ?thesis
  proof (cases "\<exists>d l. lt_owner s = QuitWakeup d \<and> pointee s = Some l")
    case True
    then obtain d l where dl: "lt_owner s = QuitWakeup d" "pointee s = Some l" by blast
    then have l: "lt_loop s = Some l" "loop_at prog readable s l" "0 < owed l"
      using assms(1) pointee_loop by (auto simp: lt_ok_def loop_at_def)
    have s': "s' = s\<lparr>lt_loop := Some (wakeup wr (l\<lparr>owed := owed l - 1\<rparr>)), lt_owner := (if d then Joining True else OwnerIdle)\<rparr>"
      using assms(3) dl by (simp add: owner_go_def owner_wakeup_def)
    have "loop_at prog readable s' (wakeup wr (l\<lparr>owed := owed l - 1\<rparr>))"
      unfolding s' by (rule loop_at_wake [OF l(2) assms(2) l(3)]) simp
    with c show ?thesis by (simp add: lt_ok_def s')
  next
    case False
    then show ?thesis
      by (intro lt_ok_frame [OF assms(1) c]; use assms(3) in \<open>auto simp: owner_go_def startLoop_test_def joined_def
          owner_wakeup_def split: owner_pc.splits if_splits option.splits\<close>)
  qed
qed

lemma lt_ok_worker_go:
  assumes "lt_ok prog readable s" and "eventfd_ok wr readable" and "worker_go prog wr rd s = Some s'"
  shows "lt_ok prog readable s'"
proof -
  have enter: "loop_enter (lt_run s) l = Inr (l\<lparr>el_looping := True, el_quit := False, el_pc := AtTest, quit_asked := False\<rparr>)"
    if "lt_worker s = WorkerEnter" "lt_loop s = Some l" for l
    using assms(1) that by (auto simp: lt_ok_def loop_at_def loop_wf_def wake_ok_def loop_enter_def isInLoopThread_def)
  have c: "control_ok s'" by (rule control_worker_go [OF _ assms(3)]) (use assms(1) enter in \<open>auto simp: lt_ok_def\<close>)
  show ?thesis
  proof (cases "lt_worker s")
    case WorkerEnter
    then obtain l where l: "lt_loop s = Some l" "s' = threadFunc_enter l s" using assms(3) by (auto simp: worker_go_def)
    from assms(1) l(1) have at: "loop_at prog readable s l" by (simp add: lt_ok_def)
    let ?l = "l\<lparr>el_looping := True, el_quit := False, el_pc := AtTest, quit_asked := False\<rparr>"
    have "loop_wf prog readable ?l"
      using at enter [OF WorkerEnter l(1)] WorkerEnter loop_wf_ops(5) [OF _ assms(2), of prog l "lt_run s" ?l] by (simp add: loop_at_def)
    then have "loop_at prog readable s' ?l"
      using at WorkerEnter enter [OF WorkerEnter l(1)] l(2) by (simp add: loop_at_def threadFunc_enter_def unquit_def)
    with c l(2) enter [OF WorkerEnter l(1)] show ?thesis by (simp add: lt_ok_def threadFunc_enter_def)
  next
    case WorkerLoop
    then obtain l where l: "lt_loop s = Some l" "threadFunc_loop prog wr rd l s = Some s'"
      using assms(3) by (auto simp: worker_go_def split: option.splits)
    from assms(1) l(1) have at: "loop_at prog readable s l" by (simp add: lt_ok_def)
    show ?thesis
    proof (cases "el_pc l = Outside")
      case True
      with l c show ?thesis by (auto simp: lt_ok_def threadFunc_loop_def)
    next
      case False
      with l(2) have pc: "el_pc l \<noteq> AtWait" "s' = s\<lparr>lt_loop := Some (loop_next prog wr rd l)\<rparr>"
        by (auto simp: threadFunc_loop_def split: if_splits)
      have "loop_at prog readable s' (loop_next prog wr rd l)"
        using at WorkerLoop loop_wf_next [OF _ assms(2) pc(1)] unquit_next loop_next_quits [OF False]
        by (auto simp: loop_at_def pc(2) el_frames_next)
      with c pc(2) show ?thesis by (simp add: lt_ok_def)
    qed
  next
    case WorkerNotify
    then show ?thesis by (intro lt_ok_frame [OF assms(1) c]; use assms(3) in \<open>auto simp: worker_go_def threadFunc_notify_def split: if_splits\<close>)
  qed (intro lt_ok_frame [OF assms(1) c]; use assms(3) in \<open>auto simp: worker_go_def threadFunc_publish_def split: if_splits\<close>)+
qed

lemma lt_ok_construct:
  assumes "lt_ok prog readable s" and "lt_worker s = WorkerConstruct"
  shows "lt_ok prog readable (threadFunc_construct c k s)"
proof -
  have "\<nexists>d. lt_owner s = QuitWakeup d" using assms by (auto simp: lt_ok_def control_ok_def old_ptr_def)
  then show ?thesis
    using assms control_construct
    by (auto simp: lt_ok_def threadFunc_construct_def loop_at_def loop_wf_def new_EventLoop_def queue_ok_def wake_ok_def unquit_def)
qed

text \<open>A step of another thread, or of \<open>epoll_wait\<close>, on the loop.\<close>

lemma lt_ok_on_loop:
  assumes "lt_ok prog readable s" and "lt_loop s = Some l" and "loop_at prog readable (s\<lparr>lt_loop := Some l'\<rparr>) l'"
  shows "lt_ok prog readable (s\<lparr>lt_loop := Some l'\<rparr>)"
  using assms control_loop(2) [of s l'] by (auto simp: lt_ok_def)

lemma lt_ok_move:
  assumes "lt_ok prog readable s" and "eventfd_ok wr readable" and "lt_move prog wr rd readable m s = Some s'"
  shows "lt_ok prog readable s'"
proof -
  have at: "loop_at prog readable s l" if "lt_loop s = Some l" for l using assms(1) that by (simp add: lt_ok_def)
  show ?thesis
  proof (cases m)
    case (WaitReturns evs)
    then obtain l where l: "lt_loop s = Some l" "s' = s\<lparr>lt_loop := Some (loop_wait evs l)\<rparr>" "lt_worker s = WorkerLoop" "el_pc l = AtWait"
      using assms(3) by (auto simp: on_loop_def split: option.splits if_splits)
    show ?thesis unfolding l(2)
      by (rule lt_ok_on_loop [OF assms(1) l(1)])
        (use at [OF l(1)] l(3,4) loop_wf_ops(4) [OF _ assms(2), of prog l] in \<open>simp add: loop_at_def el_frames unquit_def\<close>)
  next
    case (OtherPosts t cb)
    then obtain l where l: "lt_loop s = Some l" "s' = s\<lparr>lt_loop := Some (runInLoop prog t cb l)\<rparr>" "\<not> isInLoopThread t l"
      using assms(3) by (auto simp: on_loop_def split: option.splits if_splits)
    have "0 < owed l \<Longrightarrow> 0 < owed (runInLoop prog t cb l)" using el_frames(4) [OF l(3), of prog cb] by linarith
    then show ?thesis unfolding l(2) using at [OF l(1)] l(3) loop_wf_ops(1) [OF _ assms(2), of prog l t cb]
      by (intro lt_ok_on_loop [OF assms(1) l(1)]) (simp add: loop_at_def el_frames unquit_def todo_ops)
  next
    case OtherWakes
    then obtain l where l: "lt_loop s = Some l" "s' = s\<lparr>lt_loop := Some (wakeup wr (l\<lparr>owed := owed l - 1\<rparr>))\<rparr>" "0 < others_owed s l"
      using assms(3) by (auto simp: on_loop_def split: option.splits if_splits)
    then have "0 < owed l" "(\<exists>d. lt_owner s = QuitWakeup d) \<longrightarrow> 0 < owed l - 1" by (auto simp: others_owed_def)
    then have "loop_at prog readable (s\<lparr>lt_loop := Some (wakeup wr (l\<lparr>owed := owed l - 1\<rparr>)), lt_owner := lt_owner s\<rparr>)
        (wakeup wr (l\<lparr>owed := owed l - 1\<rparr>))"
      by (intro loop_at_wake [OF at [OF l(1)] assms(2)])
    then show ?thesis unfolding l(2) by (intro lt_ok_on_loop [OF assms(1) l(1)]) simp
  next
    case Spurious
    then show ?thesis using assms(3)
      by (intro lt_ok_frame [OF assms(1)]; use assms(1) in \<open>auto simp: lt_ok_def control_ok_def split: if_splits\<close>)
  next
    case (Construct c k)
    then show ?thesis using assms(1,3) lt_ok_construct by (auto split: if_splits)
  qed (use assms(3) lt_ok_calls [OF assms(1,2)] lt_ok_owner_go [OF assms(1,2)] lt_ok_worker_go [OF assms(1,2)]
       in \<open>auto simp: if_idle_def split: if_splits\<close>)
qed

lemma lt_ok_run:
  assumes "eventfd_ok wr readable"
  shows "lt_ok prog readable s \<Longrightarrow> lt_run_moves prog wr rd readable ms s = Some s' \<Longrightarrow> lt_ok prog readable s'"
  by (induction ms arbitrary: s) (auto simp: bind_eq_Some_conv intro: lt_ok_move [OF _ assms])

lemma lt_history:
  assumes "eventfd_ok wr readable" and "lt_run_moves prog wr rd readable ms new_EventLoopThread = Some s"
  shows "lt_ok prog readable s"
  by (rule lt_ok_run [OF assms(1) lt_ok_start assms(2)])

text \<open>While nobody has asked it to quit the worker does not end, and the owner does not miss its loop.\<close>

definition alive :: "('f \<Rightarrow> 'f loop_action list) \<Rightarrow> ('f, 'k) loop_thread \<Rightarrow> bool" where
  "alive prog s \<longleftrightarrow>
     (QuitLoopAction \<notin> code_of prog \<and> \<not> lt_asked s \<longrightarrow>
        lt_worker s \<noteq> WorkerDone \<and> (lt_run s = 1 \<longrightarrow> lt_owner s \<noteq> OwnerFault UseAfterFree)) \<and>
     ((\<exists>d. lt_owner s = QuitWakeup d) \<longrightarrow> lt_asked s) \<and>
     (\<forall>p. lt_returned s = Some p \<longrightarrow> 0 < p \<and> p \<le> lt_run s \<and> lt_loop_ptr s \<noteq> None)"

lemma control_ptr: "control_ok s \<Longrightarrow> lt_loop_ptr s = Some p \<Longrightarrow> 0 < p \<and> p \<le> lt_run s"
  by (cases "lt_worker s") (auto simp: control_ok_def old_ptr_def)

lemma alive_quit:
  assumes "lt_ok prog readable s" and "alive prog s" and "lt_loop_ptr s \<noteq> None"
  shows "alive prog (owner_quit d s)"
proof (cases "pointee s")
  case None
  have "lt_run s = 1 \<Longrightarrow> lt_worker s = WorkerDone"
    using assms(1,3) None by (cases "lt_worker s") (auto simp: lt_ok_def control_ok_def old_ptr_def pointee_def)
  with None assms(2) show ?thesis by (auto simp: alive_def owner_quit_def)
next
  case (Some l)
  with assms(2) show ?thesis by (auto simp: alive_def owner_quit_def)
qed

lemma alive_calls:
  assumes "lt_ok prog readable s" and "alive prog s" and "lt_owner s = OwnerIdle"
  shows "alive prog (startLoop_create s)" "alive prog (lt_stop s)" "alive prog (lt_join s)" "alive prog (lt_destroy s)"
proof -
  show "alive prog (startLoop_create s)" using assms(2) by (auto simp: alive_def startLoop_create_def)
  show "alive prog (lt_stop s)" using assms(2) alive_quit [OF assms(1,2), of False] by (simp add: lt_stop_def)
  show "alive prog (lt_join s)" using assms(2) by (auto simp: alive_def lt_join_def)
  let ?s = "s\<lparr>lt_exiting := True\<rparr>"
  have ex: "lt_ok prog readable ?s" by (rule lt_ok_frame [OF assms(1)]) (use assms(1) in \<open>auto simp: control_exiting lt_ok_def\<close>)
  have "alive prog ?s" using assms(2) by (simp add: alive_def)
  with alive_quit [OF ex this] assms(2) show "alive prog (lt_destroy s)"
    by (auto simp: lt_destroy_def Let_def alive_def)
qed

lemma alive_owner_go:
  assumes "lt_ok prog readable s" and "alive prog s" and "owner_go wr s = Some s'"
  shows "alive prog s'"
proof (cases "lt_owner s")
  case StartTest
  then show ?thesis using assms control_ptr [of s]
    by (cases "lt_loop_ptr s") (auto simp: owner_go_def startLoop_test_def alive_def lt_ok_def)
qed (use assms(2,3) in \<open>auto simp: owner_go_def owner_wakeup_def joined_def alive_def split: option.splits if_splits\<close>)

lemma alive_worker_go:
  assumes "lt_ok prog readable s" and "alive prog s" and "worker_go prog wr rd s = Some s'"
  shows "alive prog s'"
proof (cases "lt_worker s")
  case WorkerLoop
  then obtain l where l: "lt_loop s = Some l" "threadFunc_loop prog wr rd l s = Some s'"
    using assms(3) by (auto simp: worker_go_def split: option.splits)
  then have "QuitLoopAction \<notin> code_of prog \<and> \<not> lt_asked s \<longrightarrow> el_pc l \<noteq> Outside"
    using assms(1) WorkerLoop by (auto simp: lt_ok_def loop_at_def unquit_def)
  with l assms(2) show ?thesis by (auto simp: alive_def threadFunc_loop_def split: if_splits)
next
  case WorkerEnter
  then obtain l where "lt_loop s = Some l" "s' = threadFunc_enter l s" using assms(3) by (auto simp: worker_go_def)
  with assms(2) show ?thesis by (cases "loop_enter (lt_run s) l") (auto simp: alive_def threadFunc_enter_def)
qed (use assms(2,3) in \<open>auto simp: worker_go_def threadFunc_publish_def threadFunc_notify_def alive_def split: if_splits\<close>)

lemma alive_frame: "alive prog s \<Longrightarrow> alive prog (s\<lparr>lt_loop := L\<rparr>)"
  by (simp add: alive_def)

lemma alive_move:
  assumes "lt_ok prog readable s" and "alive prog s" and "lt_move prog wr rd readable m s = Some s'"
  shows "alive prog s'"
proof (cases m)
  case Spurious
  with assms(2,3) show ?thesis by (auto simp: alive_def split: if_splits)
next
  case (Construct c k)
  with assms(2,3) show ?thesis by (auto simp: alive_def threadFunc_construct_def split: if_splits)
next
  case OwnerGo
  with assms show ?thesis using alive_owner_go by simp
next
  case WorkerGo
  with assms show ?thesis using alive_worker_go by simp
qed (use assms(3) alive_calls [OF assms(1,2)] assms(2) alive_frame
     in \<open>auto simp: if_idle_def on_loop_def split: option.splits if_splits\<close>)

lemma alive_run:
  assumes "eventfd_ok wr readable"
  shows "lt_ok prog readable s \<Longrightarrow> alive prog s \<Longrightarrow> lt_run_moves prog wr rd readable ms s = Some s' \<Longrightarrow> alive prog s'"
  by (induction ms arbitrary: s) (auto simp: bind_eq_Some_conv intro: lt_ok_move [OF _ assms] alive_move)

lemma alive_history:
  assumes "eventfd_ok wr readable" and "lt_run_moves prog wr rd readable ms new_EventLoopThread = Some s"
  shows "alive prog s"
  by (rule alive_run [OF assms(1) lt_ok_start _ assms(2)]) (simp add: alive_def new_EventLoopThread_def)

subsection \<open>Properties\<close>


text \<open>
  What \<open>startLoop\<close> returns can be used: after the first \<open>startLoop\<close> the pointer is that of the worker's
  own loop, and until the owner asks it to quit the loop is there, in every schedule, if the code that
  runs in the loop does not quit it.
\<close>

theorem startLoop_hands_over:
  assumes "eventfd_ok wr readable" and "lt_run_moves prog wr rd readable ms new_EventLoopThread = Some s"
    and "\<forall>f. QuitLoopAction \<notin> set (prog f)" and "lt_run s = 1" and "lt_returned s = Some p" and "\<not> lt_asked s"
  shows "p = 1 \<and> (\<exists>l. lt_loop s = Some l \<and> pointee s = Some l \<and> isInLoopThread 1 l) \<and> lt_owner s \<noteq> OwnerFault UseAfterFree"
proof -
  note ok = lt_history [OF assms(1,2)]
  have "QuitLoopAction \<notin> code_of prog" using assms(3) by (simp add: code_of_def)
  then have a: "lt_worker s \<noteq> WorkerDone" "lt_owner s \<noteq> OwnerFault UseAfterFree" "0 < p" "p \<le> 1" "lt_loop_ptr s \<noteq> None"
    using alive_history [OF assms(1,2)] assms(4-6) by (auto simp: alive_def)
  have "lt_loop_ptr s = Some 1 \<and> lt_loop s \<noteq> None"
    using ok a(1,5) assms(4) by (cases "lt_worker s") (auto simp: lt_ok_def control_ok_def old_ptr_def)
  then obtain l where "lt_loop_ptr s = Some 1" "lt_loop s = Some l" by blast
  with ok a(2-4) assms(4) show ?thesis by (auto simp: pointee_def lt_ok_def loop_at_def isInLoopThread_def)
qed

text \<open>The moves that complete a \<open>startLoop\<close>.\<close>

definition finish_start :: "('f, 'k) loop_thread \<Rightarrow> ('f, 'k) lt_event list" where
  "finish_start s =
     (if lt_owner s = StartTest \<and> lt_loop_ptr s \<noteq> None then [OwnerGo]
      else (if lt_owner s = StartTest then [OwnerGo] else []) @
        (case lt_worker s of
           WorkerConstruct \<Rightarrow> [Construct False undefined, WorkerGo, WorkerGo, WorkerGo, OwnerGo, OwnerGo]
         | WorkerLock \<Rightarrow> [WorkerGo, WorkerGo, WorkerGo, OwnerGo, OwnerGo]
         | WorkerPublish \<Rightarrow> [WorkerGo, WorkerGo, OwnerGo, OwnerGo]
         | WorkerNotify \<Rightarrow> [WorkerGo, OwnerGo, OwnerGo]
         | _ \<Rightarrow> [OwnerGo, OwnerGo]))"

lemmas go_simps = owner_go_def worker_go_def startLoop_test_def threadFunc_publish_def threadFunc_notify_def threadFunc_construct_def

text \<open>
  C17. \<open>startLoop\<close> returns: from every state in which the owner is inside it, whatever the schedule was, at
  most seven moves of the two threads, without a spurious wake-up, complete it with a pointer that is
  not null.
\<close>

theorem startLoop_returns:
  assumes "eventfd_ok wr readable" and "lt_run_moves prog wr rd readable ms new_EventLoopThread = Some s"
    and "lt_owner s \<in> {StartLock, StartTest, StartWait}"
  shows "\<exists>ns s'. length ns \<le> 7 \<and> Spurious \<notin> set ns \<and> lt_run_moves prog wr rd readable ns s = Some s' \<and>
    lt_owner s' = OwnerIdle \<and> lt_returned s' = lt_loop_ptr s' \<and> lt_loop_ptr s' \<noteq> None"
proof -
  have c: "control_ok s" using lt_history [OF assms(1,2)] by (simp add: lt_ok_def)
  have "length (finish_start s) \<le> 7 \<and> Spurious \<notin> set (finish_start s)"
    by (cases "lt_worker s") (simp_all add: finish_start_def)
  moreover have "\<exists>s'. lt_run_moves prog wr rd readable (finish_start s) s = Some s' \<and> lt_owner s' = OwnerIdle \<and>
      lt_returned s' = lt_loop_ptr s' \<and> lt_loop_ptr s' \<noteq> None"
    using c assms(3) by (cases "lt_worker s") (auto simp: finish_start_def control_ok_def go_simps)
  ultimately show ?thesis by blast
qed

text \<open>Schedules, for the witnesses: the start up to \<open>startLoop\<close>'s return, and the worker in its loop.\<close>

definition demo_started :: "(nat, nat) lt_event list" where
  "demo_started = [StartLoop, Construct False 0, OwnerGo, OwnerGo, WorkerGo, WorkerGo, WorkerGo, OwnerGo, OwnerGo]"

definition demo_looping :: "(nat, nat) lt_event list" where
  "demo_looping = demo_started @ [WorkerGo]"

abbreviation "demo_moves \<equiv> lt_run_moves idle_prog ev_wr ev_rd ev_readable"

lemmas lt_eval = demo_started_def demo_looping_def owner_defs worker_defs new_EventLoopThread_def new_EventLoop_def
  loop_enter_def isInLoopThread_def cassert_def

lemma demo_started_run:
  "\<exists>s. demo_moves demo_started new_EventLoopThread = Some s \<and> lt_run s = 1 \<and> lt_returned s = Some 1 \<and> \<not> lt_asked s \<and>
     lt_worker s = WorkerEnter"
  by (simp add: lt_eval)

lemma demo_looping_run:
  "\<exists>s l. demo_moves demo_looping new_EventLoopThread = Some s \<and> lt_owner s = OwnerIdle \<and> lt_worker s = WorkerLoop \<and>
     lt_loop s = Some l \<and> el_pc l = AtTest \<and> todo l = []"
  by (simp add: lt_eval)


theorem startLoop_hands_over_witness:
  "\<exists>s l. demo_moves demo_started new_EventLoopThread = Some s \<and> pointee s = Some l \<and> isInLoopThread 1 l"
proof -
  obtain s where s: "demo_moves demo_started new_EventLoopThread = Some s" "lt_run s = 1" "lt_returned s = Some 1" "\<not> lt_asked s"
    using demo_started_run by blast
  have "\<forall>f. QuitLoopAction \<notin> set (idle_prog f)" by (simp add: idle_prog_def)
  from startLoop_hands_over [OF ev_ok s(1) this s(2-4)] s(1) show ?thesis by blast
qed

theorem startLoop_returns_witness:
  "\<exists>ns s'. demo_moves ([StartLoop] @ ns) new_EventLoopThread = Some s' \<and> lt_owner s' = OwnerIdle \<and> lt_returned s' \<noteq> None"
proof -
  obtain s where s: "demo_moves [StartLoop] new_EventLoopThread = Some s" "lt_owner s = StartLock"
    by (simp add: lt_eval)
  then have "lt_owner s \<in> {StartLock, StartTest, StartWait}" by simp
  from startLoop_returns [OF ev_ok s(1) this] obtain ns s' where
    "demo_moves ns s = Some s'" "lt_owner s' = OwnerIdle" "lt_returned s' \<noteq> None" by auto
  with s(1) show ?thesis unfolding lt_run_moves_append by (intro exI [of _ ns] exI [of _ s']) simp
qed

text \<open>A wait without end: the owner joins, and the loop has no request to quit.\<close>

definition stuck :: "('f \<Rightarrow> 'f loop_action list) \<Rightarrow> ('f, 'k) loop_thread \<Rightarrow> bool" where
  "stuck prog s \<longleftrightarrow> lt_owner s = Joining True \<and> lt_worker s = WorkerLoop \<and>
     (\<exists>l. lt_loop s = Some l \<and> el_pc l \<noteq> Outside \<and> \<not> el_quit l \<and> set (todo l) \<subseteq> code_of prog)"

lemma stuck_next:
  assumes "QuitLoopAction \<notin> code_of prog" and "el_pc l \<noteq> Outside" and "\<not> el_quit l" and "set (todo l) \<subseteq> code_of prog"
  shows "el_pc (loop_next prog wr rd l) \<noteq> Outside \<and> \<not> el_quit (loop_next prog wr rd l) \<and>
    set (todo (loop_next prog wr rd l)) \<subseteq> code_of prog"
  using assms code_of_prog [of prog]
  by (cases "el_pc l") (auto simp: el_defs split: list.splits loop_action.splits loop_event.splits if_splits)

lemma stuck_move:
  assumes "QuitLoopAction \<notin> code_of prog" and "stuck prog s" and "lt_move prog wr rd readable m s = Some s'"
  shows "stuck prog s'"
proof -
  obtain l where l: "lt_owner s = Joining True" "lt_worker s = WorkerLoop" "lt_loop s = Some l"
    "el_pc l \<noteq> Outside" "\<not> el_quit l" "set (todo l) \<subseteq> code_of prog" using assms(2) by (auto simp: stuck_def)
  show ?thesis
  proof (cases m)
    case WorkerGo
    with assms(3) l stuck_next [OF assms(1) l(4-6)] show ?thesis
      by (auto simp: stuck_def worker_go_def threadFunc_loop_def split: if_splits)
  qed (use assms(3) l in \<open>auto simp: stuck_def if_idle_def owner_go_def on_loop_def el_frames todo_ops split: if_splits\<close>)
qed

lemma stuck_run:
  assumes "QuitLoopAction \<notin> code_of prog"
  shows "stuck prog s \<Longrightarrow> lt_run_moves prog wr rd readable ms s = Some s' \<Longrightarrow> stuck prog s'"
  by (induction ms arbitrary: s) (auto simp: bind_eq_Some_conv intro: stuck_move [OF assms])

text \<open>
  C38. The destructor can wait for ever: when the owner asks the loop to quit after \<open>startLoop\<close> has returned
  but before the worker has entered \<open>loop\<close>, which resets the request, then no schedule from there on ends
  the \<open>join\<close>, if the code that runs in the loop does not quit it.
\<close>

theorem destroy_before_loop_hangs:
  assumes "\<forall>f. QuitLoopAction \<notin> set (prog f)"
  shows "\<exists>ms s. lt_run_moves prog wr rd readable ms new_EventLoopThread = Some s \<and> lt_asked s \<and> lt_owner s = Joining True \<and>
    (\<forall>ns s'. lt_run_moves prog wr rd readable ns s = Some s' \<longrightarrow> lt_owner s' = Joining True)"
proof -
  have q: "QuitLoopAction \<notin> code_of prog" using assms by (simp add: code_of_def)
  let ?ms = "[StartLoop, Construct False undefined, WorkerGo, WorkerGo, WorkerGo, OwnerGo, OwnerGo, Destroy, OwnerGo, WorkerGo]"
  obtain s where s: "lt_run_moves prog wr rd readable ?ms new_EventLoopThread = Some s" "lt_asked s" "stuck prog s"
    by (simp add: lt_eval stuck_def el_quit_by_def wakeup_def)
  with stuck_run [OF q s(3)] have "lt_owner s' = Joining True" if "lt_run_moves prog wr rd readable ns s = Some s'" for ns s'
    using that by (auto simp: stuck_def)
  moreover have "lt_owner s = Joining True" using s(3) by (simp add: stuck_def)
  ultimately show ?thesis using s(1,2) by blast
qed

theorem destroy_before_loop_hangs_witness:
  "\<exists>ms s. demo_moves ms new_EventLoopThread = Some s \<and> lt_asked s \<and> lt_owner s = Joining True \<and>
    (\<forall>ns s'. demo_moves ns s = Some s' \<longrightarrow> lt_owner s' = Joining True)"
  by (rule destroy_before_loop_hangs) (simp add: idle_prog_def)

text \<open>
  A loop told to quit ends: the rest of its turn gets shorter with each step. \<open>turn_left\<close> is the part of
  the turn, the functors and events left in it, and the code left of the current one.
\<close>

fun turn_part :: "loop_pc \<Rightarrow> nat" where
  "turn_part AtSwap = 5"
| "turn_part InFunctors = 4"
| "turn_part AtWait = 3"
| "turn_part InEvents = 2"
| "turn_part AtTest = 1"
| "turn_part Outside = 0"

definition turn_left :: "(('f, 'k) event_loop \<times> ('f, 'k) event_loop) set" where
  "turn_left = inv_image (less_than <*lex*> less_than <*lex*> less_than)
     (\<lambda>l. (turn_part (el_pc l), length (functors l) + length (el_events l), length (todo l)))"

lemma wf_turn_left: "wf turn_left"
  unfolding turn_left_def by (intro wf_inv_image wf_lex_prod wf_less_than)

lemma turn_step:
  assumes "el_quit l" and "el_pc l \<notin> {AtWait, Outside}" and "\<forall>cb. RunInLoop cb \<notin> set (todo l)"
  shows "(loop_next prog wr rd l, l) \<in> turn_left \<and> el_quit (loop_next prog wr rd l)"
  using assms
  by (cases "el_pc l") (auto simp: turn_left_def el_defs split: list.splits loop_action.splits loop_event.splits)

lemma turn_wait: "el_pc l = AtWait \<Longrightarrow> (loop_wait evs l, l) \<in> turn_left"
  by (simp add: turn_left_def loop_wait_def)

lemma quit_loop_ends:
  assumes "eventfd_ok wr readable" and "\<And>cb. RunInLoop cb \<notin> code_of prog"
  shows "lt_ok prog readable s \<Longrightarrow> lt_worker s = WorkerLoop \<Longrightarrow> lt_loop s = Some l \<Longrightarrow> el_quit l \<Longrightarrow>
    \<exists>ns. (\<forall>n\<in>set ns. n = WorkerGo \<or> (\<exists>evs. n = WaitReturns evs)) \<and>
      lt_run_moves prog wr rd readable ns s = Some (s\<lparr>lt_loop := None, lt_worker := WorkerDone\<rparr>)"
proof (induction l arbitrary: s rule: wf_induct_rule [OF wf_turn_left])
  case (1 l)
  let ?ends = "\<lambda>s'. \<exists>ns. (\<forall>n\<in>set ns. n = WorkerGo \<or> (\<exists>evs. n = WaitReturns evs)) \<and>
      lt_run_moves prog wr rd readable ns s' = Some (s\<lparr>lt_loop := None, lt_worker := WorkerDone\<rparr>)"
  have go: "?ends s" if "n = WorkerGo \<or> (\<exists>evs. n = WaitReturns evs)" "lt_move prog wr rd readable n s = Some s'" "?ends s'" for n s'
  proof -
    from that(3) obtain ns where "\<forall>n\<in>set ns. n = WorkerGo \<or> (\<exists>evs. n = WaitReturns evs)"
      "lt_run_moves prog wr rd readable ns s' = Some (s\<lparr>lt_loop := None, lt_worker := WorkerDone\<rparr>)" by blast
    with that(1,2) show ?thesis by (intro exI [of _ "n # ns"]) auto
  qed
  have next_loop: "?ends (s\<lparr>lt_loop := Some l'\<rparr>)"
    if "(l', l) \<in> turn_left" "el_quit l'" "lt_move prog wr rd readable n s = Some (s\<lparr>lt_loop := Some l'\<rparr>)" for l' n
    using 1(1) [OF that(1), of "s\<lparr>lt_loop := Some l'\<rparr>"] lt_ok_move [OF 1(2) assms(1) that(3)] 1(3) that(2) by simp
  consider (out) "el_pc l = Outside" | (wait) "el_pc l = AtWait" | (run) "el_pc l \<notin> {AtWait, Outside}" by blast
  then show ?case
  proof cases
    case out
    with 1(3,4) show ?thesis by (intro exI [of _ "[WorkerGo]"]) (simp add: worker_go_def threadFunc_loop_def)
  next
    case wait
    let ?evs = "if readable (wakeup_fd l) then [WakeupEvent] else []"
    have m: "lt_move prog wr rd readable (WaitReturns ?evs) s = Some (s\<lparr>lt_loop := Some (loop_wait ?evs l)\<rparr>)"
      using 1(3,4) wait by (simp add: on_loop_def)
    show ?thesis by (rule go [OF _ m next_loop [OF turn_wait [OF wait] _ m]]) (use 1(5) in \<open>simp_all add: el_frames\<close>)
  next
    case run
    have "\<forall>cb. RunInLoop cb \<notin> set (todo l)" using 1(2,4) assms(2) by (auto simp: lt_ok_def loop_at_def loop_wf_def)
    note t = turn_step [OF 1(5) run this, of prog wr rd]
    have m: "lt_move prog wr rd readable WorkerGo s = Some (s\<lparr>lt_loop := Some (loop_next prog wr rd l)\<rparr>)"
      using 1(3,4) run by (simp add: worker_go_def threadFunc_loop_def)
    show ?thesis by (rule go [OF _ m next_loop [OF _ _ m]]) (use t in simp_all)
  qed
qed


definition demo_joining :: "(nat, nat) lt_event list" where
  "demo_joining = demo_looping @ [WorkerGo, Stop, OwnerGo, Join]"


text \<open>
  \<open>quit\<close> can use the loop after its end: from every state in which the worker is in front of the test of
  \<open>quit_\<close>, the destructor sets the flag, the worker sees it and leaves \<open>threadFunc\<close>, and the rest of \<open>quit\<close>
  reads and writes through a pointer into the stack of a thread that is gone.
\<close>

theorem quit_races_with_exit:
  assumes "eventfd_ok wr readable" and "lt_run_moves prog wr rd readable ms new_EventLoopThread = Some s"
    and "lt_owner s = OwnerIdle" and "lt_worker s = WorkerLoop" and "lt_loop s = Some l" and "el_pc l = AtTest" and "todo l = []"
  shows "\<exists>s'. lt_run_moves prog wr rd readable [Destroy, WorkerGo, WorkerGo, OwnerGo] s = Some s' \<and>
    lt_owner s' = OwnerFault UseAfterFree"
proof -
  have "lt_joinable s" "lt_loop_ptr s = Some (lt_run s)"
    using lt_history [OF assms(1,2)] assms(4) by (auto simp: lt_ok_def control_ok_def)
  then show ?thesis using assms(3-7)
    by (simp add: owner_defs worker_defs el_quit_by_def loop_next_def loop_test_def Let_def)
qed

theorem quit_races_with_exit_witness:
  "\<exists>s s'. demo_moves demo_looping new_EventLoopThread = Some s \<and>
     demo_moves [Destroy, WorkerGo, WorkerGo, OwnerGo] s = Some s' \<and> lt_owner s' = OwnerFault UseAfterFree"
proof -
  obtain s l where s: "demo_moves demo_looping new_EventLoopThread = Some s" "lt_owner s = OwnerIdle" "lt_worker s = WorkerLoop"
    "lt_loop s = Some l" "el_pc l = AtTest" "todo l = []" using demo_looping_run by blast
  from quit_races_with_exit [OF ev_ok s] s(1) show ?thesis by blast
qed

text \<open>
  A second \<open>startLoop\<close> returns the pointer of the first: \<open>loop_ptr_\<close> is not reset, so after a \<open>join\<close> the
  new \<open>startLoop\<close> can find the old pointer and return it while the new loop does not exist yet, and
  using it, as \<open>stop\<close> does, is a use after free.
\<close>

theorem restart_returns_stale:
  assumes "eventfd_ok wr readable" and "lt_run_moves prog wr rd readable ms new_EventLoopThread = Some s"
    and "lt_owner s = OwnerIdle" and "\<not> lt_joinable s" and "lt_loop_ptr s = Some p"
  shows "\<exists>s' s''. lt_run_moves prog wr rd readable [StartLoop, OwnerGo, OwnerGo] s = Some s' \<and> lt_owner s' = OwnerIdle \<and>
    lt_returned s' = Some p \<and> p < lt_run s' \<and> lt_loop s' = None \<and>
    lt_run_moves prog wr rd readable [Stop] s' = Some s'' \<and> lt_owner s'' = OwnerFault UseAfterFree"
proof -
  have c: "control_ok s" using lt_history [OF assms(1,2)] by (simp add: lt_ok_def)
  then have "lt_worker s = WorkerDone" using assms(4,5) by (cases "lt_worker s") (auto simp: control_ok_def)
  with c assms(3) have "lt_mutex s = None" by (simp add: control_ok_def)
  then show ?thesis using assms(3-5) control_ptr [OF c assms(5)] by (simp add: owner_defs)
qed

text \<open>One life of a worker: started, stopped while it loops, joined.\<close>

definition demo_life :: "(nat, nat) lt_event list" where
  "demo_life = demo_looping @ [Stop, OwnerGo, WorkerGo, WorkerGo, Join, OwnerGo]"

lemma demo_life_run:
  "\<exists>s. demo_moves demo_life new_EventLoopThread = Some s \<and> lt_owner s = OwnerIdle \<and> \<not> lt_joinable s \<and> lt_loop_ptr s = Some 1"
  by (simp add: demo_life_def lt_eval el_quit_by_def wakeup_def loop_next_def loop_test_def)

theorem restart_returns_stale_witness:
  "\<exists>s s'. demo_moves demo_life new_EventLoopThread = Some s \<and> demo_moves [StartLoop, OwnerGo, OwnerGo] s = Some s' \<and>
     lt_returned s' = Some 1 \<and> lt_loop s' = None"
proof -
  obtain s where s: "demo_moves demo_life new_EventLoopThread = Some s" "lt_owner s = OwnerIdle" "\<not> lt_joinable s" "lt_loop_ptr s = Some 1"
    using demo_life_run by blast
  from restart_returns_stale [OF ev_ok s] s(1) show ?thesis by blast
qed

end
