(* ===== verification/Gateway.thy ===== *)
theory Gateway
  imports Server LbHandler HealthCheck
begin

text \<open>
  The gateway of src/demos/static_proxy_server.cpp: a server whose handler factory makes a load
  balancer's handler for each client. The life of one client connection crosses every component: the
  server establishes it in its worker's loop (Server.thy), the connection calls its handler, the
  handler takes a backend and dials it (LbHandler.thy), and the two connections relay.
\<close>

subsection \<open>Set-up\<close>

definition gateway_backends :: "(string \<Rightarrow> ipv4) \<Rightarrow> load_balancer" where
  "gateway_backends inet_addr =
     addBackend (new_InetAddress inet_addr ''127.0.0.1'' 8003)
      (addBackend (new_InetAddress inet_addr ''127.0.0.1'' 8002)
        (addBackend (new_InetAddress inet_addr ''127.0.0.1'' 8001) new_LoadBalancer))"

text \<open>The server's handlers carry no data of their own here: the handler is the relay's member.\<close>

definition gateway_server :: "'w accept_env \<Rightarrow> (string \<Rightarrow> ipv4) \<Rightarrow> 'l \<Rightarrow> 'w
    \<Rightarrow> (('l, relay_cb, unit) server \<times> 'w) res" where
  "gateway_server env inet_addr main_loop w =
     bind_res (new_Server env main_loop ServerRemove (new_InetAddress inet_addr ''0.0.0.0'' 8080) w) (\<lambda>(sv, w).
     Inr (sv\<lparr>sv_handlerFactory := Some (\<lambda>_. ())\<rparr>, w))"

text \<open>A new handler, before its connection exists.\<close>

definition gateway_client :: "load_balancer \<Rightarrow> lb_timer timers \<Rightarrow> 'k \<Rightarrow> 'k lb_relay" where
  "gateway_client lb ts k = \<lparr>rl_conns = (\<lambda>_. None), rl_app = new_LoadBalancerHandler lb ts, rl_posted = [],
     rl_removed = False, rl_kern = k\<rparr>"

subsection \<open>Establishing a client's connection\<close>

text \<open>The calls that dial the backend succeed, or are in progress, and move no bytes.\<close>

definition dials :: "'k net_env \<Rightarrow> 'k view \<Rightarrow> fd \<Rightarrow> inet_address \<Rightarrow> bool" where
  "dials ne K sock addr \<longleftrightarrow> 0 \<le> sock \<and> (\<forall>k. \<exists>k1 ret err k2. net_socket ne k = (sock, k1) \<and>
     net_connect ne sock addr (net_nonblock ne sock k1) = (ret, err, k2) \<and> (0 \<le> ret \<or> err = EINPROGRESS) \<and> same_view K k k2)"

text \<open>\<open>onConnection\<close> in the functor phase, where the server's functor calls it: the dialling is posted.\<close>

lemma lb_onConnection_posts:
  assumes "rl_conns rl Front = Some f" and "tcp_state f = kConnected"
    and "getNextBackend (lbh_load_balancer (rl_app rl)) = Inr (Some addr, lb')"
  shows "lb_onConnection (in_functors ne) e rl =
    Inr (rl\<lparr>rl_app := (lbh_startInitial (net_addr ne (rl_kern rl)) (rl_app rl))\<lparr>lbh_load_balancer := lb'\<rparr>,
            rl_posted := rl_posted rl @ [CreateBackend addr '''']\<rparr>)"
proof -
  have "lbh_load_balancer (lbh_startInitial a (rl_app rl)) = lbh_load_balancer (rl_app rl)" for a
    by (simp add: lbh_startInitial_def lbh_runAfter_def ts_add_def)
  with assms show ?thesis
    by (simp add: lb_onConnection_def rl_connected_def Let_def rl_runInLoop_def on_app_def in_functors_def)
qed

lemma isWriting_reading: "isWriting (ch\<lparr>ch_events := ch_events ch OR EPOLLIN\<rparr>) = isWriting ch"
  by (simp add: mask_bits bit_or_iff bit_masks)

text \<open>The state the functor leaves: a client without a backend, and the dialling still to come.\<close>

definition client_waits :: "'k view \<Rightarrow> nat \<Rightarrow> inet_address \<Rightarrow> fd \<Rightarrow> 'k lb_relay \<Rightarrow> bool" where
  "client_waits K N addr sock rl \<longleftrightarrow>
     (\<exists>f. rl_conns rl Front = Some f \<and> fresh_front K N (rl_kern rl) f \<and> sock \<noteq> conn_fd f) \<and> rl_conns rl Back = None \<and>
     \<not> lbh_backend_connected (rl_app rl) \<and> rl_posted rl = [CreateBackend addr ''''] \<and>
     vw_sent K (rl_kern rl) sock = [] \<and> vw_taken K (rl_kern rl) sock = [] \<and> bounded K N 0 (rl_kern rl)"

lemma gateway_establishes:
  assumes ne: "net_ok ne K" and free: "sv_connections sv name = None" and factory: "sv_handlerFactory sv = Some (\<lambda>_. ())"
    and plain: "sv_connectionCallback sv = None" and backend: "getNextBackend lb = Inr (Some addr, lb')"
    and new: "vw_sent K k f = []" "vw_taken K k f = []" "vw_sent K k sock = []" "vw_taken K k sock = []" "sock \<noteq> f"
    and bd: "bounded K N 0 k" and n: "N \<le> vector_max_size - 8"
  shows "\<exists>c rl1. server_establish (lb_env (in_functors ne) (Suc n) Front) name f pa (sv, gateway_client lb ts k) =
      Inr (sv\<lparr>sv_connections := (sv_connections sv)(name \<mapsto> c)\<rparr>, rl1) \<and> client_waits K N addr sock (rl_put Front c rl1)"
proof -
  let ?e = "lb_env (in_functors ne) (Suc n) Front" and ?g = "gateway_client lb ts k"
  obtain c0 :: relay_conn where c0: "new_TcpConnection name f pa = Inr c0" "conn_fd c0 = f" "\<not> isWriting (conn_channel c0)"
    "buffer_inv (input_buffer c0)" "buffer_inv (output_buffer c0)"
    "content (input_buffer c0) = []" "content (output_buffer c0) = []"
    "room (input_buffer c0) = vector_max_size - 8" "room (output_buffer c0) = vector_max_size - 8"
    using new_TcpConnection_ok [of name f pa] by blast
  let ?c2 = "(setHandler () c0)\<lparr>connection_callback := None, message_callback := sv_messageCallback sv,
    write_complete_callback := sv_writeCompleteCallback sv, conn_close_callback := Some (sv_removeCallback sv)\<rparr>"
  define ch where "ch = (conn_channel c0)\<lparr>ch_events := ch_events (conn_channel c0) OR EPOLLIN\<rparr>"
  define k1 where "k1 = updateChannel (net_epoll ne) ch k"
  let ?c = "?c2\<lparr>tcp_state := kConnected, conn_channel := ch\<rparr>"
  let ?h = "(lbh_startInitial (net_addr ne k1) (new_LoadBalancerHandler lb ts))\<lparr>lbh_load_balancer := lb'\<rparr>"
  let ?rl1 = "?g\<lparr>rl_kern := k1, rl_app := ?h, rl_posted := [CreateBackend addr '''']\<rparr>"
  have view: "same_view K k k1" unfolding k1_def by (rule net_update [OF ne])
  have upd: "updateChannel (env_epoll ?e) ch' rl = rl\<lparr>rl_kern := updateChannel (net_epoll ne) ch' (rl_kern rl)\<rparr>" for ch' rl
    using lifts_update [of "in_functors ne" "lb_env (in_functors ne) (Suc n)"] by (simp add: in_functors_def)
  have loop: "env_in_loop ?e rl" for rl using net_okD(6) [OF ne] by (simp add: relay_env_def in_functors_def)
  have on: "on_channel ?e enableReading (set_state kConnected (?c2, ?g)) = (?c, ?g\<lparr>rl_kern := k1\<rparr>)"
    by (simp add: on_channel_def enableReading_def set_events_def Let_def set_state_def upd ch_def k1_def setHandler_def
        gateway_client_def del: lb_env.simps)
  have "lb_onConnection (in_functors ne) (lb_env (in_functors ne) n) (rl_put Front ?c (?g\<lparr>rl_kern := k1\<rparr>)) =
      Inr (rl_put Front ?c ?rl1)"
    by (subst lb_onConnection_posts [where f = ?c and lb' = lb'])
      (use backend in \<open>simp_all add: gateway_client_def new_LoadBalancerHandler_def rl_put_def\<close>)
  then have call: "env_on_connection ?e () (?c, ?g\<lparr>rl_kern := k1\<rparr>) = Inr (?c, ?rl1)"
    by (simp add: relay_env_def enter_def rl_take_def rl_put_def gateway_client_def fun_upd_idem)
  have "connectEstablished ?e (?c2, ?g) = Inr (?c, ?rl1)"
    unfolding connectEstablished_def in_loop_def Let_def on using loop call
    by (simp add: call_opt_def setHandler_def del: lb_env.simps)
  then have "server_establish ?e name f pa (sv, ?g) = Inr (sv\<lparr>sv_connections := (sv_connections sv)(name \<mapsto> ?c)\<rparr>, ?rl1)"
    using c0(1) free factory plain by (simp add: server_establish_def release_old_def del: lb_env.simps)
  moreover have "fresh_front K N k1 ?c"
    using c0 new view n isWriting_reading [of "conn_channel c0"]
    by (simp add: fresh_front_def setHandler_def same_view_def ch_def)
  then have "client_waits K N addr sock (rl_put Front ?c ?rl1)"
    using new view bd c0(2)
    by (auto simp: client_waits_def gateway_client_def rl_put_def setHandler_def same_view_def bounded_def
        lbh_startInitial_def lbh_runAfter_def ts_add_def new_LoadBalancerHandler_def)
  ultimately show ?thesis by blast
qed

text \<open>While the dialling is still to come, the client's first bytes are kept in its input buffer.\<close>

lemma fresh_front_kern:
  "fresh_front K N k f \<Longrightarrow> vw_sent K k' = vw_sent K k \<Longrightarrow> vw_taken K k' = vw_taken K k \<Longrightarrow> fresh_front K N k' f"
  by (simp add: fresh_front_def)

lemma fresh_front_arrived:
  assumes "fresh_front K N k f" and "buffer_inv b" and "content b = content (input_buffer f) @ d"
    and "room (input_buffer f) - length d \<le> room b" and "vw_sent K k' = vw_sent K k"
    and "vw_taken K k' = (vw_taken K k)(conn_fd f := vw_taken K k (conn_fd f) @ d)"
  shows "fresh_front K N k' (f\<lparr>input_buffer := b\<rparr>)"
  using assms by (auto simp: fresh_front_def)

lemma waits_message:
  assumes "client_waits K N addr sock rl"
  shows "\<exists>rl'. lb_onMessage ne e rl = Inr rl' \<and> client_waits K N addr sock rl' \<and> inside K rl rl'"
  using assms by (auto simp: lb_onMessage_def Let_def on_app_def client_waits_def inside_def)

lemma waits_step:
  assumes ne: "net_ok ne K" and w: "client_waits K N addr sock rl" and ev: "enabled K N 0 rl ev"
  shows "\<exists>rl'. relay_do (lb_env ne (Suc n)) ev rl = Some (Inr rl') \<and> client_waits K N addr sock rl'"
proof -
  obtain f where f: "rl_conns rl Front = Some f" "fresh_front K N (rl_kern rl) f" "sock \<noteq> conn_fd f" "rl_conns rl Back = None"
    using w by (auto simp: client_waits_def)
  show ?thesis
  proof (cases ev)
    case (Arrive k)
    with ev w show ?thesis by (auto simp: enabled_def client_waits_def intro: fresh_front_kern)
  next
    case (Writable sd)
    with ev f(4) have sd: "sd = Front" by (cases sd) (auto simp: enabled_def)
    have "handleWrite (lb_env ne (Suc n) Front) (f, w) = Inr (f, w)" for w
      using f(2) net_okD(6) [OF ne] by (simp add: handleWrite_def in_loop_def fresh_front_def relay_env_def)
    then have "relay_do (lb_env ne (Suc n)) ev rl = Some (Inr rl)"
      using f(1) by (simp add: Writable sd on_conn_def rl_take_def rl_put_same del: lb_env.simps)
    with w show ?thesis by blast
  next
    case (Readable sd)
    with ev f(4) have sd: "sd = Front" by (cases sd) (auto simp: enabled_def)
    show ?thesis unfolding Readable sd
    proof (rule relay_read [where I = "client_waits K N addr sock", OF ne lb_env.simps(2)])
      fix rl k assume "client_waits K N addr sock rl" "same_view K (rl_kern rl) k"
      then show "client_waits K N addr sock (rl\<lparr>rl_kern := k\<rparr>)"
        by (auto simp: client_waits_def same_view_def bounded_def intro: fresh_front_kern)
    next
      fix rl c assume "client_waits K N addr sock rl" "rl_conns rl Front = Some c"
      then show "buffer_inv (input_buffer c) \<and> N \<le> room (input_buffer c) + length (vw_taken K (rl_kern rl) (conn_fd c)) \<and>
        (Front = Front \<and> handler c = Some () \<or> Front = Back \<and> handler c = None \<and> message_callback c = Some BackMessage)"
        by (auto simp: client_waits_def fresh_front_def)
    next
      fix c w d ds b k
      assume i: "client_waits K N addr sock (rl_put Front c w)" and b: "buffer_inv b" "content b = content (input_buffer c) @ d"
          "room (input_buffer c) - length d \<le> room b"
        and k: "vw_sent K k = vw_sent K (rl_kern w)"
          "vw_taken K k = (vw_taken K (rl_kern w))(conn_fd c := vw_taken K (rl_kern w) (conn_fd c) @ d)" "bounded K N 0 k"
      let ?rl = "rl_put Front (c\<lparr>input_buffer := b\<rparr>) (w\<lparr>rl_kern := k\<rparr>)"
      have "fresh_front K N k (c\<lparr>input_buffer := b\<rparr>)"
        using i b k by (intro fresh_front_arrived [where k = "rl_kern w"]) (simp_all add: client_waits_def)
      then have "client_waits K N addr sock ?rl" using i k by (auto simp: client_waits_def rl_put_def)
      from waits_message [OF this] show "\<exists>rl'. (case Front of Front \<Rightarrow> lb_onMessage ne (lb_env ne n) |
          Back \<Rightarrow> lb_call ne (lb_env ne n) BackMessage) ?rl = Inr rl' \<and> client_waits K N addr sock rl' \<and> inside K ?rl rl'"
        by simp
    qed (use w f(1) in \<open>simp_all add: client_waits_def\<close>)
  qed
qed

lemma waits_reach:
  assumes "net_ok ne K"
  shows "relay_reach (lb_env ne (Suc n)) K N 0 rl0 rl \<Longrightarrow> client_waits K N addr sock rl0 \<Longrightarrow> client_waits K N addr sock rl"
proof (induction rule: relay_reach.induct)
  case (relay_more rl ev rl')
  from waits_step [OF assms relay_more.IH [OF relay_more.prems] relay_more.hyps(2), of n] relay_more.hyps(3) show ?case by auto
qed simp

lemma gateway_backends_start:
  "lb_inv (gateway_backends ia)" "healthy_backends (gateway_backends ia) = []"
  by (simp_all add: gateway_backends_def inv_intros) (simp add: addBackend_def new_LoadBalancer_def)

text \<open>A client that no backend can be found for is only half closed: nothing is sent, posted or closed.\<close>

lemma lb_onConnection_none:
  assumes ne: "net_ok ne K" and "rl_conns rl Front = Some f" and "tcp_state f = kConnected"
    and "getNextBackend (lbh_load_balancer (rl_app rl)) = Inr (None, lb')"
  shows "\<exists>rl'. lb_onConnection (in_functors ne) (lb_env (in_functors ne) n) rl = Inr rl' \<and>
    rl_conns rl' = (rl_conns rl)(Front \<mapsto> f\<lparr>tcp_state := kDisConnecting\<rparr>) \<and> rl_posted rl' = rl_posted rl \<and>
    rl_kern rl' = rl_kern rl"
proof -
  have "lbh_load_balancer (lbh_startInitial a (rl_app rl)) = lbh_load_balancer (rl_app rl)" for a
    by (simp add: lbh_startInitial_def lbh_runAfter_def ts_add_def)
  moreover have "env_in_loop (lb_env (in_functors ne) n Front) w" for w
    using net_okD(6) [OF ne] by (cases n) (simp_all add: leaf_env_def relay_env_def in_functors_def)
  ultimately show ?thesis using assms(2-4)
    by (simp add: lb_onConnection_def rl_connected_def Let_def on_app_def rl_shutdown_def on_conn_def rl_take_def
        shutdown_def shutdownInLoop_def in_loop_def set_state_def rl_put_def del: lb_env.simps)
qed

subsection \<open>Properties\<close>


text \<open>The gateway as the program sets it up, once the health checker has found a backend.\<close>

definition demo_gateway_lb :: load_balancer where
  "demo_gateway_lb = updateHealthStatus (new_InetAddress (\<lambda>_. (127, 0, 0, 1)) ''127.0.0.1'' 8001) True
     (gateway_backends (\<lambda>_. (127, 0, 0, 1)))"

lemma demo_gateway_server:
  "\<exists>sv w. gateway_server acc_env (\<lambda>_. (127, 0, 0, 1)) (0 :: nat) ([], 5, []) = Inr (sv, w) \<and> sv_connections sv = (\<lambda>_. None) \<and>
     sv_handlerFactory sv = Some (\<lambda>_. ()) \<and> sv_connectionCallback sv = None"
proof -
  obtain a w where "new_Acceptor acc_env (new_InetAddress (\<lambda>_. (127, 0, 0, 1)) ''0.0.0.0'' 8080) ([], 5, []) = (a, w)"
    by (cases "new_Acceptor acc_env (new_InetAddress (\<lambda>_. (127, 0, 0, 1)) ''0.0.0.0'' 8080) ([], 5, [])")
  then show ?thesis by (cases w) (simp add: gateway_server_def new_Server_def new_threadPool_def)
qed



text \<open>The second backend accepts, the first refuses, the third keeps the check waiting.\<close>

definition local_backend :: "uint16 \<Rightarrow> inet_address" where
  "local_backend port = new_InetAddress (\<lambda>_. (127, 0, 0, 1)) ''127.0.0.1'' port"

definition demo_probe_env :: "nat probe_env" where
  "demo_probe_env = busy_env\<lparr>pe_connect := (\<lambda>f a k.
     (if a \<in> {local_backend 8002} then 0 else - 1,
      if a \<in> {local_backend 8001} then 111 else EINPROGRESS, k))\<rparr>"


end
