(* ===== verification/Echo.thy ===== *)
theory Echo
  imports Server RelayApp HttpParse
begin

text \<open>
  The echo server of src/demos/echo_server.cpp: the server (Server.thy) with a message callback of its
  own and no handlers. The callback sends back whatever has arrived, so a connection is a loop through
  its own two buffers. The kernel and its promises are those of Relay.thy and RelayFlow.thy.
\<close>

subsection \<open>The callbacks\<close>

datatype echo_cb = EchoConnection | EchoMessage | EchoRemove

datatype echo_task = EchoTask conn_task | EchoErase string

record 'k echo_world =
  ew_posted :: "echo_task list"
  ew_kern :: 'k

type_synonym 'k echo_op = "(echo_cb, unit, 'k echo_world) conn_op"

definition ew_lift :: "('k \<Rightarrow> 'a \<times> 'k) \<Rightarrow> 'k echo_world \<Rightarrow> 'a \<times> 'k echo_world" where
  "ew_lift f w = (case f (ew_kern w) of (x, k) \<Rightarrow> (x, w\<lparr>ew_kern := k\<rparr>))"

definition ew_lift3 :: "('k \<Rightarrow> 'a \<times> 'b \<times> 'k) \<Rightarrow> 'k echo_world \<Rightarrow> 'a \<times> 'b \<times> 'k echo_world" where
  "ew_lift3 f w = (case f (ew_kern w) of (x, y, k) \<Rightarrow> (x, y, w\<lparr>ew_kern := k\<rparr>))"

definition echo_env :: "'k net_env \<Rightarrow> (echo_cb \<Rightarrow> 'k echo_op) \<Rightarrow> (echo_cb, unit, 'k echo_world) tcp_env" where
  "echo_env ne call = \<lparr>
     env_write = (\<lambda>f data. ew_lift3 (net_write ne f data)), env_readv = (\<lambda>f lens. ew_lift (net_readv ne f lens)),
     env_so_error = (\<lambda>f. ew_lift3 (net_so_error ne f)), env_close = (\<lambda>f w. w\<lparr>ew_kern := net_close ne f (ew_kern w)\<rparr>),
     env_epoll = (\<lambda>op f ev. ew_lift (net_epoll ne op f ev)),
     env_looping = (\<lambda>w. net_looping ne (ew_kern w)), env_in_loop = (\<lambda>w. net_in_loop ne (ew_kern w)),
     env_calling = (\<lambda>w. net_calling ne (ew_kern w)),
     env_post = (\<lambda>t w. w\<lparr>ew_posted := ew_posted w @ [EchoTask t]\<rparr>), env_call = call,
     env_on_message = (\<lambda>_ _. Inl BadFunctionCall), env_on_connection = (\<lambda>_ _. Inl BadFunctionCall),
     env_on_close = (\<lambda>_ _. Inl BadFunctionCall)\<rparr>"

text \<open>The connection callback only reports; the message callback sends back all that has arrived.\<close>

definition echo_connection :: "'k echo_op" where
  "echo_connection s = Inr s"

definition echo_message :: "(echo_cb, unit, 'k echo_world) tcp_env \<Rightarrow> 'k echo_op" where
  "echo_message env = (\<lambda>(conn, w).
     bind_res (retrieveAllAsString (input_buffer conn)) (\<lambda>(msg, b).
     send env msg (conn\<lparr>input_buffer := b\<rparr>, w)))"

definition echo_remove :: "'k echo_op" where
  "echo_remove = (\<lambda>(conn, w). Inr (conn, w\<lparr>ew_posted := ew_posted w @ [EchoErase (conn_name conn)]\<rparr>))"

fun echo_call :: "(echo_cb, unit, 'k echo_world) tcp_env \<Rightarrow> echo_cb \<Rightarrow> 'k echo_op" where
  "echo_call env EchoConnection = echo_connection"
| "echo_call env EchoMessage = echo_message env"
| "echo_call env EchoRemove = echo_remove"

text \<open>Calls nest, one environment per depth: the message callback may close the connection.\<close>

fun echo_at :: "'k net_env \<Rightarrow> nat \<Rightarrow> (echo_cb, unit, 'k echo_world) tcp_env" where
  "echo_at ne 0 = echo_env ne (\<lambda>_ _. Inl BadFunctionCall)"
| "echo_at ne (Suc n) = echo_env ne (echo_call (echo_at ne n))"

definition echo_server :: "'w accept_env \<Rightarrow> (string \<Rightarrow> ipv4) \<Rightarrow> 'l \<Rightarrow> 'w
    \<Rightarrow> (('l, echo_cb, unit) server \<times> 'w) res" where
  "echo_server env inet_addr main_loop w =
     bind_res (new_Server env main_loop EchoRemove (new_InetAddress inet_addr ''127.0.0.1'' 8080) w) (\<lambda>(sv, w).
     Inr (sv\<lparr>sv_connectionCallback := Some EchoConnection, sv_messageCallback := Some EchoMessage\<rparr>, w))"

text \<open>
  The environment variable \<open>ECHO_SERVER_EXIT_AFTER_MS\<close>, \<open>exit_after\<close>, makes the main loop quit after
  that many milliseconds. \<open>std::atoi\<close> is 0 on text without digits; out of range its value is not
  specified, and is 0 here.
\<close>

datatype echo_timer = EchoQuit

definition atoi :: "string \<Rightarrow> int" where
  "atoi str = (case stoi str of Inr v \<Rightarrow> v | Inl _ \<Rightarrow> 0)"

definition echo_exit :: "((nat \<Rightarrow> echo_timer timer option) \<Rightarrow> nat option) \<Rightarrow> string option \<Rightarrow> timestamp \<Rightarrow> timestamp
    \<Rightarrow> echo_timer timer_queue \<Rightarrow> echo_timer timer_queue res" where
  "echo_exit alloc exit_after now now' tq =
     (case exit_after of None \<Rightarrow> Inr tq
      | Some str \<Rightarrow>
          (let delay_ms = atoi str in
           if 0 < delay_ms
           then bind_res (runAfter alloc (round_double (of_int delay_ms / 1000)) EchoQuit now now' tq) (\<lambda>(_, tq). Inr tq)
           else Inr tq))"

text \<open>Without the variable, or with a text that is no positive number, the loop runs for ever.\<close>

lemma echo_exit_none:
  "echo_exit alloc None now now' tq = Inr tq"
  "atoi str \<le> 0 \<Longrightarrow> echo_exit alloc (Some str) now now' tq = Inr tq"
  by (simp_all add: echo_exit_def)

text \<open>A whole number of seconds: the loop is told to quit at the first expiry after that time.\<close>

lemma echo_exit_quits:
  assumes ok: "tq_ok {} tq" "alloc_ok alloc" and ms: "0 < secs" "1000 * secs < 2 ^ 31"
    and r: "echo_exit alloc (Some (show_nat (nat (1000 * secs)))) t0 t1 tq = Inr tq1"
    and fire: "tq_handleRead alloc prog now now' tq1 = Inr (lg, tq2)" "t0 + secs * 1000000 \<le> now"
  shows "\<exists>s. (s, EchoQuit) \<in> set lg"
proof -
  have "stoi (show_nat (nat (1000 * secs))) = Inr (int (nat (1000 * secs)))"
    by (rule stoi_show_nat) (use ms in \<open>simp add: nat_less_iff\<close>)
  then have "atoi (show_nat (nat (1000 * secs))) = 1000 * secs" using ms(1) by (simp add: atoi_def)
  moreover have "round_double (of_int (1000 * secs) / 1000) = of_int secs"
    using round_double_int [of secs] ms by simp
  ultimately obtain tid where "runAfter alloc (of_int secs) EchoQuit t0 t1 tq = Inr (tid, tq1)"
    using r ms(1) by (auto simp: echo_exit_def res_simps)
  from runAfter_runs_once [OF ok _ _ this fire(1)] ms fire(2) show ?thesis by auto
qed

subsection \<open>Histories of a connection\<close>

datatype 'k echo_event = EchoArrive 'k | EchoReadable | EchoWritable

fun echo_do :: "(echo_cb, unit, 'k echo_world) tcp_env \<Rightarrow> 'k echo_event
    \<Rightarrow> (echo_cb, unit) tcp \<times> 'k echo_world \<Rightarrow> ((echo_cb, unit) tcp \<times> 'k echo_world) res option" where
  "echo_do env (EchoArrive k) (c, w) = Some (Inr (c, w\<lparr>ew_kern := k\<rparr>))"
| "echo_do env EchoReadable s = handleRead env s"
| "echo_do env EchoWritable s = Some (handleWrite env s)"

text \<open>Arrivals change what will be read, and stay below \<open>N\<close> bytes altogether.\<close>

definition echo_enabled :: "'k view \<Rightarrow> nat \<Rightarrow> 'k echo_world \<Rightarrow> 'k echo_event \<Rightarrow> bool" where
  "echo_enabled K N w ev \<longleftrightarrow> (case ev of
     EchoArrive k \<Rightarrow> vw_sent K k = vw_sent K (ew_kern w) \<and> vw_taken K k = vw_taken K (ew_kern w) \<and> bounded K N 0 k
   | _ \<Rightarrow> True)"

inductive echo_reach :: "(echo_cb, unit, 'k echo_world) tcp_env \<Rightarrow> 'k view \<Rightarrow> nat
    \<Rightarrow> (echo_cb, unit) tcp \<times> 'k echo_world \<Rightarrow> (echo_cb, unit) tcp \<times> 'k echo_world \<Rightarrow> bool"
  for env :: "(echo_cb, unit, 'k echo_world) tcp_env" and K N s0 where
  echo_start: "echo_reach env K N s0 s0"
| echo_more: "echo_reach env K N s0 (c, w) \<Longrightarrow> echo_enabled K N w ev \<Longrightarrow> echo_do env ev (c, w) = Some (Inr s') \<Longrightarrow>
    echo_reach env K N s0 s'"

subsection \<open>The invariant\<close>

definition echo_inv :: "'k view \<Rightarrow> nat \<Rightarrow> bytes \<Rightarrow> (echo_cb, unit) tcp \<times> 'k echo_world \<Rightarrow> bool" where
  "echo_inv K N z = (\<lambda>(c, w). out_inv c \<and> buffer_inv (input_buffer c) \<and> content (input_buffer c) = z \<and>
     handler c = None \<and> message_callback c = Some EchoMessage \<and> write_complete_callback c = None \<and>
     high_water_mark_callback c = None \<and>
     vw_sent K (ew_kern w) (conn_fd c) @ content (output_buffer c) @ z = vw_taken K (ew_kern w) (conn_fd c) \<and>
     N + length z \<le> room (output_buffer c) + length (vw_taken K (ew_kern w) (conn_fd c)) \<and>
     N \<le> room (input_buffer c) + length (vw_taken K (ew_kern w) (conn_fd c)) \<and> bounded K N 0 (ew_kern w))"

text \<open>The rest of the world while a send or a write runs.\<close>

definition same_rest :: "'k view \<Rightarrow> 'k echo_world \<Rightarrow> 'k echo_world \<Rightarrow> bool" where
  "same_rest K w0 w \<longleftrightarrow> vw_taken K (ew_kern w) = vw_taken K (ew_kern w0) \<and>
     vw_incoming K (ew_kern w) = vw_incoming K (ew_kern w0)"

lemma echo_stream:
  assumes "net_ok ne K"
  shows "stream_on (same_rest K w0) (echo_env ne call) (\<lambda>w. vw_sent K (ew_kern w)) f"
  unfolding stream_on_def
proof (intro conjI allI impI, goal_cases)
  case (1 data w n err w')
  then obtain k where "net_write ne f data (ew_kern w) = (n, err, k)" "w' = w\<lparr>ew_kern := k\<rparr>"
    by (auto simp: echo_env_def ew_lift3_def split: prod.splits)
  with net_okD(1) [OF assms this(1)] 1(1) show ?case by (simp add: same_rest_def)
next
  case (2 data w n err w')
  then obtain k where "net_write ne f data (ew_kern w) = (n, err, k)" "w' = w\<lparr>ew_kern := k\<rparr>"
    by (auto simp: echo_env_def ew_lift3_def split: prod.splits)
  with net_okD(1) [OF assms this(1)] show ?case by auto
next
  case (3 op g ev w)
  with net_okD(4) [OF assms, of "ew_kern w" op g ev] show ?case
    by (auto simp: echo_env_def ew_lift_def same_view_def same_rest_def split: prod.split)
next
  case (4 op g ev w)
  with net_okD(4) [OF assms, of "ew_kern w" op g ev] show ?case
    by (auto simp: echo_env_def ew_lift_def same_view_def split: prod.split)
qed (use net_okD(6,7) [OF assms] in \<open>simp_all add: echo_env_def\<close>)

lemma echo_quiet: "write_complete_callback c = None \<Longrightarrow> high_water_mark_callback c = None \<Longrightarrow> quiet_conn P env sent c"
  by (simp add: quiet_conn_def quiet_def)

text \<open>Sending back what was taken.\<close>

lemma echo_send:
  assumes ne: "net_ok ne K" and c: "out_inv c" "write_complete_callback c = None" "high_water_mark_callback c = None"
    and fits: "length msg \<le> room (output_buffer c)"
  obtains c' w' where "send (echo_env ne call) msg (c, w) = Inr (c', w')" "same_conn c c'" "out_inv c'" "same_rest K w w'"
    "vw_sent K (ew_kern w') (conn_fd c) @ content (output_buffer c') =
       vw_sent K (ew_kern w) (conn_fd c) @ content (output_buffer c) @ msg"
    "room (output_buffer c) - length msg \<le> room (output_buffer c')"
proof -
  have "room (output_buffer c) \<le> vector_max_size" by (simp add: room_def)
  with fits have len: "length msg < 2 ^ 63" by (simp add: vector_max_size_def)
  have "same_rest K w w" by (simp add: same_rest_def)
  from sendInLoop_ok [OF echo_stream [OF ne] echo_quiet [OF c(2,3)] c(1) this len fits] obtain c' w' where
    "sendInLoop (echo_env ne call) msg (c, w) = Inr (c', w')" "same_conn c c'" "out_inv c'" "same_rest K w w'"
    "vw_sent K (ew_kern w') (conn_fd c) @ content (output_buffer c') =
       vw_sent K (ew_kern w) (conn_fd c) @ content (output_buffer c) @ msg"
    "room (output_buffer c) - length msg \<le> room (output_buffer c')" by blast
  moreover from this(1) net_okD(6) [OF ne] have "send (echo_env ne call) msg (c, w) = Inr (c', w')"
    by (simp add: send_def echo_env_def)
  ultimately show thesis by (intro that)
qed

lemma bounded_rest: "same_rest K w w' \<Longrightarrow> bounded K N S (ew_kern w') = bounded K N S (ew_kern w)"
  by (simp add: same_rest_def bounded_def)

lemma echo_message_ok:
  assumes ne: "net_ok ne K" and inv: "echo_inv K N z (c, w)"
  obtains c' w' where "echo_message (echo_env ne call) (c, w) = Inr (c', w')" "echo_inv K N [] (c', w')"
    "same_rest K w w'" "conn_fd c' = conn_fd c"
proof -
  have i: "out_inv c" "buffer_inv (input_buffer c)" "content (input_buffer c) = z" "handler c = None"
    "message_callback c = Some EchoMessage" "write_complete_callback c = None" "high_water_mark_callback c = None"
    "vw_sent K (ew_kern w) (conn_fd c) @ content (output_buffer c) @ z = vw_taken K (ew_kern w) (conn_fd c)"
    "N + length z \<le> room (output_buffer c) + length (vw_taken K (ew_kern w) (conn_fd c))"
    "N \<le> room (input_buffer c) + length (vw_taken K (ew_kern w) (conn_fd c))" "bounded K N 0 (ew_kern w)"
    using inv by (simp_all add: echo_inv_def)
  obtain b where b: "retrieveAllAsString (input_buffer c) = Inr (z, b)" "buffer_inv b" "content b = []"
    "room (input_buffer c) \<le> room b" by (rule retrieve_all_room [OF i(2)]) (use i(3) in blast)
  have fits: "length z \<le> room (output_buffer c)" using i(9) boundedD(3) [OF i(11), of "conn_fd c"] by simp
  obtain c' w' where s: "send (echo_env ne call) z (c\<lparr>input_buffer := b\<rparr>, w) = Inr (c', w')"
    "same_conn (c\<lparr>input_buffer := b\<rparr>) c'" "out_inv c'" "same_rest K w w'"
    "vw_sent K (ew_kern w') (conn_fd c) @ content (output_buffer c') =
       vw_sent K (ew_kern w) (conn_fd c) @ content (output_buffer c) @ z"
    "room (output_buffer c) - length z \<le> room (output_buffer c')"
    by (rule echo_send [OF ne, where c = "c\<lparr>input_buffer := b\<rparr>" and msg = z and w = w and call = call])
      (use i(1,6,7) fits in \<open>simp_all add: out_inv_def\<close>)
  have t: "vw_taken K (ew_kern w') = vw_taken K (ew_kern w)" using s(4) by (simp add: same_rest_def)
  show thesis
  proof (rule that)
    show "echo_message (echo_env ne call) (c, w) = Inr (c', w')" using b(1) s(1) by (simp add: echo_message_def)
    show "echo_inv K N [] (c', w')"
      using s(2,3,5,6) b i t bounded_rest [OF s(4), of N 0] by (simp add: echo_inv_def same_conn_def)
    show "same_rest K w w'" by (rule s(4))
    show "conn_fd c' = conn_fd c" using s(2) by (simp add: same_conn_def)
  qed
qed

text \<open>Reading: the loop of \<open>handleRead\<close> sends back chunk by chunk.\<close>

lemma echo_deliver:
  "handler c = None \<Longrightarrow> message_callback c = Some EchoMessage \<Longrightarrow>
    deliver (echo_at ne (Suc n)) (c, w) = echo_message (echo_at ne n) (c, w)"
  by (simp add: deliver_def call_opt_def echo_env_def)

lemma echo_at_env: "\<exists>call. echo_at ne n = echo_env ne call"
  by (cases n) auto

lemma echo_read:
  assumes ne: "net_ok ne K" and inv: "echo_inv K N [] (c, w)"
  shows "\<exists>s'. handleRead (echo_at ne (Suc n)) (c, w) = Some (Inr s') \<and> echo_inv K N [] s' \<and> conn_fd (fst s') = conn_fd c \<and>
    vw_incoming K (ew_kern (snd s')) (conn_fd c) = []"
proof -
  let ?I = "\<lambda>ds (c', w'). echo_inv K N [] (c', w') \<and> conn_fd c' = conn_fd c \<and> vw_incoming K (ew_kern w') (conn_fd c) = ds"
  let ?J = "\<lambda>s. echo_inv K N [] s \<and> conn_fd (fst s) = conn_fd c \<and> vw_incoming K (ew_kern (snd s)) (conn_fd c) = []"
  have "\<exists>s'. handleRead_loop (echo_at ne (Suc n)) 0 (c, w) = Some (Inr s') \<and> ?J s'"
  proof (rule handleRead_loop_inv [where I = ?I and ds = "vw_incoming K (ew_kern w) (conn_fd c)"])
    fix c' w' assume a: "?I [] (c', w')"
    with net_okD(2) [OF ne, of "ew_kern w'" "conn_fd c" "iov_lengths (input_buffer c')"] obtain k where
      k: "net_readv ne (conn_fd c') (iov_lengths (input_buffer c')) (ew_kern w') = (Inl EAGAIN, k)" "same_view K (ew_kern w') k"
      by auto
    with a have "?J (c', w'\<lparr>ew_kern := k\<rparr>)" by (auto simp: echo_inv_def same_view_def bounded_def)
    with k(1) show "\<exists>w1. env_readv (echo_at ne (Suc n)) (conn_fd c') (iov_lengths (input_buffer c')) w' = (Inl EAGAIN, w1) \<and>
      ?J (c', w1)" by (simp add: echo_env_def ew_lift_def)
  next
    fix d ds c' w' assume a: "?I (d # ds) (c', w')"
    then have i: "echo_inv K N [] (c', w')" "conn_fd c' = conn_fd c" "vw_incoming K (ew_kern w') (conn_fd c) = d # ds" by simp_all
    then have bd: "bounded K N 0 (ew_kern w')" and rm: "N \<le> room (input_buffer c') + length (vw_taken K (ew_kern w') (conn_fd c'))"
      and bi: "buffer_inv (input_buffer c')" by (simp_all add: echo_inv_def)
    have d: "d \<noteq> []" "length d \<le> 65536" "length d \<le> room (input_buffer c')"
      using boundedD(1) [OF bd, of "conn_fd c"] boundedD(2) [OF bd, where f = "conn_fd c" and d = d] i(2,3) rm by auto
    from net_okD(3) [OF ne i(3), of "iov_lengths (input_buffer c')"] obtain k where
      k: "net_readv ne (conn_fd c) (iov_lengths (input_buffer c')) (ew_kern w') = (Inr d, k)"
        "vw_sent K k = vw_sent K (ew_kern w')" "vw_taken K k = (vw_taken K (ew_kern w'))(conn_fd c := vw_taken K (ew_kern w') (conn_fd c) @ d)"
        "vw_incoming K k = (vw_incoming K (ew_kern w'))(conn_fd c := ds)" by blast
    have bk: "bounded K N 0 k" by (rule bounded_next [OF bd _ k(3,4)]) (use i(3) in simp)
    have "\<exists>s'. deliver (echo_at ne (Suc n)) (c'\<lparr>input_buffer := b\<rparr>, w'\<lparr>ew_kern := k\<rparr>) = Inr s' \<and> ?I ds s'"
      if b: "buffer_inv b" "content b = content (input_buffer c') @ d" "room (input_buffer c') - length d \<le> room b" for b
    proof -
      let ?s = "(c'\<lparr>input_buffer := b\<rparr>, w'\<lparr>ew_kern := k\<rparr>)"
      have z: "echo_inv K N d ?s" using i b k(2,3) bk by (auto simp: echo_inv_def out_inv_def)
      obtain call where e: "echo_at ne n = echo_env ne call" using echo_at_env by blast
      obtain c2 w2 where m: "echo_message (echo_at ne n) ?s = Inr (c2, w2)" "echo_inv K N [] (c2, w2)"
        "same_rest K (w'\<lparr>ew_kern := k\<rparr>) w2" "conn_fd c2 = conn_fd (c'\<lparr>input_buffer := b\<rparr>)"
        unfolding e by (rule echo_message_ok [OF ne z])
      have "deliver (echo_at ne (Suc n)) ?s = echo_message (echo_at ne n) ?s"
        using i(1) by (intro echo_deliver) (simp_all add: echo_inv_def)
      with m i(2) k(4) show ?thesis by (intro exI [of _ "(c2, w2)"]) (simp add: same_rest_def)
    qed
    then show "buffer_inv (input_buffer c') \<and> d \<noteq> [] \<and> length d \<le> 65536 \<and> length d \<le> room (input_buffer c') \<and>
      (\<exists>w1. env_readv (echo_at ne (Suc n)) (conn_fd c') (iov_lengths (input_buffer c')) w' = (Inr d, w1) \<and>
        (\<forall>b. buffer_inv b \<longrightarrow> content b = content (input_buffer c') @ d \<longrightarrow> room (input_buffer c') - length d \<le> room b \<longrightarrow>
          (\<exists>s'. deliver (echo_at ne (Suc n)) (c'\<lparr>input_buffer := b\<rparr>, w1) = Inr s' \<and> ?I ds s')))"
      using bi d k(1) i(2) by (intro conjI exI [of _ "w'\<lparr>ew_kern := k\<rparr>"]) (simp_all add: echo_env_def ew_lift_def)
  qed (use inv in simp)
  then show ?thesis using net_okD(6) [OF ne] by (simp add: handleRead_def echo_env_def)
qed

lemma echo_write:
  assumes ne: "net_ok ne K" and inv: "echo_inv K N [] (c, w)"
  shows "\<exists>s'. handleWrite (echo_env ne call) (c, w) = Inr s' \<and> echo_inv K N [] s' \<and> conn_fd (fst s') = conn_fd c"
proof -
  have i: "out_inv c" "write_complete_callback c = None" "high_water_mark_callback c = None"
    using inv by (simp_all add: echo_inv_def)
  have "same_rest K w w" by (simp add: same_rest_def)
  from handleWrite_ok [OF echo_stream [OF ne] echo_quiet [OF i(2,3)] i(1) this] obtain c' w' where
    h: "handleWrite (echo_env ne call) (c, w) = Inr (c', w')" "same_conn c c'" "out_inv c'" "same_rest K w w'"
    "vw_sent K (ew_kern w') (conn_fd c) @ content (output_buffer c') = vw_sent K (ew_kern w) (conn_fd c) @ content (output_buffer c)"
    "room (output_buffer c) \<le> room (output_buffer c')" by blast
  have "vw_taken K (ew_kern w') = vw_taken K (ew_kern w)" using h(4) by (simp add: same_rest_def)
  with h(2,3,5,6) inv bounded_rest [OF h(4), of N 0] have "echo_inv K N [] (c', w')"
    by (simp add: echo_inv_def same_conn_def)
  with h(1,2) show ?thesis by (auto simp: same_conn_def)
qed

lemma echo_step:
  assumes ne: "net_ok ne K" and inv: "echo_inv K N [] (c, w)" and ev: "echo_enabled K N w ev"
  shows "\<exists>s'. echo_do (echo_at ne (Suc n)) ev (c, w) = Some (Inr s') \<and> echo_inv K N [] s' \<and> conn_fd (fst s') = conn_fd c"
proof (cases ev)
  case (EchoArrive k)
  with ev inv show ?thesis by (simp add: echo_enabled_def echo_inv_def)
next
  case EchoReadable
  with echo_read [OF ne inv, of n] show ?thesis by (auto simp del: echo_at.simps)
next
  case EchoWritable
  with echo_write [OF ne inv, of "echo_call (echo_at ne n)"] show ?thesis by simp
qed

lemma echo_reach_inv:
  assumes "net_ok ne K"
  shows "echo_reach (echo_at ne (Suc n)) K N s0 s \<Longrightarrow> echo_inv K N [] s0 \<Longrightarrow>
    echo_inv K N [] s \<and> conn_fd (fst s) = conn_fd (fst s0)"
proof (induction rule: echo_reach.induct)
  case (echo_more c w ev s')
  then have "echo_inv K N [] (c, w)" "conn_fd c = conn_fd (fst s0)" by simp_all
  with echo_step [OF assms this(1) echo_more.hyps(2), of n] echo_more.hyps(3) show ?case by auto
qed simp

subsection \<open>Establishing\<close>

lemma echo_update:
  "updateChannel (env_epoll (echo_env ne call)) ch w = w\<lparr>ew_kern := updateChannel (net_epoll ne) ch (ew_kern w)\<rparr>"
  by (auto simp: updateChannel_def echo_env_def ew_lift_def split: prod.split option.split)

lemma echo_server_made:
  assumes "echo_server env inet_addr main_loop w = Inr (sv, w1)"
  shows "sv_connections sv = (\<lambda>_. None)" and "sv_handlerFactory sv = None"
    and "sv_connectionCallback sv = Some EchoConnection" and "sv_messageCallback sv = Some EchoMessage"
    and "sv_writeCompleteCallback sv = None" and "sv_removeCallback sv = EchoRemove"
  using assms by (auto simp: echo_server_def new_Server_def res_simps split: prod.splits)

lemma echo_establishes:
  assumes ne: "net_ok ne K" and sv: "echo_server env inet_addr main_loop w0 = Inr (sv, w1)"
    and new: "vw_sent K (ew_kern w) f = []" "vw_taken K (ew_kern w) f = []"
    and bd: "bounded K N 0 (ew_kern w)" and n: "N \<le> vector_max_size - 8"
  shows "\<exists>c w'. server_establish (echo_at (in_functors ne) (Suc n')) name f pa (sv, w) =
      Inr (sv\<lparr>sv_connections := [name \<mapsto> c]\<rparr>, w') \<and> conn_fd c = f \<and> echo_inv K N [] (c, w')"
proof -
  let ?e = "echo_at (in_functors ne) (Suc n')"
  note made = echo_server_made [OF sv]
  obtain c0 :: "(echo_cb, unit) tcp" where c0: "new_TcpConnection name f pa = Inr c0" "conn_fd c0 = f" "\<not> isWriting (conn_channel c0)"
    "handler c0 = None" "high_water_mark_callback c0 = None" "buffer_inv (input_buffer c0)" "buffer_inv (output_buffer c0)"
    "content (input_buffer c0) = []" "content (output_buffer c0) = []"
    "room (input_buffer c0) = vector_max_size - 8" "room (output_buffer c0) = vector_max_size - 8"
    using new_TcpConnection_ok [of name f pa] by blast
  let ?c2 = "c0\<lparr>connection_callback := Some EchoConnection, message_callback := Some EchoMessage,
    write_complete_callback := None, conn_close_callback := Some EchoRemove\<rparr>"
  define ch where "ch = (conn_channel c0)\<lparr>ch_events := ch_events (conn_channel c0) OR EPOLLIN\<rparr>"
  define k where "k = updateChannel (net_epoll ne) ch (ew_kern w)"
  let ?c = "?c2\<lparr>tcp_state := kConnected, conn_channel := ch\<rparr>" and ?w = "w\<lparr>ew_kern := k\<rparr>"
  have "same_view K (ew_kern w) k" unfolding k_def by (rule net_update [OF ne])
  then have v: "vw_sent K k = vw_sent K (ew_kern w)" "vw_taken K k = vw_taken K (ew_kern w)" "vw_incoming K k = vw_incoming K (ew_kern w)"
    by (simp_all add: same_view_def)
  have on: "on_channel ?e enableReading (set_state kConnected (?c2, w)) = (?c, ?w)"
    by (simp add: on_channel_def enableReading_def set_events_def Let_def set_state_def echo_update ch_def k_def in_functors_def)
  have "env_in_loop ?e w" using net_okD(6) [OF ne] by (simp add: echo_env_def in_functors_def)
  then have "connectEstablished ?e (?c2, w) = Inr (?c, ?w)"
    unfolding connectEstablished_def in_loop_def Let_def snd_conv on
    using c0(4) by (simp add: call_opt_def echo_env_def echo_connection_def)
  then have "server_establish ?e name f pa (sv, w) = Inr (sv\<lparr>sv_connections := [name \<mapsto> ?c]\<rparr>, ?w)"
    using c0(1) made by (simp add: server_establish_def release_old_def del: echo_at.simps)
  moreover have "\<not> isWriting ch" using c0(3) by (simp add: ch_def mask_bits bit_or_iff bit_masks)
  then have "echo_inv K N [] (?c, ?w)"
    using c0 new v bd n by (simp add: echo_inv_def out_inv_def bounded_def)
  ultimately show ?thesis using c0(2) by (intro exI [of _ ?c] exI [of _ ?w]) simp
qed

subsection \<open>Properties\<close>

text \<open>
  C12. The echo server echoes: once its functor has established a new client, then over any history
  of arrivals, partial reads and partial writes the bytes sent to the client followed by those in the
  output buffer are exactly the bytes taken from the client, in order, while any are buffered the
  connection waits for writability, no event faults or fails to end, and a readable event takes all
  that has arrived.
\<close>

theorem echo_serves_client:
  assumes "net_ok ne K" and "echo_server env inet_addr main_loop w0 = Inr (sv, w1)"
    and "vw_sent K (ew_kern w) f = []" and "vw_taken K (ew_kern w) f = []"
    and "bounded K N 0 (ew_kern w)" and "N \<le> vector_max_size - 8"
  shows "\<exists>c w'. server_establish (echo_at (in_functors ne) (Suc (Suc 0))) name f pa (sv, w) =
      Inr (sv\<lparr>sv_connections := [name \<mapsto> c]\<rparr>, w') \<and>
    (\<forall>c2 w2. echo_reach (echo_at ne (Suc (Suc 0))) K N (c, w') (c2, w2) \<longrightarrow>
      vw_sent K (ew_kern w2) f @ content (output_buffer c2) = vw_taken K (ew_kern w2) f \<and>
      (content (output_buffer c2) \<noteq> [] \<longrightarrow> isWriting (conn_channel c2)) \<and>
      (\<forall>ev. echo_enabled K N w2 ev \<longrightarrow> (\<exists>s'. echo_do (echo_at ne (Suc (Suc 0))) ev (c2, w2) = Some (Inr s'))) \<and>
      (\<exists>c3 w3. echo_do (echo_at ne (Suc (Suc 0))) EchoReadable (c2, w2) = Some (Inr (c3, w3)) \<and>
        vw_incoming K (ew_kern w3) f = []))"
proof -
  obtain c w' where c: "server_establish (echo_at (in_functors ne) (Suc (Suc 0))) name f pa (sv, w) =
      Inr (sv\<lparr>sv_connections := [name \<mapsto> c]\<rparr>, w')" "conn_fd c = f" "echo_inv K N [] (c, w')"
    using echo_establishes [OF assms] by blast
  have "echo_inv K N [] (c2, w2) \<and> conn_fd c2 = f"
    if "echo_reach (echo_at ne (Suc (Suc 0))) K N (c, w') (c2, w2)" for c2 w2
    using echo_reach_inv [OF assms(1) that c(3)] c(2) by simp
  moreover have "\<exists>c3 w3. echo_do (echo_at ne (Suc (Suc 0))) EchoReadable (c2, w2) = Some (Inr (c3, w3)) \<and>
      vw_incoming K (ew_kern w3) f = []" if "echo_inv K N [] (c2, w2)" "conn_fd c2 = f" for c2 w2
    using echo_read [OF assms(1) that(1), of "Suc 0"] that(2) by (auto simp del: echo_at.simps)
  ultimately show ?thesis using c(1) echo_step [OF assms(1)]
    by (intro exI [of _ c] exI [of _ w']) (fastforce simp: echo_inv_def out_inv_def simp del: echo_at.simps)
qed

text \<open>A client whose first bytes arrive before it is established, on the kernel of RelayApp.thy.\<close>

lemma demo_echo_server:
  "\<exists>sv w. echo_server acc_env (\<lambda>_. (127, 0, 0, 1)) (0 :: nat) ([], 5, []) = Inr (sv, w)"
  by (cases "new_Acceptor acc_env (new_InetAddress (\<lambda>_. (127, 0, 0, 1)) ''127.0.0.1'' 8080) ([], 5, [])")
    (auto simp: echo_server_def new_Server_def new_threadPool_def)

definition demo_echo_world :: "demo echo_world" where
  "demo_echo_world = \<lparr>ew_posted = [], ew_kern = (\<lambda>_. [], \<lambda>_. [], (\<lambda>_. [])(7 := [''hello '', ''world'']))\<rparr>"

theorem echo_serves_client_witness:
  "\<exists>sv w1 c w' c2 w2. echo_server acc_env (\<lambda>_. (127, 0, 0, 1)) (0 :: nat) ([], 5, []) = Inr (sv, w1) \<and>
    server_establish (echo_at (in_functors demo_net) (Suc (Suc 0))) ''conn_7'' 7 (InetAddress (10, 0, 0, 9) 1)
      (sv, demo_echo_world) = Inr (sv\<lparr>sv_connections := [''conn_7'' \<mapsto> c]\<rparr>, w') \<and>
    echo_do (echo_at demo_net (Suc (Suc 0))) EchoReadable (c, w') = Some (Inr (c2, w2)) \<and>
    vw_incoming demo_view (ew_kern w2) 7 = [] \<and>
    vw_sent demo_view (ew_kern w2) 7 @ content (output_buffer c2) = vw_taken demo_view (ew_kern w2) 7"
proof -
  let ?e = "echo_at demo_net (Suc (Suc 0))"
  obtain sv w1 where sv: "echo_server acc_env (\<lambda>_. (127, 0, 0, 1)) (0 :: nat) ([], 5, []) = Inr (sv, w1)"
    using demo_echo_server by blast
  have k: "vw_sent demo_view (ew_kern demo_echo_world) 7 = []" "vw_taken demo_view (ew_kern demo_echo_world) 7 = []"
    "bounded demo_view 100 0 (ew_kern demo_echo_world)" "(100 :: nat) \<le> vector_max_size - 8"
    by (simp_all add: demo_view_def demo_echo_world_def bounded_def vector_max_size_def)
  obtain c w' where c: "server_establish (echo_at (in_functors demo_net) (Suc (Suc 0))) ''conn_7'' 7 (InetAddress (10, 0, 0, 9) 1)
      (sv, demo_echo_world) = Inr (sv\<lparr>sv_connections := [''conn_7'' \<mapsto> c]\<rparr>, w')"
    and all: "\<forall>c2 w2. echo_reach ?e demo_view 100 (c, w') (c2, w2) \<longrightarrow>
      vw_sent demo_view (ew_kern w2) 7 @ content (output_buffer c2) = vw_taken demo_view (ew_kern w2) 7 \<and>
      (content (output_buffer c2) \<noteq> [] \<longrightarrow> isWriting (conn_channel c2)) \<and>
      (\<forall>ev. echo_enabled demo_view 100 w2 ev \<longrightarrow> (\<exists>s'. echo_do ?e ev (c2, w2) = Some (Inr s'))) \<and>
      (\<exists>c3 w3. echo_do ?e EchoReadable (c2, w2) = Some (Inr (c3, w3)) \<and> vw_incoming demo_view (ew_kern w3) 7 = [])"
    using echo_serves_client [OF demo_net_ok sv k] by blast
  have r0: "echo_reach ?e demo_view 100 (c, w') (c, w')" by (rule echo_start)
  with all obtain c2 w2 where r: "echo_do ?e EchoReadable (c, w') = Some (Inr (c2, w2))" "vw_incoming demo_view (ew_kern w2) 7 = []"
    by blast
  have "echo_reach ?e demo_view 100 (c, w') (c2, w2)"
    by (rule echo_more [OF r0 _ r(1)]) (simp add: echo_enabled_def)
  with all have "vw_sent demo_view (ew_kern w2) 7 @ content (output_buffer c2) = vw_taken demo_view (ew_kern w2) 7" by blast
  with sv c r show ?thesis by blast
qed

end
