(* ===== verification/LoopLife.thy ===== *)
theory LoopLife
  imports LoopTimers Channel
begin

text \<open>
  The life of an event loop's descriptors (src/net/event_loop.cpp: constructor and destructor,
  src/net/timer_queue.cpp: \<open>createTimerfd\<close>, constructor and destructor). A loop owns an epoll
  instance, an eventfd and the timer queue's timerfd; the last two are watched by the first.

  The system calls are the fields of \<open>loop_env\<close>; what the program relies on is \<open>fds_ok\<close>, over a view
  of the kernel: the open descriptors and, for each epoll instance, the masks it watches.
\<close>

subsection \<open>Operations\<close>

datatype loop_cb = TimerRead | HandleWakeup

record 'w loop_env =
  le_epoll_create :: "'w \<Rightarrow> fd \<times> 'w"
  le_eventfd :: "'w \<Rightarrow> fd \<times> 'w"
  le_timerfd_create :: "'w \<Rightarrow> fd \<times> 'w"
  le_close :: "fd \<Rightarrow> 'w \<Rightarrow> 'w"
  le_epoll_ctl :: "fd \<Rightarrow> 'w epoll_ctl"

record 'cb timer_object =
  to_timerfd :: fd
  to_channel :: "loop_cb channel"
  to_queue :: "'cb timer_queue"

record 'cb loop_object =
  lo_epoll_fd :: fd
  lo_looping :: bool
  lo_quit :: bool
  lo_wakeup_fd :: fd
  lo_wakeupChannel :: "loop_cb channel"
  lo_timerQueue :: "'cb timer_object"

text \<open>A failed \<open>timerfd_create\<close> is only reported.\<close>

definition createTimerfd :: "'w loop_env \<Rightarrow> 'w \<Rightarrow> fd \<times> 'w" where
  "createTimerfd env w = le_timerfd_create env w"

definition timerQueue_construct :: "'w loop_env \<Rightarrow> fd \<Rightarrow> 'w \<Rightarrow> 'cb timer_object \<times> 'w" where
  "timerQueue_construct env epoll_fd w =
     (case createTimerfd env w of (timerfd, w1) \<Rightarrow>
      case enableReading (le_epoll_ctl env epoll_fd) (setReadCallback TimerRead (new_Channel timerfd), w1) of (ch, w2) \<Rightarrow>
        (\<lparr>to_timerfd = timerfd, to_channel = ch, to_queue = new_TimerQueue\<rparr>, w2))"

text \<open>The members are initialised, the timer queue among them, before the descriptors are tested.\<close>

definition loop_construct :: "'w loop_env \<Rightarrow> 'w \<Rightarrow> ('cb loop_object \<times> 'w) res" where
  "loop_construct env w =
     (case le_epoll_create env w of (epoll_fd, w1) \<Rightarrow>
      case timerQueue_construct env epoll_fd w1 of (tq, w2) \<Rightarrow>
      if epoll_fd < 0 then Inl Terminate
      else (case le_eventfd env w2 of (wakeup_fd, w3) \<Rightarrow>
        if wakeup_fd < 0 then Inl Terminate
        else (case enableReading (le_epoll_ctl env epoll_fd) (setReadCallback HandleWakeup (new_Channel wakeup_fd), w3) of
          (ch, w4) \<Rightarrow> Inr (\<lparr>lo_epoll_fd = epoll_fd, lo_looping = False, lo_quit = False, lo_wakeup_fd = wakeup_fd,
            lo_wakeupChannel = ch, lo_timerQueue = tq\<rparr>, w4))))"

text \<open>\<open>remove\<close> asks the loop, whose epoll descriptor is closed by then.\<close>

definition timerQueue_destroy :: "'w loop_env \<Rightarrow> fd \<Rightarrow> bool \<Rightarrow> bool \<Rightarrow> 'cb timer_object \<Rightarrow> 'w
    \<Rightarrow> ('cb timer_queue \<times> 'w) res" where
  "timerQueue_destroy env epoll_fd looping in_loop_thread tq w =
     bind_res (channel_remove (le_epoll_ctl env epoll_fd) looping in_loop_thread
                 (disableAll (le_epoll_ctl env epoll_fd) (to_channel tq, w))) (\<lambda>(ch, w1).
     (let w2 = le_close env (to_timerfd tq) w1 in
      bind_res (tq_destroy (to_queue tq)) (\<lambda>q. Inr (q, w2))))"

text \<open>The destructor's body, then the members: the queue's destructor is the one that does anything.\<close>

definition loop_destroy :: "'w loop_env \<Rightarrow> bool \<Rightarrow> 'cb loop_object \<Rightarrow> 'w \<Rightarrow> ('cb timer_queue \<times> 'w) res" where
  "loop_destroy env in_loop_thread lo w =
     (let w1 = (if 0 \<le> lo_epoll_fd lo then le_close env (lo_epoll_fd lo) w else w);
          w2 = (if 0 \<le> lo_wakeup_fd lo then le_close env (lo_wakeup_fd lo) w1 else w1)
      in timerQueue_destroy env (lo_epoll_fd lo) (lo_looping lo) in_loop_thread (lo_timerQueue lo) w2)"

subsection \<open>What the kernel promises\<close>

record 'w fd_view =
  fv_open :: "'w \<Rightarrow> fd set"
  fv_watch :: "'w \<Rightarrow> fd \<Rightarrow> fd \<Rightarrow> uint32 option"

definition same_fds :: "'w fd_view \<Rightarrow> 'w \<Rightarrow> 'w \<Rightarrow> bool" where
  "same_fds V w w' \<longleftrightarrow> fv_open V w' = fv_open V w \<and> fv_watch V w' = fv_watch V w"

definition EBADF :: errno where "EBADF = 9"

text \<open>
  A call that makes a descriptor returns a new one or fails and changes nothing; closing a descriptor
  ends every watch of it and by it; \<open>::epoll_ctl\<close> on a descriptor that is not open fails with EBADF.
\<close>

definition makes_fd :: "'w fd_view \<Rightarrow> ('w \<Rightarrow> fd \<times> 'w) \<Rightarrow> bool" where
  "makes_fd V mk \<longleftrightarrow> (\<forall>w f w'. mk w = (f, w') \<longrightarrow>
     (if f < 0 then same_fds V w w'
      else f \<notin> fv_open V w \<and> fv_open V w' = insert f (fv_open V w) \<and> fv_watch V w' = fv_watch V w))"

definition fds_ok :: "'w loop_env \<Rightarrow> 'w fd_view \<Rightarrow> bool" where
  "fds_ok env V \<longleftrightarrow> makes_fd V (le_epoll_create env) \<and> makes_fd V (le_eventfd env) \<and> makes_fd V (le_timerfd_create env) \<and>
     (\<forall>f w. fv_open V (le_close env f w) = fv_open V w - {f} \<and>
        fv_watch V (le_close env f w) = (\<lambda>e g. if e = f \<or> g = f then None else fv_watch V w e g)) \<and>
     (\<forall>w e g. fv_watch V w e g \<noteq> None \<longrightarrow> e \<in> fv_open V w \<and> g \<in> fv_open V w) \<and>
     (\<forall>w f. f \<in> fv_open V w \<longrightarrow> 0 \<le> f) \<and>
     (\<forall>e g ev w. e \<in> fv_open V w \<longrightarrow> g \<in> fv_open V w \<longrightarrow>
        (if fv_watch V w e g = None
         then \<exists>w'. le_epoll_ctl env e CTL_ADD g ev w = (None, w') \<and> fv_open V w' = fv_open V w \<and>
           fv_watch V w' = (fv_watch V w)(e := (fv_watch V w e)(g \<mapsto> ev))
         else (\<exists>w'. le_epoll_ctl env e CTL_ADD g ev w = (Some EEXIST, w') \<and> same_fds V w w') \<and>
           (\<exists>w'. le_epoll_ctl env e CTL_MOD g ev w = (None, w') \<and> fv_open V w' = fv_open V w \<and>
             fv_watch V w' = (fv_watch V w)(e := (fv_watch V w e)(g \<mapsto> ev))))) \<and>
     (\<forall>e op g ev w. e \<notin> fv_open V w \<or> g \<notin> fv_open V w \<longrightarrow>
        (\<exists>w'. le_epoll_ctl env e op g ev w = (Some EBADF, w') \<and> same_fds V w w'))"

lemma makes_fdE:
  assumes "makes_fd V mk" and "mk w = (f, w')"
  obtains "f < 0" "fv_open V w' = fv_open V w" "fv_watch V w' = fv_watch V w"
  | "0 \<le> f" "f \<notin> fv_open V w" "fv_open V w' = insert f (fv_open V w)" "fv_watch V w' = fv_watch V w"
  using assms by (fastforce simp: makes_fd_def same_fds_def split: if_splits)

lemma fds_okD:
  assumes "fds_ok env V"
  shows "makes_fd V (le_epoll_create env)" "makes_fd V (le_eventfd env)" "makes_fd V (le_timerfd_create env)"
    and "fv_open V (le_close env f w) = fv_open V w - {f}"
    and "fv_watch V (le_close env f w) = (\<lambda>e g. if e = f \<or> g = f then None else fv_watch V w e g)"
    and "e \<notin> fv_open V w \<Longrightarrow> fv_watch V w e g = None" and "g \<notin> fv_open V w \<Longrightarrow> fv_watch V w e g = None"
    and "f \<in> fv_open V w \<Longrightarrow> 0 \<le> f"
  using assms unfolding fds_ok_def by (blast | fastforce)+

text \<open>Registering a channel: it is watched with its mask if both descriptors are open.\<close>

lemma fds_update:
  assumes ok: "fds_ok env V"
  shows "fv_open V (updateChannel (le_epoll_ctl env e) ch w) = fv_open V w" (is ?A)
    and "fv_watch V (updateChannel (le_epoll_ctl env e) ch w) =
      (if e \<in> fv_open V w \<and> ch_fd ch \<in> fv_open V w
       then (fv_watch V w)(e := (fv_watch V w e)(ch_fd ch \<mapsto> ch_events ch)) else fv_watch V w)" (is ?B)
proof -
  note laws = ok [unfolded fds_ok_def, THEN conjunct2, THEN conjunct2, THEN conjunct2, THEN conjunct2, THEN conjunct2, THEN conjunct2]
  let ?g = "ch_fd ch" and ?ev = "ch_events ch"
  have "?A \<and> ?B"
  proof (cases "e \<in> fv_open V w \<and> ?g \<in> fv_open V w")
    case closed: False
    then obtain w1 where "le_epoll_ctl env e CTL_ADD ?g ?ev w = (Some EBADF, w1)" "same_fds V w w1"
      using laws by blast
    then show ?thesis using closed by (auto simp: updateChannel_def EBADF_def EEXIST_def same_fds_def)
  next
    case op: True
    show ?thesis
    proof (cases "fv_watch V w e ?g")
      case None
      with op laws obtain w1 where "le_epoll_ctl env e CTL_ADD ?g ?ev w = (None, w1)" "fv_open V w1 = fv_open V w"
        "fv_watch V w1 = (fv_watch V w)(e := (fv_watch V w e)(?g \<mapsto> ?ev))" by meson
      then show ?thesis using op by (simp add: updateChannel_def)
    next
      case (Some m)
      with op laws obtain w1 where 1: "le_epoll_ctl env e CTL_ADD ?g ?ev w = (Some EEXIST, w1)" "same_fds V w w1"
        by (metis option.distinct(1))
      then have "e \<in> fv_open V w1" "?g \<in> fv_open V w1" "fv_watch V w1 e ?g \<noteq> None" using op Some by (simp_all add: same_fds_def)
      with laws obtain w2 where "le_epoll_ctl env e CTL_MOD ?g ?ev w1 = (None, w2)" "fv_open V w2 = fv_open V w1"
        "fv_watch V w2 = (fv_watch V w1)(e := (fv_watch V w1 e)(?g \<mapsto> ?ev))" by meson
      then show ?thesis using op 1 by (simp add: updateChannel_def same_fds_def)
    qed
  qed
  then show ?A ?B by blast+
qed

text \<open>Switching a channel: the channel's mask, and what is watched.\<close>

lemma fds_set_events:
  assumes ok: "fds_ok env V" and r: "set_events (le_epoll_ctl env e) ev (ch, w) = (ch', w')"
  shows "ch' = ch\<lparr>ch_events := ev\<rparr>" and "fv_open V w' = fv_open V w"
    and "fv_watch V w' = (if e \<in> fv_open V w \<and> ch_fd ch \<in> fv_open V w
      then (fv_watch V w)(e := (fv_watch V w e)(ch_fd ch \<mapsto> ev)) else fv_watch V w)"
proof -
  have "ch' = ch\<lparr>ch_events := ev\<rparr>" "w' = updateChannel (le_epoll_ctl env e) (ch\<lparr>ch_events := ev\<rparr>) w"
    using r by (auto simp: set_events_def Let_def)
  then show "ch' = ch\<lparr>ch_events := ev\<rparr>" "fv_open V w' = fv_open V w"
    "fv_watch V w' = (if e \<in> fv_open V w \<and> ch_fd ch \<in> fv_open V w
      then (fv_watch V w)(e := (fv_watch V w e)(ch_fd ch \<mapsto> ev)) else fv_watch V w)"
    by (simp_all add: fds_update [OF ok])
qed

lemma fds_enableReading:
  assumes ok: "fds_ok env V" and r: "enableReading (le_epoll_ctl env e) (setReadCallback cb (new_Channel f), w) = (ch', w')"
  shows "ch_fd ch' = f" and "ch_index ch' = - 1" and "fv_open V w' = fv_open V w"
    and "fv_watch V w' = (if e \<in> fv_open V w \<and> f \<in> fv_open V w
      then (fv_watch V w)(e := (fv_watch V w e)(f \<mapsto> EPOLLIN)) else fv_watch V w)"
proof -
  have "set_events (le_epoll_ctl env e) EPOLLIN (setReadCallback cb (new_Channel f), w) = (ch', w')"
    using r by (simp add: enableReading_def setReadCallback_def new_Channel_def)
  from fds_set_events [OF ok this] show "ch_fd ch' = f" "ch_index ch' = - 1" "fv_open V w' = fv_open V w"
    "fv_watch V w' = (if e \<in> fv_open V w \<and> f \<in> fv_open V w
      then (fv_watch V w)(e := (fv_watch V w e)(f \<mapsto> EPOLLIN)) else fv_watch V w)"
    by (simp_all add: setReadCallback_def new_Channel_def)
qed

subsection \<open>A loop that was constructed\<close>

text \<open>The descriptors of a loop; the timer queue's is absent if it could not be made.\<close>

definition loop_fds :: "'cb loop_object \<Rightarrow> fd set" where
  "loop_fds lo = {f \<in> {lo_epoll_fd lo, lo_wakeup_fd lo, to_timerfd (lo_timerQueue lo)}. 0 \<le> f}"

definition loop_watches :: "'cb loop_object \<Rightarrow> fd \<Rightarrow> uint32 option" where
  "loop_watches lo g = (if g \<in> loop_fds lo - {lo_epoll_fd lo} then Some EPOLLIN else None)"

definition loop_made :: "'cb loop_object \<Rightarrow> bool" where
  "loop_made lo \<longleftrightarrow> 0 \<le> lo_epoll_fd lo \<and> 0 \<le> lo_wakeup_fd lo \<and> lo_epoll_fd lo \<noteq> lo_wakeup_fd lo \<and>
     to_timerfd (lo_timerQueue lo) \<notin> {lo_epoll_fd lo, lo_wakeup_fd lo} \<and> \<not> lo_looping lo \<and>
     ch_fd (to_channel (lo_timerQueue lo)) = to_timerfd (lo_timerQueue lo) \<and> ch_index (to_channel (lo_timerQueue lo)) = - 1"

lemma timerQueue_construct_ok:
  assumes ok: "fds_ok env V" and r: "timerQueue_construct env e w = (tq, w')"
  obtains t where "tq = \<lparr>to_timerfd = t, to_channel = to_channel tq, to_queue = new_TimerQueue\<rparr>"
    "ch_fd (to_channel tq) = t" "ch_index (to_channel tq) = - 1"
    "t < 0 \<and> fv_open V w' = fv_open V w \<and> fv_watch V w' = fv_watch V w \<or>
     0 \<le> t \<and> t \<notin> fv_open V w \<and> fv_open V w' = insert t (fv_open V w) \<and>
       fv_watch V w' = (if e \<in> insert t (fv_open V w) then (fv_watch V w)(e := (fv_watch V w e)(t \<mapsto> EPOLLIN)) else fv_watch V w)"
proof -
  obtain t w1 where t: "le_timerfd_create env w = (t, w1)" by (cases "le_timerfd_create env w")
  obtain ch w2 where ch: "enableReading (le_epoll_ctl env e) (setReadCallback TimerRead (new_Channel t), w1) = (ch, w2)"
    by (cases "enableReading (le_epoll_ctl env e) (setReadCallback TimerRead (new_Channel t), w1)")
  note c = fds_enableReading [OF ok ch]
  have tq: "tq = \<lparr>to_timerfd = t, to_channel = ch, to_queue = new_TimerQueue\<rparr>" "w' = w2"
    using r t ch by (simp_all add: timerQueue_construct_def createTimerfd_def)
  show thesis
  proof (rule that)
    show "t < 0 \<and> fv_open V w' = fv_open V w \<and> fv_watch V w' = fv_watch V w \<or>
     0 \<le> t \<and> t \<notin> fv_open V w \<and> fv_open V w' = insert t (fv_open V w) \<and>
       fv_watch V w' = (if e \<in> insert t (fv_open V w) then (fv_watch V w)(e := (fv_watch V w e)(t \<mapsto> EPOLLIN)) else fv_watch V w)"
      using fds_okD(3) [OF ok] t
    proof (rule makes_fdE)
      assume "t < 0" "fv_open V w1 = fv_open V w" "fv_watch V w1 = fv_watch V w"
      with c(3,4) fds_okD(8) [OF ok, of t w] tq(2) show ?thesis by auto
    next
      assume "0 \<le> t" "t \<notin> fv_open V w" "fv_open V w1 = insert t (fv_open V w)" "fv_watch V w1 = fv_watch V w"
      with c(3,4) tq(2) show ?thesis by simp
    qed
  qed (use tq c(1,2) in simp_all)
qed

lemma loop_construct_ok:
  fixes env :: "'w loop_env"
  assumes ok: "fds_ok env V"
  shows "post {Terminate} (loop_construct env w :: ('cb loop_object \<times> 'w) res) (\<lambda>(lo, w'). loop_made lo \<and> loop_fds lo \<inter> fv_open V w = {} \<and>
    fv_open V w' = loop_fds lo \<union> fv_open V w \<and> to_queue (lo_timerQueue lo) = new_TimerQueue \<and>
    fv_watch V w' = (fv_watch V w)(lo_epoll_fd lo := loop_watches lo))"
proof -
  obtain e w1 where e: "le_epoll_create env w = (e, w1)" by (cases "le_epoll_create env w")
  obtain tq :: "'cb timer_object" and w2 where tq: "timerQueue_construct env e w1 = (tq, w2)" by (cases "timerQueue_construct env e w1 :: 'cb timer_object \<times> 'w")
  obtain g w3 where g: "le_eventfd env w2 = (g, w3)" by (cases "le_eventfd env w2")
  obtain ch w4 where ch: "enableReading (le_epoll_ctl env e) (setReadCallback HandleWakeup (new_Channel g), w3) = (ch, w4)"
    by (cases "enableReading (le_epoll_ctl env e) (setReadCallback HandleWakeup (new_Channel g), w3)")
  show ?thesis
  proof (cases "e < 0 \<or> g < 0")
    case True
    then show ?thesis using e tq g by (auto simp: loop_construct_def)
  next
    case False
    then have E: "e \<notin> fv_open V w" "fv_open V w1 = insert e (fv_open V w)" "fv_watch V w1 = fv_watch V w"
      using fds_okD(1) [OF ok] e by (auto elim: makes_fdE)
    have G: "g \<notin> fv_open V w2" "fv_open V w3 = insert g (fv_open V w2)" "fv_watch V w3 = fv_watch V w2"
      using False fds_okD(2) [OF ok] g by (auto elim: makes_fdE)
    obtain t where T: "tq = \<lparr>to_timerfd = t, to_channel = to_channel tq, to_queue = new_TimerQueue\<rparr>"
      "ch_fd (to_channel tq) = t" "ch_index (to_channel tq) = - 1"
      "t < 0 \<and> fv_open V w2 = fv_open V w1 \<and> fv_watch V w2 = fv_watch V w1 \<or>
       0 \<le> t \<and> t \<notin> fv_open V w1 \<and> fv_open V w2 = insert t (fv_open V w1) \<and>
       fv_watch V w2 = (if e \<in> insert t (fv_open V w1) then (fv_watch V w1)(e := (fv_watch V w1 e)(t \<mapsto> EPOLLIN)) else fv_watch V w1)"
      by (rule timerQueue_construct_ok [OF ok tq])
    have tfd: "to_timerfd tq = t" "to_queue tq = new_TimerQueue" using T(1) by (metis timer_object.select_convs)+
    note c = fds_enableReading [OF ok ch]
    have we: "fv_watch V w e = (\<lambda>_. None)" using fds_okD(6) [OF ok E(1)] by auto
    let ?lo = "\<lparr>lo_epoll_fd = e, lo_looping = False, lo_quit = False, lo_wakeup_fd = g, lo_wakeupChannel = ch, lo_timerQueue = tq\<rparr>"
    have run: "loop_construct env w = Inr (?lo, w4)"
      using False e tq g ch by (simp add: loop_construct_def)
    have op: "loop_made ?lo \<and> loop_fds ?lo \<inter> fv_open V w = {} \<and> fv_open V w4 = loop_fds ?lo \<union> fv_open V w"
      using False E G T(2-4) c(3) tfd by (auto simp: loop_made_def loop_fds_def)
    have "fv_watch V w4 = (fv_watch V w)(e := loop_watches ?lo)"
    proof (intro ext)
      fix x y show "fv_watch V w4 x y = ((fv_watch V w)(e := loop_watches ?lo)) x y"
        using False E G T(4) c(3,4) tfd we by (auto simp: loop_watches_def loop_fds_def)
    qed
    with op run tfd show ?thesis by simp
  qed
qed

text \<open>Destroying it, from any later state of the kernel and the timers in which its descriptors are open.\<close>

lemma loop_destroy_ok:
  assumes ok: "fds_ok env V" and lo: "loop_made lo" and op: "loop_fds lo \<subseteq> fv_open V w"
    and q: "tq_ok {} (to_queue (lo_timerQueue lo))"
  shows "\<exists>q w'. loop_destroy env in_loop lo w = Inr (q, w') \<and> tq_heap q = (\<lambda>_. None) \<and>
    fv_open V w' = fv_open V w - loop_fds lo \<and>
    fv_watch V w' = (\<lambda>e g. if e \<in> loop_fds lo \<or> g \<in> loop_fds lo then None else fv_watch V w e g)"
proof -
  let ?e = "lo_epoll_fd lo" and ?g = "lo_wakeup_fd lo" and ?tq = "lo_timerQueue lo"
  let ?w2 = "le_close env ?g (le_close env ?e w)"
  have made: "0 \<le> ?e" "0 \<le> ?g" "?e \<noteq> ?g" "to_timerfd ?tq \<noteq> ?e" "to_timerfd ?tq \<noteq> ?g" "\<not> lo_looping lo"
    using lo by (simp_all add: loop_made_def)
  obtain ch w3 where off: "set_events (le_epoll_ctl env ?e) 0 (to_channel ?tq, ?w2) = (ch, w3)"
    by (cases "set_events (le_epoll_ctl env ?e) 0 (to_channel ?tq, ?w2)")
  have closed: "?e \<notin> fv_open V ?w2" by (simp add: fds_okD(4) [OF ok])
  have off': "isNoneEvent ch" "fv_open V w3 = fv_open V ?w2" "fv_watch V w3 = fv_watch V ?w2"
    using fds_set_events [OF ok off] closed by (simp_all add: isNoneEvent_def)
  obtain q' where q': "tq_destroy (to_queue ?tq) = Inr q'" "tq_heap q' = (\<lambda>_. None)"
    using tq_destroy_ok [OF q] by blast
  have "loop_destroy env in_loop lo w = Inr (q', le_close env (to_timerfd ?tq) w3)"
    using made off off'(1) q'(1) by (simp add: loop_destroy_def Let_def timerQueue_destroy_def disableAll_def
        channel_remove_def removeChannel_def)
  moreover have "fv_open V (le_close env (to_timerfd ?tq) w3) = fv_open V w - loop_fds lo"
    using made op fds_okD(8) [OF ok] by (auto simp: fds_okD(4) [OF ok] off'(2) loop_fds_def)
  moreover have "fv_watch V (le_close env (to_timerfd ?tq) w3) =
      (\<lambda>e g. if e \<in> loop_fds lo \<or> g \<in> loop_fds lo then None else fv_watch V w e g)"
  proof (intro ext)
    fix e g
    have "fv_watch V w t x = None" "fv_watch V w x t = None" if "\<not> 0 \<le> t" for t x
      using that fds_okD(6) [OF ok, of t w x] fds_okD(7) [OF ok, of t w x] fds_okD(8) [OF ok, of t w] by blast+
    then show "fv_watch V (le_close env (to_timerfd ?tq) w3) e g =
      (if e \<in> loop_fds lo \<or> g \<in> loop_fds lo then None else fv_watch V w e g)"
      using made by (auto simp: fds_okD(5) [OF ok] off'(3) loop_fds_def)
  qed
  ultimately show ?thesis using q'(2) by blast
qed

text \<open>
  The destructor closes the epoll instance first, so the timer queue's own attempt to stop being
  watched comes too late: the call fails.
\<close>

lemma late_disable_fails:
  assumes "fds_ok env V"
  shows "\<exists>k. le_epoll_ctl env e op g ev (le_close env e w) = (Some EBADF, k)"
proof -
  have "e \<notin> fv_open V (le_close env e w)" by (simp add: fds_okD(4) [OF assms])
  with assms show ?thesis unfolding fds_ok_def by blast
qed

subsection \<open>Properties\<close>

text \<open>
  C13. A loop gives back what it takes. Its constructor opens descriptors that were not open, and its
  epoll instance watches the eventfd and the timerfd for reading, and nothing else; after any history
  of its timers, and whatever else happened to the kernel while its descriptors stayed open, the
  destructor closes exactly these descriptors, ends every watch of them and deletes every timer, none
  twice, without a fault.
\<close>

theorem loop_life_balanced:
  fixes env :: "'w loop_env" and lo :: "'cb loop_object"
  assumes "fds_ok env V" and "alloc_ok alloc"
    and "loop_construct env w = Inr (lo, w1)" and "tq_run alloc prog ops (to_queue (lo_timerQueue lo)) = Inr (lg, tq)"
    and "loop_fds lo \<subseteq> fv_open V w2"
  shows "loop_fds lo \<inter> fv_open V w = {} \<and> fv_open V w1 = loop_fds lo \<union> fv_open V w \<and>
    fv_watch V w1 = (fv_watch V w)(lo_epoll_fd lo := loop_watches lo) \<and>
    (\<exists>q w3. loop_destroy env in_loop (lo\<lparr>lo_timerQueue := (lo_timerQueue lo)\<lparr>to_queue := tq\<rparr>\<rparr>) w2 = Inr (q, w3) \<and>
      tq_heap q = (\<lambda>_. None) \<and> fv_open V w3 = fv_open V w2 - loop_fds lo \<and>
      fv_watch V w3 = (\<lambda>e g. if e \<in> loop_fds lo \<or> g \<in> loop_fds lo then None else fv_watch V w2 e g))"
proof -
  let ?lo = "lo\<lparr>lo_timerQueue := (lo_timerQueue lo)\<lparr>to_queue := tq\<rparr>\<rparr>"
  note c = postD [OF loop_construct_ok [OF assms(1)] assms(3)]
  then have made: "loop_made lo" "to_queue (lo_timerQueue lo) = new_TimerQueue"
    and opened: "loop_fds lo \<inter> fv_open V w = {}" "fv_open V w1 = loop_fds lo \<union> fv_open V w"
      "fv_watch V w1 = (fv_watch V w)(lo_epoll_fd lo := loop_watches lo)"
    by simp_all
  have "\<not> tq_calling (new_TimerQueue :: 'cb timer_queue)" by (simp add: new_TimerQueue_def)
  from tq_run_ok [OF tq_ok_new assms(2) this, of prog ops] assms(4) made(2) have "tq_ok {} (to_queue (lo_timerQueue ?lo))"
    by simp
  moreover have "loop_made ?lo" using made(1) by (simp add: loop_made_def)
  moreover have "loop_fds ?lo = loop_fds lo" by (simp add: loop_fds_def)
  ultimately show ?thesis using loop_destroy_ok [OF assms(1), of ?lo w2 in_loop] assms(5) opened by simp
qed

text \<open>A kernel that numbers descriptors upwards.\<close>

type_synonym fd_table = "fd set \<times> (fd \<Rightarrow> fd \<Rightarrow> uint32 option) \<times> fd"

definition table_view :: "fd_table fd_view" where
  "table_view = \<lparr>fv_open = (\<lambda>(S, W, n). {f \<in> S. 0 \<le> f}),
     fv_watch = (\<lambda>(S, W, n) e g. if e \<in> S \<and> g \<in> S \<and> 0 \<le> e \<and> 0 \<le> g then W e g else None)\<rparr>"

definition table_make :: "fd_table \<Rightarrow> fd \<times> fd_table" where
  "table_make = (\<lambda>(S, W, n). if 0 \<le> n \<and> n \<notin> S
     then (n, insert n S, \<lambda>e g. if e = n \<or> g = n then None else W e g, n + 1) else (- 1, S, W, n))"

definition table_env :: "fd_table loop_env" where
  "table_env = \<lparr>le_epoll_create = table_make, le_eventfd = table_make, le_timerfd_create = table_make,
     le_close = (\<lambda>f (S, W, n). (S - {f}, W, n)),
     le_epoll_ctl = (\<lambda>e op g ev (S, W, n).
       if e \<in> S \<and> g \<in> S \<and> 0 \<le> e \<and> 0 \<le> g
       then if op = CTL_ADD \<and> W e g \<noteq> None then (Some EEXIST, S, W, n) else (None, S, W(e := (W e)(g \<mapsto> ev)), n)
       else (Some EBADF, S, W, n))\<rparr>"

lemma table_env_ok: "fds_ok table_env table_view"
proof -
  have "makes_fd table_view table_make"
    unfolding makes_fd_def
  proof (intro allI impI)
    fix w f w' assume "table_make w = (f, w')"
    moreover obtain S W n where "w = (S, W, n)" by (cases w)
    ultimately show "if f < 0 then same_fds table_view w w'
      else f \<notin> fv_open table_view w \<and> fv_open table_view w' = insert f (fv_open table_view w) \<and>
        fv_watch table_view w' = fv_watch table_view w"
      by (cases "0 \<le> n \<and> n \<notin> S") (auto simp: table_make_def same_fds_def table_view_def intro!: ext)
  qed
  then show ?thesis
    by (auto simp: fds_ok_def same_fds_def table_env_def table_view_def fun_eq_iff)
qed

theorem loop_life_balanced_witness:
  "\<exists>lo w1 lg tq q w3. loop_construct table_env ({0, 1, 2}, \<lambda>_ _. None, 3) = Inr (lo, w1) \<and> loop_fds lo = {3, 4, 5} \<and>
     tq_run small_alloc sample_prog sample_ops (to_queue (lo_timerQueue lo)) = Inr (lg, tq) \<and>
     loop_destroy table_env True (lo\<lparr>lo_timerQueue := (lo_timerQueue lo)\<lparr>to_queue := tq\<rparr>\<rparr>) w1 = Inr (q, w3) \<and>
     fv_open table_view w3 = {0, 1, 2}"
proof -
  have c: "\<exists>lo :: nat loop_object. \<exists>w1. loop_construct table_env ({0, 1, 2}, \<lambda>_ _. None, 3) = Inr (lo, w1) \<and>
    loop_fds lo = {3, 4, 5} \<and> to_queue (lo_timerQueue lo) = new_TimerQueue \<and>
    fv_open table_view w1 = {3, 4, 5} \<union> {0, 1, 2}"
    by (auto simp: loop_construct_def timerQueue_construct_def createTimerfd_def table_env_def table_make_def
        enableReading_def set_events_def updateChannel_def new_Channel_def setReadCallback_def Let_def loop_fds_def table_view_def)
  then obtain lo :: "nat loop_object" and w1 where lo: "loop_construct table_env ({0, 1, 2}, \<lambda>_ _. None, 3) = Inr (lo, w1)"
    "loop_fds lo = {3, 4, 5}" "to_queue (lo_timerQueue lo) = new_TimerQueue"
    and o1: "fv_open table_view w1 = {3, 4, 5} \<union> {0, 1, 2}" by blast
  obtain lg tq where tq: "tq_run small_alloc sample_prog sample_ops (to_queue (lo_timerQueue lo)) = Inr (lg, tq)"
    by (simp add: lo(3) sample_ops_def sample_prog_def tq_eval)
  note life = loop_life_balanced [OF table_env_ok small_alloc_ok lo(1) tq]
  have sub: "loop_fds lo \<subseteq> fv_open table_view w1" by (simp add: lo(2) o1)
  obtain q w3 where r: "loop_destroy table_env True (lo\<lparr>lo_timerQueue := (lo_timerQueue lo)\<lparr>to_queue := tq\<rparr>\<rparr>) w1 = Inr (q, w3)"
    and o3: "fv_open table_view w3 = fv_open table_view w1 - loop_fds lo"
    using life [OF sub, of True] by (elim conjE exE) (rule that)
  have "fv_open table_view w3 = {0, 1, 2}" by (simp add: o3 o1 lo(2) insert_Diff_if)
  with lo tq r show ?thesis by blast
qed

end
