(* ===== verification/Accepting.thy ===== *)
theory Accepting
  imports Server
begin

text \<open>
  The acceptor, the server and the pool together: what one readable event of the listening socket does
  to the server (src/net/acceptor.cpp \<open>handleRead\<close>, src/net/server.cpp constructor and
  \<open>newConnection\<close>, src/net/thread_pool.cpp \<open>getNextLoop\<close>). The acceptor's world is the kernel and the
  server it calls back; the kernel's calls do not touch the server.
\<close>

subsection \<open>The acceptor's callback\<close>

definition acc_on :: "'k accept_env \<Rightarrow> (fd \<Rightarrow> inet_address \<Rightarrow> 's \<Rightarrow> 's res) \<Rightarrow> ('k \<times> 's) accept_env" where
  "acc_on ke cb = \<lparr>
     acc_socket = (\<lambda>(k, s). case acc_socket ke k of (f, k) \<Rightarrow> (f, k, s)),
     acc_open_null = (\<lambda>(k, s). case acc_open_null ke k of (f, k) \<Rightarrow> (f, k, s)),
     acc_bind = (\<lambda>f a (k, s). case acc_bind ke f a k of (r, k) \<Rightarrow> (r, k, s)),
     acc_listen = (\<lambda>f (k, s). case acc_listen ke f k of (r, k) \<Rightarrow> (r, k, s)),
     acc_accept = (\<lambda>f (k, s). case acc_accept ke f k of (r, k) \<Rightarrow> (r, k, s)),
     acc_close = (\<lambda>f (k, s). (acc_close ke f k, s)),
     acc_epoll = (\<lambda>op f ev (k, s). case acc_epoll ke op f ev k of (r, k) \<Rightarrow> (r, k, s)),
     acc_looping = (\<lambda>(k, s). acc_looping ke k), acc_in_loop = (\<lambda>(k, s). acc_in_loop ke k),
     acc_callback = (\<lambda>f p (k, s). bind_res (cb f p s) (\<lambda>s. Inr (k, s)))\<rparr>"

text \<open>The server's own callback, and one that only takes notes.\<close>

definition serving :: "'k accept_env \<Rightarrow> ('k \<times> ('l, 'cb, 'h) server) accept_env" where
  "serving ke = acc_on ke newConnection"

definition noting :: "'k accept_env \<Rightarrow> ('k \<times> (fd \<times> inet_address) list) accept_env" where
  "noting ke = acc_on ke (\<lambda>f p l. Inr (l @ [(f, p)]))"

text \<open>The kernel keeps the promises of \<open>accept_ok\<close>, when the peers noted are the ones passed on.\<close>

definition kernel_accepts :: "'k accept_env \<Rightarrow> ('k \<Rightarrow> inet_address list) \<Rightarrow> ('k \<Rightarrow> nat) \<Rightarrow> bool" where
  "kernel_accepts ke queue free \<longleftrightarrow>
     accept_ok (noting ke) (\<lambda>w. queue (fst w)) (\<lambda>w. free (fst w)) (\<lambda>w. map snd (snd w))"

lemma shed_on:
  "shed_connection (acc_on ke cb) (a, k, s) =
     (case shed_connection ke (a, k) of (a, k) \<Rightarrow> (a, k, s))"
  by (simp add: shed_connection_def acc_on_def Let_def split: prod.split sum.split)

lemma shed_noting:
  "shed_connection (noting ke) (a, k, l) = (case shed_connection ke (a, k) of (a, k) \<Rightarrow> (a, k, l))"
  by (simp add: noting_def shed_on)

text \<open>
  Whatever the callback, the kernel and the acceptor go the same way as with the notes, as long as the
  callback does not fault on the connections noted: \<open>follows\<close> says so of one call.
\<close>

definition follows :: "'k accept_env \<Rightarrow> (fd \<Rightarrow> inet_address \<Rightarrow> 's \<Rightarrow> 's res)
    \<Rightarrow> acceptor \<times> 'k \<times> (fd \<times> inet_address) list \<Rightarrow> (acceptor \<times> 'k \<times> (fd \<times> inet_address) list) res \<Rightarrow> bool" where
  "follows ke cb = (\<lambda>(a, k, l) r. \<forall>a' k' l'. has_new_connection_callback a \<longrightarrow> r = Inr (a', k', l') \<longrightarrow>
     (\<exists>ds. l' = l @ ds \<and> (\<forall>s s'. fold_res (\<lambda>(f, p). cb f p) ds s = Inr s' \<longrightarrow>
       acceptor_handleRead (acc_on ke cb) (a, k, s) = Some (Inr (a', k', s')))))"

lemma followsD:
  assumes "follows ke cb (a, k, l) (Inr (a', k', l'))" and "has_new_connection_callback a"
  shows "\<exists>ds. l' = l @ ds \<and> (\<forall>s s'. fold_res (\<lambda>(f, p). cb f p) ds s = Inr s' \<longrightarrow>
    acceptor_handleRead (acc_on ke cb) (a, k, s) = Some (Inr (a', k', s')))"
  using assms by (simp add: follows_def)

lemma acc_on_accept: "acc_accept ke f k = (x, k1) \<Longrightarrow> acc_accept (acc_on ke cb) f (k, s) = (x, k1, s)"
  by (simp add: acc_on_def)

lemma follows_accepted:
  assumes acc: "acc_accept ke (listen_socketFd a) k = (Inr p, k1)" and rest: "follows ke cb (a, k1, l @ [p]) r"
  shows "follows ke cb (a, k, l) r"
  unfolding follows_def prod.case
proof (intro allI impI)
  fix a' k' l' assume a: "has_new_connection_callback a" and r: "r = Inr (a', k', l')"
  from followsD [OF rest [unfolded r] a] obtain ds where ds: "l' = (l @ [p]) @ ds"
    "\<And>s s'. fold_res (\<lambda>(f, p). cb f p) ds s = Inr s' \<Longrightarrow> acceptor_handleRead (acc_on ke cb) (a, k1, s) = Some (Inr (a', k', s'))"
    by blast
  have "acceptor_handleRead (acc_on ke cb) (a, k, s) = Some (Inr (a', k', s'))"
    if f: "fold_res (\<lambda>(f, p). cb f p) (p # ds) s = Inr s'" for s s'
  proof -
    from f obtain u where u: "cb (fst p) (snd p) s = Inr u" "fold_res (\<lambda>(f, p). cb f p) ds u = Inr s'"
      by (auto simp: res_simps split: prod.splits)
    have "hand_over (acc_on ke cb) a (fst p) (snd p) (k1, s) = Inr (k1, u)"
      using a u(1) by (simp add: hand_over_def acc_on_def)
    then show ?thesis by (subst acceptor_handleRead.simps) (simp add: acc_on_accept [OF acc] ds(2) [OF u(2)])
  qed
  with ds(1) show "\<exists>ds. l' = l @ ds \<and> (\<forall>s s'. fold_res (\<lambda>(f, p). cb f p) ds s = Inr s' \<longrightarrow>
      acceptor_handleRead (acc_on ke cb) (a, k, s) = Some (Inr (a', k', s')))"
    by (intro exI [of _ "p # ds"]) simp
qed

lemma follows_shed:
  assumes acc: "acc_accept ke (listen_socketFd a) k = (Inl err, k1)"
    and err: "\<not> (err = EAGAIN \<or> err = EWOULDBLOCK)" "err = EMFILE \<or> err = ENFILE"
    and shed: "shed_connection ke (a, k1) = (b, k2)" and rest: "follows ke cb (b, k2, l) r"
  shows "follows ke cb (a, k, l) r"
proof -
  have "has_new_connection_callback b = has_new_connection_callback a"
    using shed by (auto simp: shed_connection_def Let_def split: prod.splits)
  moreover have "acceptor_handleRead (acc_on ke cb) (a, k, s) = acceptor_handleRead (acc_on ke cb) (b, k2, s)" for s
    by (subst acceptor_handleRead.simps) (use err shed in \<open>simp add: acc_on_accept [OF acc] shed_on\<close>)
  ultimately show ?thesis using rest by (simp add: follows_def)
qed

lemma follows_ended:
  assumes acc: "acc_accept ke (listen_socketFd a) k = (Inl err, k1)"
    and err: "err = EAGAIN \<or> err = EWOULDBLOCK \<or> \<not> (err = EMFILE \<or> err = ENFILE)"
  shows "follows ke cb (a, k, l) (Inr (a, k1, l))"
proof -
  have "acceptor_handleRead (acc_on ke cb) (a, k, s) = Some (Inr (a, k1, s))" for s
    by (subst acceptor_handleRead.simps) (use err in \<open>auto simp: acc_on_accept [OF acc]\<close>)
  then show ?thesis by (simp add: follows_def)
qed

lemma handleRead_follows:
  assumes "acceptor_handleRead (noting ke) (a, k, l) = Some r" and "has_new_connection_callback a"
  shows "follows ke cb (a, k, l) r"
proof -
  have "e = noting ke \<longrightarrow> has_new_connection_callback (fst s) \<longrightarrow> follows ke cb s r"
    if "acceptor_handleRead e s = Some r" for e s r
  proof (rule acceptor_handleRead.raw_induct [OF _ that], goal_cases)
    case (1 rec e s r)
    note ih = 1(1) and body = 1(2)
    show ?case
    proof (intro impI)
      assume e: "e = noting ke" and cbk: "has_new_connection_callback (fst s)"
      obtain a k l where s: "s = (a, k, l)" by (cases s)
      obtain x k1 where x: "acc_accept ke (listen_socketFd a) k = (x, k1)" by (cases "acc_accept ke (listen_socketFd a) k")
      have acc: "acc_accept (noting ke) (listen_socketFd a) (k, l) = (x, k1, l)"
        by (simp add: noting_def acc_on_accept [OF x])
      show "follows ke cb s r"
      proof (cases x)
        case (Inr p)
        have "hand_over (noting ke) a (fst p) (snd p) (k1, l) = Inr (k1, l @ [p])"
          using cbk s by (simp add: hand_over_def noting_def acc_on_def)
        then have "rec e (a, k1, l @ [p]) = Some r" using body e s acc Inr by simp
        with ih e s cbk have "follows ke cb (a, k1, l @ [p]) r" by fastforce
        with x show ?thesis unfolding s Inr by (rule follows_accepted)
      next
        case (Inl err)
        show ?thesis
        proof (cases "err = EAGAIN \<or> err = EWOULDBLOCK \<or> \<not> (err = EMFILE \<or> err = ENFILE)")
          case True
          then have "r = Inr (a, k1, l)" using body e s acc Inl by (auto split: if_splits)
          with follows_ended [OF x [unfolded Inl] True] show ?thesis by (simp add: s)
        next
          case False
          obtain b k2 where b: "shed_connection ke (a, k1) = (b, k2)" by (cases "shed_connection ke (a, k1)")
          then have "has_new_connection_callback b" using cbk s
            by (auto simp: shed_connection_def Let_def split: prod.splits)
          moreover have "rec e (b, k2, l) = Some r" using body e s acc Inl False b
            by (simp add: shed_noting)
          ultimately have "follows ke cb (b, k2, l) r" using ih e by fastforce
          with follows_shed [OF x [unfolded Inl] _ _ b] False show ?thesis by (simp add: s)
        qed
      qed
    qed
  qed
  from this [OF assms(1)] assms(2) show ?thesis by simp
qed

subsection \<open>The server's part\<close>

text \<open>\<open>newConnection\<close> takes the next worker each time: the pool's rotation.\<close>

lemma newConnection_pick:
  assumes "pool_pick (sv_pool sv) = Some (l, p)"
  shows "newConnection f pa sv =
    Inr (sv\<lparr>sv_pool := p, sv_posted := sv_posted sv @ [(l, Establish (conn_name_of f) f pa)]\<rparr>)"
proof -
  have "getNextLoop (sv_pool sv) = Inr (l, p)" using assms by (simp add: pool_pick_def split: sum.splits)
  then show ?thesis by (simp add: newConnection_def)
qed

lemma newConnections_pick:
  "pick_many pool_pick (length ds) (sv_pool sv) = Some (ls, p) \<Longrightarrow>
    fold_res (\<lambda>(f, p). newConnection f p) ds sv =
      Inr (sv\<lparr>sv_pool := p,
        sv_posted := sv_posted sv @ map2 (\<lambda>l (f, pa). (l, Establish (conn_name_of f) f pa)) ls ds\<rparr>)"
proof (induction ds arbitrary: sv ls)
  case Nil
  then show ?case by simp
next
  case (Cons d ds)
  obtain f pa where d: "d = (f, pa)" by (cases d)
  from Cons.prems obtain l q ls' where l: "pool_pick (sv_pool sv) = Some (l, q)"
    "pick_many pool_pick (length ds) q = Some (ls', p)" "ls = l # ls'"
    by (auto split: option.splits prod.splits)
  let ?sv = "sv\<lparr>sv_pool := q, sv_posted := sv_posted sv @ [(l, Establish (conn_name_of f) f pa)]\<rparr>"
  from Cons.IH [of ?sv ls'] l show ?case by (simp add: d newConnection_pick [OF l(1)])
qed

subsection \<open>Properties\<close>


text \<open>Three peers, two descriptors left and a server with four workers, on a kernel that is its queue.\<close>

definition demo_accept :: "(inet_address list \<times> nat) accept_env" where
  "demo_accept = \<lparr>acc_socket = (\<lambda>k. (3, k)),
     acc_open_null = (\<lambda>(q, n). if n = 0 then (- 1, q, n) else (9, q, n - 1)),
     acc_bind = (\<lambda>f a k. (0, k)), acc_listen = (\<lambda>f k. (0, k)),
     acc_accept = (\<lambda>f (q, n). case q of [] \<Rightarrow> (Inl EAGAIN, q, n)
       | x # xs \<Rightarrow> if n = 0 then (Inl EMFILE, q, n) else (Inr (8 + int n, x), xs, n - 1)),
     acc_close = (\<lambda>f (q, n). if 0 \<le> f then (q, n + 1) else (q, n)),
     acc_epoll = (\<lambda>op f ev k. (None, k)), acc_looping = (\<lambda>k. True), acc_in_loop = (\<lambda>k. True),
     acc_callback = (\<lambda>f a k. Inr k)\<rparr>"

lemma demo_accept_ok: "kernel_accepts demo_accept fst snd"
  by (auto simp: kernel_accepts_def accept_ok_def noting_def acc_on_def demo_accept_def split: list.split nat.split)


end
