(* ===== verification/Spec2Isabelle.thy ===== *)
theory Spec2Isabelle
  imports Buffer LoadBalancer ThreadPool TimerExpiry EventLoop HealthCheck HttpParse Server LbHandler ProxyHandler
    EventLoopThread Gateway Echo LoopLife Accepting
begin

text \<open>
  MyNetCore: a model of the network library (src/src/net), of the two proxies built on it (src/src/app)
  and of its demos (src/src/demos), with the theorems that make it correct.

  \<^bold>\<open>The program.\<close> The library is a multi-reactor TCP server. An \<open>EventLoop\<close> runs in one thread: it
  waits in epoll, lets the \<open>Channel\<close> of each ready descriptor call its callbacks, and runs the functors
  that other threads have posted; its \<open>TimerQueue\<close> is one more descriptor. An \<open>EventLoopThread\<close> puts a
  loop into a thread of its own, and \<open>threadPool\<close> holds several. The \<open>Acceptor\<close> accepts connections in
  the base loop; the \<open>Server\<close> gives each to the next worker of the pool, where a functor makes a
  \<open>TcpConnection\<close> of it, with an input and an output \<open>Buffer\<close>; its callbacks, or its
  \<open>ConnectionHandler\<close>, are the application. The load balancer's handler takes a healthy backend from the
  \<open>LoadBalancer\<close>, dials it and relays in both directions; the \<open>HealthChecker\<close> decides which backends are
  healthy. The HTTP proxy's handler waits for a request, looks its path up in the \<open>RouteTable\<close>, dials
  the backend found, rewrites the Host header and relays.

  \<^bold>\<open>Theories and sources.\<close> Below, net, app and demos are the directories under src/src.

  \<^item> Prelude: machine types, \<open>errno\<close>, the faults (a failed \<open>assert\<close>, an exception, a use after free), the
    result type \<open>'a res\<close> with its sequencing, and lemmas on words and lists. Interfaces: the contracts
    \<open>byte_queue\<close> and \<open>round_robin\<close> as locales. Text: decimal text.
  \<^item> Buffer: net/buffer. The vector of bytes and its two indices, on 64-bit words.
  \<^item> InetAddr: net/inet_address. LoadBalancer: app/load_balancer. ThreadPool: net/thread_pool, with
    demos/threadPoolTest.cpp.
  \<^item> Timer: net/timestamp, net/timer, net/timer_id. TimerQueue and TimerExpiry: net/timer_queue, its
    operations and invariant, then whole expiries and histories. LoopTimers: the timer functions of
    net/event_loop and the abstract timer service that HealthCheck and the handlers use.
  \<^item> Channel: net/channel and \<open>updateChannel\<close>, \<open>removeChannel\<close> of net/event_loop. EventLoop: the rest of
    net/event_loop as a concurrent program. LoopLife: constructors and destructors of the loop and its
    timer queue, with their descriptors. EventLoopThread: net/event_loop_thread.
  \<^item> Acceptor: net/acceptor. TcpConnection: net/tcp_connection, its operations; TcpStream: its output path;
    TcpLife: its input path, establishing, closing and dialling. Server: net/server. Accepting: acceptor,
    server and pool together.
  \<^item> Relay: two connections, the closures they hold over one another, and what both handlers do with
    them. RelayFlow, RelayStream, RelayApp: flow control, the two streams, and the contract \<open>relay_app\<close> of a
    handler that relays. LbHandler: app/load_balancer_handler. HttpParse: the text functions of
    app/http_proxy_handler.cpp and app/route_table.h. ProxyHandler: app/http_proxy_handler.
  \<^item> HealthCheck: app/health_checker. Gateway: demos/static_proxy_server.cpp, from the accept to the last
    byte. Echo: demos/echo_server.cpp.

  \<^bold>\<open>How the code is read.\<close> A class is a record whose fields are its members; a method is a function on
  the record, and on the world where it does system calls, with every early return and assertion a
  branch. A failed assertion, exception or invalid access is a value \<open>Inl fault\<close>, so "does not fault" is
  always proved and never assumed; the build type of src/CMakeLists.txt is Debug, where assertions are
  active. \<open>size_t\<close>, \<open>ssize_t\<close> and event masks are words of their width; \<open>int64_t\<close> time stamps are
  integers, and a \<open>double\<close> is a rational rounded to 53 bits after the one multiplication. \<open>std::function\<close>
  members are values of a datatype that names the closure, or an optional constructor of it. The loop
  and the loop thread are step relations or lists of moves over every schedule of their threads; a
  mutex-protected operation is one step. Everything that runs in one loop thread is a function.

  \<^bold>\<open>What is a parameter.\<close> System calls, \<open>operator new\<close>, the clock, \<open>inet_addr\<close>, \<open>gmtime_r\<close> and the
  application's callbacks are arguments, mostly fields of an environment record. What the code relies on
  is a named hypothesis with documented behaviour, over a view of the kernel:
  \<open>epoll_ok\<close>, \<open>fds_ok\<close> (registration, descriptors), \<open>accept_ok\<close> and \<open>kernel_accepts\<close> (the accept queue
  and the descriptors left), \<open>stream_on\<close>, \<open>input_env\<close>, \<open>net_ok\<close> (non-blocking reads and writes),
  \<open>life_env\<close> (close callbacks), \<open>dials\<close> (socket and connect), \<open>probe_env_ok\<close> (the health checker's
  calls), \<open>eventfd_ok\<close>, \<open>alloc_ok\<close>. Each has an instance that satisfies it, used by the witnesses.

  \<^bold>\<open>What is shown.\<close>

  \<^item> Data: a buffer is a queue of bytes on every history, grows without losing any, and \<open>readFd\<close> appends
    what the kernel delivered (Buffer); addresses compare as a total order (InetAddr); the balancer
    refines the sets of configured and healthy backends and rotates fairly (LoadBalancer), as the pool
    does (ThreadPool); time stamps print and read back (Timer).
  \<^item> Timers: every history of additions, cancellations and expiries, with callbacks that add and cancel,
    keeps the queue's two sets and the heap in agreement, never touches a deleted timer, runs exactly
    the due ones in order, never a cancelled one, keeps the descriptor armed for the earliest, and
    refines a map of pending timers (TimerQueue, TimerExpiry, LoopTimers).
  \<^item> Loops: in every interleaving posted functors run once and in order, and no wake-up is lost
    (EventLoop); \<open>startLoop\<close> returns the worker's loop, and a loop told to quit is joined, while a quit
    before the loop is entered is lost and the destructor then hangs (EventLoopThread); a loop closes
    exactly the descriptors it opened (LoopLife).
  \<^item> Connections: the registered mask follows the channel (Channel); bytes sent are the bytes accepted by
    the kernel followed by those buffered (TcpStream); reading drains the socket, closing reports once
    (TcpLife); the accept loop ends and sheds what it cannot serve (Acceptor); peers become connections
    in the order of arrival and workers take turns (Accepting); a connection's life leaves the server's
    map as it was, while an error event that is also readable brings the server down (Server).
  \<^item> Applications: both handlers relay in both directions without losing, adding or reordering a byte,
    on every history of arrivals and partial reads and writes, and no event faults (LbHandler,
    ProxyHandler, by interpretation of \<open>relay_app\<close>); routes, the 404 answer, the Host header and its
    confusion (HttpParse, ProxyHandler); a probe decides once and a round of checks has the right result
    (HealthCheck); the gateway serves a client end to end, and opens with its first check (Gateway); the
    echo server echoes (Echo). Where the code goes wrong the theorem says what it does: a client that
    leaves fails an assertion of its backend's destructor, a closed backend goes unnoticed.

  \<^bold>\<open>Bounds and recursion.\<close> \<open>handleRead_loop\<close> and \<open>acceptor_handleRead\<close> may run as long as the kernel
  delivers, so they are partial functions into \<open>option\<close>, and that they end is proved; \<open>handleWrite_loop\<close>
  ends because each write shortens the buffer. Callbacks call operations that call callbacks:
  \<open>lb_env\<close>, \<open>hp_env\<close> and \<open>echo_at\<close> take the depth of such calls, and a call beyond it is a fault; events
  run at depth two or more, and the theorems, which exclude faults at every such depth, show that it is
  enough. The relay theorems bound the traffic of each descriptor by \<open>N\<close>, at most the largest vector
  less the eight bytes of the buffer's prefix, with \<open>S\<close> bytes to spare for a rewritten header. At most
  seven moves complete \<open>startLoop\<close>.

  \<^bold>\<open>Not modelled.\<close> Diagnostics (\<open>LOG_DEBUG\<close>, \<open>perror\<close>, \<open>std::cerr\<close>) and src/src/utils/noncopyable.h,
  which deletes copy operations; demos/tcp_connection_test.cpp, a scripted run with sleeps around the echo
  callback; src/size_test.cpp, which prints the size of a copied declaration. Data races on plain members
  have no defined behaviour in C++ and are reported as findings; the models take each access as atomic.
  Of the demos' main functions the set-up is modelled; the calls of \<open>start\<close> and \<open>loop\<close> that follow are
  those of Server and EventLoop.
\<close>

end
